(* ===== verification/Prelude.thy ===== *)
theory Prelude
  imports Main "HOL-Library.Word" "HOL-Library.AList"
begin

unbundle bit_operations_syntax

section \<open>Shared types, byte-order helpers, finite tables and interface contracts\<close>

text \<open>
  What every component theory builds on:
  \<^item> the names of the model's basic types (bytes, instants, Go's sized integers);
  \<^item> Go slices and the fixed-width integer codecs of \<open>encoding/binary\<close> that the
    wire formats use, with their round trips;
  \<^item> Go maps as association lists with distinct keys. The order of the list stands for
    Go's unspecified iteration order; every lemma about a loop over a map holds for
    every order;
  \<^item> the contract of a wire codec (\<open>codec\<close>, \<open>strict_codec\<close>), stated as locales that
    the wire-format theories interpret on their own marshal/unmarshal pairs.
  An instant or a duration (\<open>time.Time\<close>, \<open>time.Duration\<close>) is an \<open>int\<close> counting
  nanoseconds; a fixed array \<open>[n]byte\<close> is a byte list whose length is part of the
  owner's well-formedness predicate.
\<close>

type_synonym byte = "8 word"
type_synonym bytes = "byte list"
type_synonym u16 = "16 word"
type_synonym u32 = "32 word"
type_synonym u64 = "64 word"
type_synonym instant = int
type_synonym duration = int

named_theorems wire_simps \<open>evaluation rules for marshal and unmarshal functions\<close>
named_theorems table_simps \<open>lookups after table updates and deletions\<close>

subsection \<open>Slices\<close>

text \<open>Go's \<open>xs[i:j]\<close>, used only where the code has checked \<open>i \<le> j \<le> len(xs)\<close>.\<close>

definition slice :: "nat \<Rightarrow> nat \<Rightarrow> 'a list \<Rightarrow> 'a list" where
  "slice i j xs = take (j - i) (drop i xs)"

lemma length_slice [simp]: "j \<le> length xs \<Longrightarrow> length (slice i j xs) = j - i"
  by (simp add: slice_def)

lemma slice_append_left [wire_simps]:
  "length xs = n \<Longrightarrow> slice 0 n (xs @ ys) = xs"
  by (simp add: slice_def)

lemma slice_drop_prefix [wire_simps]:
  "length xs = i \<Longrightarrow> slice i j (xs @ ys) = take (j - i) ys"
  by (simp add: slice_def)

lemma take_slice_drop: "i \<le> j \<Longrightarrow> take i xs @ slice i j xs @ drop j xs = xs"
proof -
  assume "i \<le> j"
  then have "drop j xs = drop (j - i) (drop i xs)" by simp
  then have "slice i j xs @ drop j xs = drop i xs"
    by (simp only: slice_def append_take_drop_id)
  then show ?thesis by simp
qed

lemma take_slice: "i \<le> j \<Longrightarrow> take i xs @ slice i j xs = take j xs"
  unfolding slice_def by (metis le_add_diff_inverse take_add)

lemma list_splitAt_nth: "i < length xs \<Longrightarrow> take i xs @ xs ! i # drop (Suc i) xs = xs"
  by (simp add: id_take_nth_drop [symmetric])

text \<open>The first index at which a byte occurs, as the scanning loops compute it.\<close>

fun index_of :: "'a \<Rightarrow> 'a list \<Rightarrow> nat option" where
  "index_of x [] = None"
| "index_of x (y # ys) = (if y = x then Some 0 else map_option Suc (index_of x ys))"

lemma index_of_None [simp]: "index_of x ys = None \<longleftrightarrow> x \<notin> set ys"
  by (induction ys) auto

lemma index_of_Some:
  "index_of x ys = Some i \<longleftrightarrow> i < length ys \<and> ys ! i = x \<and> x \<notin> set (take i ys)"
proof (induction ys arbitrary: i)
  case Nil
  then show ?case by simp
next
  case (Cons y ys)
  then show ?case by (cases i) auto
qed

lemma index_of_append_notin [simp]:
  "x \<notin> set ys \<Longrightarrow> index_of x (ys @ x # zs) = Some (length ys)"
  by (induction ys) auto

lemma index_of_append_in [simp]: "x \<in> set ys \<Longrightarrow> index_of x (ys @ zs) = index_of x ys"
  by (induction ys) auto

lemma index_of_append_skip:
  "x \<notin> set ys \<Longrightarrow> index_of x (ys @ zs) = map_option (\<lambda>i. i + length ys) (index_of x zs)"
  by (induction ys) (auto simp: option.map_comp o_def option.map_ident)

subsection \<open>Fixed-width integers on the wire\<close>

text \<open>\<open>binary.LittleEndian\<close> and \<open>binary.BigEndian\<close>, in the shift-and-or form of the library.\<close>

definition le16 :: "u16 \<Rightarrow> bytes" where
  "le16 w = [ucast w, ucast (drop_bit 8 w)]"

definition un_le16 :: "bytes \<Rightarrow> u16" where
  "un_le16 b = ucast (b ! 0) OR push_bit 8 (ucast (b ! 1))"

definition le32 :: "u32 \<Rightarrow> bytes" where
  "le32 w = [ucast w, ucast (drop_bit 8 w), ucast (drop_bit 16 w), ucast (drop_bit 24 w)]"

definition un_le32 :: "bytes \<Rightarrow> u32" where
  "un_le32 b = ucast (b ! 0) OR push_bit 8 (ucast (b ! 1)) OR push_bit 16 (ucast (b ! 2))
     OR push_bit 24 (ucast (b ! 3))"

definition be32 :: "u32 \<Rightarrow> bytes" where
  "be32 w = rev (le32 w)"

definition be64 :: "u64 \<Rightarrow> bytes" where
  "be64 w = map (\<lambda>i. ucast (drop_bit (8 * (7 - i)) w)) [0..<8]"

lemma length_le16 [simp]: "length (le16 w) = 2"
  by (simp add: le16_def)

lemma length_le32 [simp]: "length (le32 w) = 4"
  by (simp add: le32_def)

lemma length_be32 [simp]: "length (be32 w) = 4"
  by (simp add: be32_def)

lemma length_be64 [simp]: "length (be64 w) = 8"
  by (simp add: be64_def)

lemma byte_bit_high [simp]: "8 \<le> n \<Longrightarrow> \<not> bit (x :: byte) n"
  by (auto dest: bit_imp_le_length)

lemma un_le16_le16 [simp]: "un_le16 (le16 w @ xs) = w"
  unfolding un_le16_def le16_def
  by (rule bit_word_eqI) (auto simp: bit_simps)

lemma un_le32_le32 [simp]: "un_le32 (le32 w @ xs) = w"
proof (rule bit_word_eqI)
  fix n assume "n < LENGTH(32)"
  then consider "n < 8" | "8 \<le> n" "n < 16" | "16 \<le> n" "n < 24" | "24 \<le> n" "n < 32"
    by fastforce
  then show "bit (un_le32 (le32 w @ xs)) n \<longleftrightarrow> bit w n"
    by cases (auto simp: un_le32_def le32_def bit_simps)
qed

lemma le16_un_le16:
  assumes "length b = 2"
  shows "le16 (un_le16 b) = b"
proof -
  from assms obtain x y where b: "b = [x, y]"
    by (auto simp: numeral_2_eq_2 length_Suc_conv)
  have "ucast (ucast x OR push_bit 8 (ucast y :: u16)) = x"
    and "ucast (drop_bit 8 (ucast x OR push_bit 8 (ucast y :: u16))) = y"
    by (auto intro!: bit_word_eqI simp: bit_simps)
  then show ?thesis by (simp only: b le16_def un_le16_def nth_Cons_0 nth_Cons_Suc One_nat_def)
qed

lemma le32_un_le32:
  assumes "length b = 4"
  shows "le32 (un_le32 b) = b"
proof -
  from assms obtain x y z w where b: "b = [x, y, z, w]"
    by (auto simp: numeral_eq_Suc length_Suc_conv)
  define v :: u32 where
    "v = ucast x OR push_bit 8 (ucast y) OR push_bit 16 (ucast z) OR push_bit 24 (ucast w)"
  have "ucast v = x" and "ucast (drop_bit 8 v) = y"
    and "ucast (drop_bit 16 v) = z" and "ucast (drop_bit 24 v) = w"
    by (auto intro!: bit_word_eqI simp: v_def bit_simps)
  moreover have "un_le32 b = v"
    by (simp only: b un_le32_def v_def nth_Cons_0 nth_Cons_Suc One_nat_def numeral_2_eq_2
        numeral_3_eq_3)
  ultimately show ?thesis by (simp only: b le32_def)
qed

subsection \<open>Bits of a byte\<close>

text \<open>The masks the wire formats use, and the values that fit in a few bits.\<close>

lemma int_masks [simp]:
  "bit (0x80 :: int) n \<longleftrightarrow> n = 7" "bit (0x40 :: int) n \<longleftrightarrow> n = 6" "bit (0x20 :: int) n \<longleftrightarrow> n = 5"
  "bit (0x10 :: int) n \<longleftrightarrow> n = 4"
  using bit_exp_iff [of 7 n, where 'a = int] bit_exp_iff [of 6 n, where 'a = int]
    bit_exp_iff [of 5 n, where 'a = int] bit_exp_iff [of 4 n, where 'a = int]
  by (auto simp: possible_bit_def)

lemma int_low_masks [simp]:
  "bit (0x03 :: int) n \<longleftrightarrow> n < 2" "bit (0x0F :: int) n \<longleftrightarrow> n < 4" "bit (0x7F :: int) n \<longleftrightarrow> n < 7"
  using bit_mask_iff [of 2 n, where 'a = int] bit_mask_iff [of 4 n, where 'a = int]
    bit_mask_iff [of 7 n, where 'a = int]
  by (simp_all add: mask_eq_exp_minus_1 possible_bit_def)

lemma int_mask_0C [simp]: "bit (0x0C :: int) n \<longleftrightarrow> n = 2 \<or> n = 3"
proof -
  have "bit (push_bit 2 (mask 2) :: int) n \<longleftrightarrow> n = 2 \<or> n = 3"
    unfolding bit_push_bit_iff bit_mask_iff by (auto simp: possible_bit_def)
  then show ?thesis by (simp add: mask_eq_exp_minus_1)
qed

lemma small_bit: 
  assumes "unat (x::byte) < 2 ^ k" "k \<le> n" shows "\<not> bit x n"
proof -
  have "take_bit k (unat x) = unat x" using assms by (simp add: take_bit_nat_eq_self)
  then have "bit (unat x) n = bit (take_bit k (unat x)) n" by simp
  then show ?thesis using assms by (simp add: bit_simps)
qed

lemma lt2_bit: "(x :: byte) < 2 \<Longrightarrow> bit x n \<Longrightarrow> n < 1"
  using small_bit [of x 1 n] by (force simp: word_less_nat_alt)

lemma lt4_bit: "(x :: byte) < 4 \<Longrightarrow> bit x n \<Longrightarrow> n < 2"
  using small_bit [of x 2 n] by (force simp: word_less_nat_alt)

lemma bits_lt:
  assumes "\<And>n. bit (x :: byte) n \<Longrightarrow> n < k"
  shows "unat x < 2 ^ k"
proof -
  have "x = take_bit k x"
    using assms by (intro bit_word_eqI) (auto simp: bit_take_bit_iff)
  then have "unat x = take_bit k (unat x)" by (metis unsigned_take_bit_eq)
  then show ?thesis by (metis take_bit_nat_less_exp)
qed

lemma bits_lt2: "(\<And>n. bit (x :: byte) n \<Longrightarrow> n < 1) \<Longrightarrow> x < 2"
  using bits_lt [of x 1] by (simp add: word_less_nat_alt)

lemma bits_lt4: "(\<And>n. bit (x :: byte) n \<Longrightarrow> n < 2) \<Longrightarrow> x < 4"
  using bits_lt [of x 2] by (simp add: word_less_nat_alt)

lemma unat_byte_lt: "unat (x :: byte) < 256"
  by (rule order_less_le_trans [OF unsigned_less]) simp

lemma lt2_cases: "(x :: byte) < 2 \<Longrightarrow> x = 0 \<or> x = 1"
  by (auto simp: word_less_nat_alt word_unat_eq_iff)

subsection \<open>Finite tables\<close>

text \<open>
  A Go \<open>map[K]V\<close> is an association list with distinct keys: \<open>map_of\<close> looks a key up,
  \<open>AList.update\<close> stores, \<open>AList.delete\<close> deletes, \<open>length\<close> is \<open>len\<close>, and deleting
  inside a range loop is a \<open>filter\<close>.
\<close>

type_synonym ('k, 'v) table = "('k \<times> 'v) list"

definition table_ok :: "('k, 'v) table \<Rightarrow> bool" where
  "table_ok t \<longleftrightarrow> distinct (map fst t)"

lemma table_ok_Nil [simp]: "table_ok []"
  by (simp add: table_ok_def)

lemma table_ok_update [simp]: "table_ok t \<Longrightarrow> table_ok (AList.update k v t)"
  by (simp add: table_ok_def distinct_update)

lemma table_ok_delete [simp]: "table_ok t \<Longrightarrow> table_ok (AList.delete k t)"
  by (simp add: table_ok_def distinct_delete)

lemma table_ok_filter [simp]: "table_ok t \<Longrightarrow> table_ok (filter P t)"
  by (simp add: table_ok_def distinct_map_filter)

lemmas map_of_update [table_simps] = update_conv'
lemmas map_of_delete [table_simps] = delete_conv'

lemma map_of_filter_ok:
  "table_ok t \<Longrightarrow>
   map_of (filter (\<lambda>(k, v). P k v) t) k =
     (case map_of t k of None \<Rightarrow> None | Some v \<Rightarrow> if P k v then Some v else None)"
  unfolding table_ok_def
  by (induction t) (auto split: option.splits simp: map_of_eq_None_iff rev_image_eqI)

lemma length_update: "length (AList.update k v t) = (if map_of t k = None then Suc (length t) else length t)"
  by (induction t) auto

lemma length_delete_lt:
  assumes "map_of t k = Some v"
  shows "length (AList.delete k t) < length t"
proof -
  from assms have "(k, v) \<in> set t" by (rule map_of_SomeD)
  then show ?thesis
    unfolding AList.delete_eq by (intro length_filter_less [of "(k, v)"]) auto
qed

text \<open>What a table promises its clients, whatever it is implemented with.\<close>

locale finite_table =
  fixes get :: "'t \<Rightarrow> 'k \<Rightarrow> 'v option"
    and put :: "'k \<Rightarrow> 'v \<Rightarrow> 't \<Rightarrow> 't"
    and del :: "'k \<Rightarrow> 't \<Rightarrow> 't"
    and inv :: "'t \<Rightarrow> bool"
  assumes get_put: "inv t \<Longrightarrow> get (put k v t) = (get t)(k \<mapsto> v)"
    and get_del: "inv t \<Longrightarrow> get (del k t) = (get t)(k := None)"
    and inv_put: "inv t \<Longrightarrow> inv (put k v t)"
    and inv_del: "inv t \<Longrightarrow> inv (del k t)"
begin

lemma put_put_commute:
  "inv t \<Longrightarrow> k \<noteq> l \<Longrightarrow> get (put k v (put l w t)) = get (put l w (put k v t))"
  by (simp add: get_put inv_put fun_upd_twist)

lemma del_after_put: "inv t \<Longrightarrow> get t k = None \<Longrightarrow> get (del k (put k v t)) = get t"
  by (auto simp: get_put get_del inv_put)

end

interpretation alist: finite_table map_of AList.update AList.delete table_ok
  by unfold_locales (simp_all add: table_simps)

subsection \<open>Wire codecs\<close>

text \<open>
  A marshal/unmarshal pair: \<open>codec\<close> promises that every well-formed value survives the
  trip; \<open>strict_codec\<close> adds that every accepted wire image of the class \<open>wire\<close> is the
  image of exactly one well-formed value, so nothing on the wire is ignored.
\<close>

locale codec =
  fixes enc :: "'a \<Rightarrow> bytes"
    and dec :: "bytes \<Rightarrow> 'e + 'a"
    and ok :: "'a \<Rightarrow> bool"
  assumes dec_enc: "ok x \<Longrightarrow> dec (enc x) = Inr x"
begin

lemma enc_inj: "ok x \<Longrightarrow> ok y \<Longrightarrow> enc x = enc y \<Longrightarrow> x = y"
  by (metis dec_enc sum.inject(2))

end

locale strict_codec = codec enc dec ok
  for enc :: "'a \<Rightarrow> bytes" and dec :: "bytes \<Rightarrow> 'e + 'a" and ok :: "'a \<Rightarrow> bool" +
  fixes wire :: "bytes \<Rightarrow> bool"
  assumes enc_dec: "wire bs \<Longrightarrow> dec bs = Inr x \<Longrightarrow> ok x \<and> enc x = bs"
    and wire_enc: "ok x \<Longrightarrow> wire (enc x)"
begin

lemma dec_iff: "wire bs \<Longrightarrow> dec bs = Inr x \<longleftrightarrow> ok x \<and> enc x = bs"
  using dec_enc enc_dec by blast

lemma dec_inj: "wire bs \<Longrightarrow> wire cs \<Longrightarrow> dec bs = Inr x \<Longrightarrow> dec cs = Inr x \<Longrightarrow> bs = cs"
  using enc_dec by blast

end

end
