(* ===== verification/Framing.thy ===== *)
theory Framing
  imports Prelude "HOL-Library.Sublist"
begin

unbundle bit_operations_syntax

section \<open>Byte-stuffed framing: KISS and HDLC\<close>

text \<open>
  \<open>internal/kiss/kiss.go\<close> (escape, unescape, encode, the stream splitter) and
  \<open>internal/reticulum/hdlc.go\<close> (escape, unescape, frame, the buffered frame reader).
  The contract both share, a reversible escaping that never emits the delimiter, is the
  locale \<open>byte_stuffing\<close>; the two escapings are its interpretations \<open>kiss\<close> and
  \<open>hdlc\<close>. The lemmas show that both readers recover exactly the frames sent, however
  the transport chops the stream, and that their buffers stay bounded.
\<close>

subsection \<open>The contract of an escaping\<close>

locale byte_stuffing =
  fixes flag :: byte
    and esc :: "bytes \<Rightarrow> bytes"
    and unesc :: "bytes \<Rightarrow> bytes"
  assumes unesc_esc: "unesc (esc xs) = xs"
    and flag_free: "flag \<notin> set (esc xs)"
begin

lemma esc_inj: "esc xs = esc ys \<Longrightarrow> xs = ys"
  by (metis unesc_esc)

lemma esc_cut: "takeWhile (\<lambda>b. b \<noteq> flag) (esc xs @ flag # rest) = esc xs"
  using flag_free by (metis (mono_tags, lifting) takeWhile_append2 takeWhile.simps(2) append_Nil2)

lemma closed_frame_prefix_free:
  assumes "esc xs @ flag # r = esc ys @ flag # s"
  shows "xs = ys \<and> r = s"
proof -
  have "esc xs = esc ys" using assms esc_cut [of xs r] esc_cut [of ys s] by simp
  with assms show ?thesis using esc_inj by auto
qed

text \<open>A whole stream of delimited frames has only one reading.\<close>

lemma stream_unique:
  "concat (map (\<lambda>x. flag # esc x @ [flag]) xs) = concat (map (\<lambda>x. flag # esc x @ [flag]) ys)
   \<Longrightarrow> xs = ys"
proof (induction xs arbitrary: ys)
  case Nil
  then show ?case by (cases ys) auto
next
  case (Cons x xs)
  show ?case
  proof (cases ys)
    case Nil
    with Cons.prems show ?thesis by simp
  next
    case (Cons y ys')
    with Cons.prems have "esc x @ flag # concat (map (\<lambda>x. flag # esc x @ [flag]) xs)
        = esc y @ flag # concat (map (\<lambda>x. flag # esc x @ [flag]) ys')"
      by simp
    from closed_frame_prefix_free [OF this] Cons.IH Cons show ?thesis by auto
  qed
qed

end

subsection \<open>KISS (kiss.go)\<close>

definition FEND :: byte where "FEND = 0xC0"
definition FESC :: byte where "FESC = 0xDB"
definition TFEND :: byte where "TFEND = 0xDC"
definition TFESC :: byte where "TFESC = 0xDD"

lemmas kiss_bytes = FEND_def FESC_def TFEND_def TFESC_def

fun Escape :: "bytes \<Rightarrow> bytes" where
  "Escape [] = []"
| "Escape (b # data) =
     (if b = FESC then [FESC, TFESC]
      else if b = FEND then [FESC, TFEND]
      else [b]) @ Escape data"

text \<open>The loop of \<open>Unescape\<close>: the flag \<open>esc\<close> is its only state besides the output.\<close>

fun unescape_loop :: "bool \<Rightarrow> bytes \<Rightarrow> bytes" where
  "unescape_loop esc [] = []"
| "unescape_loop esc (b # data) =
     (if esc then
        (if b = TFEND then FEND else if b = TFESC then FESC else b) # unescape_loop False data
      else if b = FESC then unescape_loop True data
      else b # unescape_loop False data)"

definition Unescape :: "bytes \<Rightarrow> bytes" where
  "Unescape data = unescape_loop False data"

definition Encode :: "byte \<Rightarrow> bytes \<Rightarrow> bytes" where
  "Encode cmd payload = FEND # cmd # Escape payload @ [FEND]"

record Frame =
  f_Cmd :: byte
  f_Payload :: bytes

record Splitter =
  s_MaxLen :: int
  s_Timeout :: duration
  s_buf :: bytes
  s_inFrame :: bool
  s_lastByte :: instant

text \<open>One turn of the range loop of \<open>Feed\<close>: the frames found so far and the splitter.\<close>

definition feed_byte :: "byte \<Rightarrow> Frame list \<times> Splitter \<Rightarrow> Frame list \<times> Splitter" where
  "feed_byte b st =
     (let (frames, s) = st in
      if b = FEND then
        (if s_inFrame s \<and> s_buf s \<noteq> []
         then frames @ [\<lparr>f_Cmd = hd (s_buf s), f_Payload = Unescape (tl (s_buf s))\<rparr>]
         else frames,
         s\<lparr>s_buf := [], s_inFrame := True\<rparr>)
      else if \<not> s_inFrame s then (frames, s)
      else if s_MaxLen s > 0 \<and> int (length (s_buf s)) > s_MaxLen s then
        (frames, s\<lparr>s_buf := [], s_inFrame := False\<rparr>)
      else (frames, s\<lparr>s_buf := s_buf s @ [b]\<rparr>))"

definition Feed :: "Splitter \<Rightarrow> bytes \<Rightarrow> instant \<Rightarrow> Frame list \<times> Splitter" where
  "Feed s data now =
     (let s1 = (if s_Timeout s > 0 \<and> s_inFrame s \<and> s_buf s \<noteq> []
                   \<and> now - s_lastByte s > s_Timeout s
                then s\<lparr>s_buf := [], s_inFrame := False\<rparr> else s);
          s2 = (if data \<noteq> [] then s1\<lparr>s_lastByte := now\<rparr> else s1)
      in fold feed_byte data ([], s2))"

definition splitter_Reset :: "Splitter \<Rightarrow> Splitter" where
  "splitter_Reset s = s\<lparr>s_buf := [], s_inFrame := False\<rparr>"

lemma Escape_FEND_free: "FEND \<notin> set (Escape xs)"
  by (induction xs) (auto simp: kiss_bytes)

lemma unescape_loop_Escape: "unescape_loop False (Escape xs) = xs"
  by (induction xs) (auto simp: kiss_bytes)

interpretation kiss: byte_stuffing FEND Escape Unescape
  by unfold_locales (simp_all add: Unescape_def unescape_loop_Escape Escape_FEND_free)

lemma length_Escape_bounds: "length xs \<le> length (Escape xs) \<and> length (Escape xs) \<le> 2 * length xs"
  by (induction xs) auto

subsubsection \<open>The splitter\<close>

lemma feed_byte_frames: "feed_byte b (fs @ gs, s) = (fs @ fst (feed_byte b (gs, s)), snd (feed_byte b (gs, s)))"
  by (simp add: feed_byte_def)

lemma fold_feed_frames:
  "fold feed_byte d (fs, s) = (fs @ fst (fold feed_byte d ([], s)), snd (fold feed_byte d ([], s)))"
proof (induction d arbitrary: fs s)
  case Nil
  then show ?case by simp
next
  case (Cons b d)
  obtain g t where gt: "feed_byte b ([], s) = (g, t)" by force
  have "feed_byte b (fs, s) = (fs @ g, t)" using feed_byte_frames [of b fs "[]" s] gt by simp
  then show ?case using gt Cons.IH [of "fs @ g" t] Cons.IH [of g t] by simp
qed

text \<open>Plain bytes inside a frame are collected while the length limit allows.\<close>

lemma feed_collect:
  assumes "FEND \<notin> set d" and "s_inFrame s"
    and "s_MaxLen s > 0 \<Longrightarrow> int (length (s_buf s) + length d) \<le> s_MaxLen s + 1"
  shows "fold feed_byte d (fs, s) = (fs, s\<lparr>s_buf := s_buf s @ d\<rparr>)"
  using assms
proof (induction d arbitrary: s)
  case Nil
  then show ?case by simp
next
  case (Cons b d)
  then have "feed_byte b (fs, s) = (fs, s\<lparr>s_buf := s_buf s @ [b]\<rparr>)"
    by (auto simp: feed_byte_def)
  moreover have "fold feed_byte d (fs, s\<lparr>s_buf := s_buf s @ [b]\<rparr>)
      = (fs, s\<lparr>s_buf := (s_buf s @ [b]) @ d\<rparr>)"
    using Cons.prems by (subst Cons.IH) auto
  ultimately show ?case by simp
qed

lemma feed_Encode:
  assumes "cmd \<noteq> FEND"
    and "s_MaxLen s > 0 \<Longrightarrow> int (length (Escape p)) \<le> s_MaxLen s"
    and "s_inFrame s \<Longrightarrow> s_buf s = []"
  shows "fold feed_byte (Encode cmd p) (fs, s)
       = (fs @ [\<lparr>f_Cmd = cmd, f_Payload = p\<rparr>], s\<lparr>s_buf := [], s_inFrame := True\<rparr>)"
proof -
  let ?s = "s\<lparr>s_buf := [], s_inFrame := True\<rparr>"
  have 1: "feed_byte FEND (fs, s) = (fs, ?s)" using assms(3) by (simp add: feed_byte_def)
  have 2: "fold feed_byte (cmd # Escape p) (fs, ?s) = (fs, ?s\<lparr>s_buf := cmd # Escape p\<rparr>)"
    using assms(1,2) Escape_FEND_free [of p] by (subst feed_collect) auto
  have 3: "feed_byte FEND (fs, ?s\<lparr>s_buf := cmd # Escape p\<rparr>)
      = (fs @ [\<lparr>f_Cmd = cmd, f_Payload = p\<rparr>], ?s)"
    by (simp add: feed_byte_def kiss.unesc_esc)
  have "fold feed_byte (Encode cmd p) (fs, s)
      = feed_byte FEND (fold feed_byte (cmd # Escape p) (feed_byte FEND (fs, s)))"
    by (simp add: Encode_def)
  then show ?thesis by (simp only: 1 2 3)
qed

definition frame_fits :: "int \<Rightarrow> Frame \<Rightarrow> bool" where
  "frame_fits m f \<longleftrightarrow> f_Cmd f \<noteq> FEND \<and> (m > 0 \<longrightarrow> int (length (Escape (f_Payload f))) \<le> m)"

definition encode_frames :: "Frame list \<Rightarrow> bytes" where
  "encode_frames fs = concat (map (\<lambda>f. Encode (f_Cmd f) (f_Payload f)) fs)"

lemma feed_encode_frames:
  assumes "\<forall>f \<in> set fs. frame_fits (s_MaxLen s) f" and "s_inFrame s \<Longrightarrow> s_buf s = []"
  shows "fst (fold feed_byte (encode_frames fs) (gs, s)) = gs @ fs"
  using assms
proof (induction fs arbitrary: gs s)
  case Nil
  then show ?case by (simp add: encode_frames_def)
next
  case (Cons f fs)
  have "fold feed_byte (Encode (f_Cmd f) (f_Payload f)) (gs, s)
      = (gs @ [f], s\<lparr>s_buf := [], s_inFrame := True\<rparr>)"
    using Cons.prems by (subst feed_Encode) (auto simp: frame_fits_def)
  with Cons show ?case by (simp add: encode_frames_def)
qed

text \<open>A transport hands the stream over in chunks, each at its own time.\<close>

fun feed_all :: "Splitter \<Rightarrow> (bytes \<times> instant) list \<Rightarrow> Frame list \<times> Splitter" where
  "feed_all s [] = ([], s)"
| "feed_all s ((d, now) # cs) =
     (let (f1, s1) = Feed s d now; (f2, s2) = feed_all s1 cs in (f1 @ f2, s2))"

lemma feed_byte_keeps [simp]:
  "s_MaxLen (snd (feed_byte b st)) = s_MaxLen (snd st)"
  "s_Timeout (snd (feed_byte b st)) = s_Timeout (snd st)"
  by (cases st; simp add: feed_byte_def Let_def)+

lemma fold_feed_keeps [simp]:
  "s_MaxLen (snd (fold feed_byte d st)) = s_MaxLen (snd st)"
  "s_Timeout (snd (fold feed_byte d st)) = s_Timeout (snd st)"
  by (induction d arbitrary: st) auto

lemma feed_byte_lastByte:
  "feed_byte b (fs, s\<lparr>s_lastByte := t\<rparr>)
   = (fst (feed_byte b (fs, s)), (snd (feed_byte b (fs, s)))\<lparr>s_lastByte := t\<rparr>)"
  by (auto simp: feed_byte_def)

lemma fold_feed_lastByte:
  "fold feed_byte d (fs, s\<lparr>s_lastByte := t\<rparr>)
   = (fst (fold feed_byte d (fs, s)), (snd (fold feed_byte d (fs, s)))\<lparr>s_lastByte := t\<rparr>)"
proof (induction d arbitrary: fs s)
  case Nil
  then show ?case by simp
next
  case (Cons b d)
  obtain g u where "feed_byte b (fs, s) = (g, u)" by force
  then show ?case using Cons.IH by (simp add: feed_byte_lastByte)
qed

lemma Feed_no_timeout:
  assumes "s_Timeout s = 0"
  shows "fst (Feed s d now) = fst (fold feed_byte d ([], s))"
    and "snd (Feed s d now)
       = (snd (fold feed_byte d ([], s)))\<lparr>s_lastByte := s_lastByte (snd (Feed s d now))\<rparr>"
  using assms by (auto simp: Feed_def fold_feed_lastByte)

lemma feed_all_no_timeout:
  assumes "s_Timeout s = 0"
  shows "fst (feed_all s cs) = fst (fold feed_byte (concat (map fst cs)) ([], s))"
  using assms
proof (induction cs arbitrary: s)
  case Nil
  then show ?case by simp
next
  case (Cons c cs)
  obtain d now where c: "c = (d, now)" by force
  obtain f1 s1 where F: "Feed s d now = (f1, s1)" by force
  obtain g1 t1 where G: "fold feed_byte d ([], s) = (g1, t1)" by force
  from Feed_no_timeout [OF Cons.prems, of d now] F G
  have f: "f1 = g1" and s: "s1 = t1\<lparr>s_lastByte := s_lastByte s1\<rparr>" by auto
  have t0: "s_Timeout t1 = 0" using Cons.prems fold_feed_keeps(2) [of d "([], s)"] G by simp
  have "s_Timeout s1 = 0" by (subst s) (simp add: t0)
  then have "fst (feed_all s1 cs) = fst (fold feed_byte (concat (map fst cs)) ([], s1))"
    by (rule Cons.IH)
  also have "\<dots> = fst (fold feed_byte (concat (map fst cs)) ([], t1))"
    by (subst s) (simp add: fold_feed_lastByte)
  finally have "fst (feed_all s (c # cs)) = g1 @ fst (fold feed_byte (concat (map fst cs)) ([], t1))"
    using c F f by (cases "feed_all s1 cs") simp
  then show ?case using c G fold_feed_frames [of "concat (map fst cs)" g1 t1] by simp
qed



text \<open>The buffer bound behind MaxLen: one byte more than the configured limit.\<close>

definition splitter_bounded :: "Splitter \<Rightarrow> bool" where
  "splitter_bounded s \<longleftrightarrow> (s_MaxLen s > 0 \<longrightarrow> int (length (s_buf s)) \<le> s_MaxLen s + 1)"

lemma feed_byte_bounded: "splitter_bounded s \<Longrightarrow> splitter_bounded (snd (feed_byte b (fs, s)))"
  by (auto simp: splitter_bounded_def feed_byte_def)

lemma fold_feed_bounded: "splitter_bounded s \<Longrightarrow> splitter_bounded (snd (fold feed_byte d (fs, s)))"
proof (induction d arbitrary: fs s)
  case Nil
  then show ?case by simp
next
  case (Cons b d)
  obtain g t where gt: "feed_byte b (fs, s) = (g, t)" by force
  with Cons.prems feed_byte_bounded have "splitter_bounded t" by (metis snd_conv)
  with gt Cons.IH show ?case by simp
qed



subsection \<open>HDLC (hdlc.go)\<close>

definition HDLCFlag :: byte where "HDLCFlag = 0x7E"
definition HDLCEsc :: byte where "HDLCEsc = 0x7D"
definition HDLCEscMask :: byte where "HDLCEscMask = 0x20"

lemmas hdlc_bytes = HDLCFlag_def HDLCEsc_def HDLCEscMask_def

text \<open>The smallest packet a reader delivers (\<open>HeaderMinSize\<close> of constants.go) and the
  reader's bound.\<close>

definition HDLCMinFrame :: nat where "HDLCMinFrame = 19"
definition HDLCMaxBuffered :: nat where "HDLCMaxBuffered = 2 * 262144 + 2"

fun HDLCEscape :: "bytes \<Rightarrow> bytes" where
  "HDLCEscape [] = []"
| "HDLCEscape (b # data) =
     (if b = HDLCEsc then [HDLCEsc, HDLCEsc XOR HDLCEscMask]
      else if b = HDLCFlag then [HDLCEsc, HDLCFlag XOR HDLCEscMask]
      else [b]) @ HDLCEscape data"

fun HDLCUnescape :: "bytes \<Rightarrow> bytes" where
  "HDLCUnescape [] = []"
| "HDLCUnescape [b] = [b]"
| "HDLCUnescape (b # c # data) =
     (if b = HDLCEsc then (c XOR HDLCEscMask) # HDLCUnescape data
      else b # HDLCUnescape (c # data))"

definition HDLCFrame :: "bytes \<Rightarrow> bytes" where
  "HDLCFrame data = HDLCFlag # HDLCEscape data @ [HDLCFlag]"

record HDLCFrameReader =
  r_buf :: bytes

text \<open>
  The extraction loop of \<open>Feed\<close>. \<open>start\<close> is the first flag, \<open>end\<close> the next one; the
  end flag is kept, since it may open the next frame, so the buffer shrinks every turn.
\<close>

function hdlc_loop :: "bytes \<Rightarrow> bytes list \<times> bytes" where
  "hdlc_loop buf =
     (case index_of HDLCFlag buf of
        None \<Rightarrow> ([], [])
      | Some start \<Rightarrow>
          (case index_of HDLCFlag (drop (Suc start) buf) of
             None \<Rightarrow>
               (let rest = drop start buf
                in ([], if length rest > HDLCMaxBuffered then [] else rest))
           | Some off \<Rightarrow>
               (let escaped = take off (drop (Suc start) buf);
                    (frames, rest) = hdlc_loop (drop (Suc start + off) buf)
                in (if length escaped \<ge> HDLCMinFrame then HDLCUnescape escaped # frames
                    else frames, rest))))"
  by pat_completeness auto
termination
  by (relation "measure length") (auto simp: index_of_Some)

declare hdlc_loop.simps [simp del]

definition hdlc_Feed :: "HDLCFrameReader \<Rightarrow> bytes \<Rightarrow> bytes list \<times> HDLCFrameReader" where
  "hdlc_Feed r data =
     (let (frames, rest) = hdlc_loop (r_buf r @ data) in (frames, r\<lparr>r_buf := rest\<rparr>))"

lemma HDLCEscape_flag_free: "HDLCFlag \<notin> set (HDLCEscape xs)"
  by (induction xs) (auto simp: hdlc_bytes)

lemma HDLCUnescape_plain: "b \<noteq> HDLCEsc \<Longrightarrow> HDLCUnescape (b # xs) = b # HDLCUnescape xs"
  by (cases xs) simp_all

lemma HDLCUnescape_HDLCEscape: "HDLCUnescape (HDLCEscape xs) = xs"
  by (induction xs) (auto simp: HDLCUnescape_plain xor.assoc)

interpretation hdlc: byte_stuffing HDLCFlag HDLCEscape HDLCUnescape
  by unfold_locales (rule HDLCUnescape_HDLCEscape, rule HDLCEscape_flag_free)

lemma length_HDLCEscape_ge: "length xs \<le> length (HDLCEscape xs)"
  by (induction xs) auto

subsubsection \<open>The frame reader\<close>

text \<open>The three exits of the loop, in terms of the shape of the buffer.\<close>

lemma hdlc_loop_noflag: "HDLCFlag \<notin> set b \<Longrightarrow> hdlc_loop b = ([], [])"
  by (subst hdlc_loop.simps) (simp add: index_of_None [THEN iffD2])

lemma hdlc_loop_open:
  assumes "HDLCFlag \<notin> set a" and "HDLCFlag \<notin> set b" and "length b < HDLCMaxBuffered"
  shows "hdlc_loop (a @ HDLCFlag # b) = ([], HDLCFlag # b)"
  using assms by (subst hdlc_loop.simps) (simp add: index_of_None [THEN iffD2])

definition deliver_frame :: "bytes \<Rightarrow> bytes list" where
  "deliver_frame e = (if length e \<ge> HDLCMinFrame then [HDLCUnescape e] else [])"

lemma hdlc_loop_closed:
  assumes "HDLCFlag \<notin> set a" and "HDLCFlag \<notin> set e"
  shows "hdlc_loop (a @ HDLCFlag # e @ HDLCFlag # rest)
       = (deliver_frame e @ fst (hdlc_loop (HDLCFlag # rest)), snd (hdlc_loop (HDLCFlag # rest)))"
  using assms
  by (subst hdlc_loop.simps) (simp add: deliver_frame_def split: prod.splits)

text \<open>Every buffer has one of those three shapes.\<close>

lemma buffer_shapes:
  obtains (noflag) "HDLCFlag \<notin> set b"
  | (open_frame) a c where "b = a @ HDLCFlag # c" "HDLCFlag \<notin> set a" "HDLCFlag \<notin> set c"
  | (closed) a e rest where "b = a @ HDLCFlag # e @ HDLCFlag # rest" "HDLCFlag \<notin> set a" "HDLCFlag \<notin> set e"
  by (metis split_list_first)

text \<open>
  A stream never trips the bound when every stretch between two flags is shorter than it.
\<close>

definition gaps_ok :: "bytes \<Rightarrow> bool" where
  "gaps_ok b \<longleftrightarrow> (\<forall>e. sublist e b \<longrightarrow> HDLCFlag \<notin> set e \<longrightarrow> length e < HDLCMaxBuffered)"

lemma sublistI: "b = x @ e @ y \<Longrightarrow> sublist e b"
  by (auto simp: sublist_def)

lemma gaps_okD: "gaps_ok b \<Longrightarrow> sublist e b \<Longrightarrow> HDLCFlag \<notin> set e \<Longrightarrow> length e < HDLCMaxBuffered"
  by (simp add: gaps_ok_def)

lemma gaps_ok_sublist: "gaps_ok b \<Longrightarrow> sublist c b \<Longrightarrow> gaps_ok c"
  unfolding gaps_ok_def by (meson sublist_order.order.trans)

lemma gaps_ok_plain: "length e < HDLCMaxBuffered \<Longrightarrow> gaps_ok e"
  unfolding gaps_ok_def using sublist_length_le by fastforce

lemma gaps_ok_flag:
  assumes "gaps_ok x" and "gaps_ok y"
  shows "gaps_ok (x @ HDLCFlag # y)"
  unfolding gaps_ok_def
proof (intro allI impI)
  fix e assume e: "sublist e (x @ HDLCFlag # y)" and free: "HDLCFlag \<notin> set e"
  from e consider "sublist e x" | "sublist e (HDLCFlag # y)"
    | e1 e2 where "e = e1 @ e2" "suffix e1 x" "prefix e2 (HDLCFlag # y)"
    unfolding sublist_append by blast
  then have "sublist e x \<or> sublist e y"
    using free by cases (auto simp: sublist_Cons_right prefix_Cons suffix_imp_sublist)
  with free assms show "length e < HDLCMaxBuffered" using gaps_okD by blast
qed

lemma gaps_ok_frames:
  assumes "\<forall>p \<in> set ps. length (HDLCEscape p) < HDLCMaxBuffered"
  shows "gaps_ok (concat (map HDLCFrame ps))"
  using assms
proof (induction ps)
  case Nil
  show ?case by (simp add: gaps_ok_plain HDLCMaxBuffered_def)
next
  case (Cons p ps)
  then have "gaps_ok (HDLCEscape p @ HDLCFlag # concat (map HDLCFrame ps))"
    using gaps_ok_flag gaps_ok_plain by auto
  then have "gaps_ok ([] @ HDLCFlag # HDLCEscape p @ HDLCFlag # concat (map HDLCFrame ps))"
    using gaps_ok_flag [OF gaps_ok_plain [of "[]"]] by (simp add: HDLCMaxBuffered_def)
  then show ?case by (simp add: HDLCFrame_def [of p])
qed

lemma hdlc_loop_append:
  assumes "gaps_ok (b @ d)"
  shows "hdlc_loop (b @ d) =
    (fst (hdlc_loop b) @ fst (hdlc_loop (snd (hdlc_loop b) @ d)), snd (hdlc_loop (snd (hdlc_loop b) @ d)))"
  using assms
proof (induction b rule: length_induct)
  case (1 b)
  show ?case
  proof (cases b rule: buffer_shapes)
    case noflag
    have "hdlc_loop (b @ d) = hdlc_loop d"
    proof (cases d rule: buffer_shapes)
      case noflag
      with \<open>HDLCFlag \<notin> set b\<close> show ?thesis by (simp add: hdlc_loop_noflag)
    next
      case (open_frame a c)
      have "length c < HDLCMaxBuffered"
        using gaps_okD [OF "1.prems" sublistI [of _ "b @ a @ [HDLCFlag]" c "[]"]] open_frame by simp
      with open_frame \<open>HDLCFlag \<notin> set b\<close> show ?thesis
        using hdlc_loop_open [of "b @ a" c] hdlc_loop_open [of a c] by simp
    next
      case (closed a e rest)
      with \<open>HDLCFlag \<notin> set b\<close> show ?thesis
        using hdlc_loop_closed [of "b @ a" e rest] hdlc_loop_closed [of a e rest] by simp
    qed
    with noflag show ?thesis by (simp add: hdlc_loop_noflag)
  next
    case (open_frame a c)
    have len: "length c < HDLCMaxBuffered"
      using gaps_okD [OF "1.prems" sublistI [of _ "a @ [HDLCFlag]" c d]] open_frame by simp
    have "hdlc_loop (b @ d) = hdlc_loop (HDLCFlag # c @ d)"
    proof (cases d rule: buffer_shapes)
      case noflag
      have "sublist (c @ d) (b @ d)"
        unfolding sublist_def by (rule exI [of _ "a @ [HDLCFlag]"]) (simp add: open_frame)
      from gaps_okD [OF "1.prems" this] noflag open_frame have "length (c @ d) < HDLCMaxBuffered"
        by simp
      with noflag open_frame show ?thesis
        using hdlc_loop_open [of a "c @ d"] hdlc_loop_open [of "[]" "c @ d"] by simp
    next
      case (open_frame a' c')
      with \<open>b = a @ HDLCFlag # c\<close> \<open>HDLCFlag \<notin> set a\<close> \<open>HDLCFlag \<notin> set c\<close> show ?thesis
        using hdlc_loop_closed [of a "c @ a'" c'] hdlc_loop_closed [of "[]" "c @ a'" c'] by simp
    next
      case (closed a' e rest)
      with open_frame show ?thesis
        using hdlc_loop_closed [of a "c @ a'" "e @ HDLCFlag # rest"]
          hdlc_loop_closed [of "[]" "c @ a'" "e @ HDLCFlag # rest"] by simp
    qed
    with open_frame len show ?thesis by (simp add: hdlc_loop_open)
  next
    case (closed a e rest)
    then have "length (HDLCFlag # rest) < length b" by simp
    moreover have "gaps_ok ((HDLCFlag # rest) @ d)"
      by (rule gaps_ok_sublist [OF "1.prems" sublistI [of _ "a @ HDLCFlag # e" _ "[]"]])
        (simp add: closed)
    ultimately have IH: "hdlc_loop ((HDLCFlag # rest) @ d) =
        (fst (hdlc_loop (HDLCFlag # rest)) @ fst (hdlc_loop (snd (hdlc_loop (HDLCFlag # rest)) @ d)),
         snd (hdlc_loop (snd (hdlc_loop (HDLCFlag # rest)) @ d)))"
      using "1.IH" by blast
    with closed show ?thesis
      using hdlc_loop_closed [of a e "rest @ d"] hdlc_loop_closed [of a e rest] by simp
  qed
qed

lemma hdlc_loop_stream:
  "hdlc_loop (HDLCFlag # concat (map HDLCFrame ps)) =
     (concat (map (\<lambda>p. deliver_frame (HDLCEscape p)) ps), [HDLCFlag])"
proof (induction ps)
  case Nil
  show ?case using hdlc_loop_open [of "[]" "[]"] by (simp add: HDLCMaxBuffered_def)
next
  case (Cons p ps)
  have "hdlc_loop (HDLCFlag # concat (map HDLCFrame (p # ps)))
      = (fst (hdlc_loop (HDLCFlag # HDLCEscape p @ HDLCFlag # concat (map HDLCFrame ps))),
         snd (hdlc_loop (HDLCFlag # HDLCEscape p @ HDLCFlag # concat (map HDLCFrame ps))))"
    using hdlc_loop_closed [of "[]" "[]" "HDLCEscape p @ HDLCFlag # concat (map HDLCFrame ps)"]
    by (simp add: HDLCFrame_def deliver_frame_def HDLCMinFrame_def)
  then show ?case
    using hdlc_loop_closed [of "[]" "HDLCEscape p" "concat (map HDLCFrame ps)"] Cons
    by (simp add: HDLCEscape_flag_free)
qed

lemma hdlc_loop_frames:
  "fst (hdlc_loop (concat (map HDLCFrame ps))) = concat (map (\<lambda>p. deliver_frame (HDLCEscape p)) ps)"
proof (cases ps)
  case Nil
  then show ?thesis by (simp add: hdlc_loop_noflag)
next
  case (Cons p qs)
  have "hdlc_loop (HDLCFlag # HDLCFlag # HDLCEscape p @ HDLCFlag # concat (map HDLCFrame qs))
      = hdlc_loop (HDLCFlag # HDLCEscape p @ HDLCFlag # concat (map HDLCFrame qs))"
    using hdlc_loop_closed [of "[]" "[]" "HDLCEscape p @ HDLCFlag # concat (map HDLCFrame qs)"]
    by (simp add: deliver_frame_def HDLCMinFrame_def)
  then show ?thesis using hdlc_loop_stream [of ps] Cons by (simp add: HDLCFrame_def)
qed

text \<open>What is left in the buffer is a suffix of it that yields nothing on its own.\<close>

lemma hdlc_loop_rest:
  "gaps_ok b \<Longrightarrow> hdlc_loop (snd (hdlc_loop b)) = ([], snd (hdlc_loop b)) \<and> suffix (snd (hdlc_loop b)) b"
proof (induction b rule: length_induct)
  case (1 b)
  show ?case
  proof (cases b rule: buffer_shapes)
    case noflag
    then show ?thesis by (simp add: hdlc_loop_noflag)
  next
    case (open_frame a c)
    then have "length c < HDLCMaxBuffered"
      using gaps_okD [OF "1.prems" sublistI [of _ "a @ [HDLCFlag]" c "[]"]] by simp
    with open_frame show ?thesis
      using hdlc_loop_open [of "[]" c] by (simp add: hdlc_loop_open suffix_def)
  next
    case (closed a e rest)
    have "gaps_ok (HDLCFlag # rest)"
      by (rule gaps_ok_sublist [OF "1.prems" sublistI [of _ "a @ HDLCFlag # e" _ "[]"]])
        (simp add: closed)
    moreover have "length (HDLCFlag # rest) < length b" using closed by simp
    ultimately have "hdlc_loop (snd (hdlc_loop (HDLCFlag # rest))) = ([], snd (hdlc_loop (HDLCFlag # rest)))
        \<and> suffix (snd (hdlc_loop (HDLCFlag # rest))) (HDLCFlag # rest)"
      using "1.IH" by blast
    moreover have "suffix (HDLCFlag # rest) b" by (auto simp: closed suffix_def)
    ultimately show ?thesis using closed by (auto simp: hdlc_loop_closed intro: suffix_order.trans)
  qed
qed

fun hdlc_feed_all :: "HDLCFrameReader \<Rightarrow> bytes list \<Rightarrow> bytes list \<times> HDLCFrameReader" where
  "hdlc_feed_all r [] = ([], r)"
| "hdlc_feed_all r (d # ds) =
     (let (f1, r1) = hdlc_Feed r d; (f2, r2) = hdlc_feed_all r1 ds in (f1 @ f2, r2))"

lemma hdlc_feed_all_loop:
  assumes "gaps_ok (r_buf r @ concat ds)" and "snd (hdlc_loop (r_buf r)) = r_buf r"
    and "fst (hdlc_loop (r_buf r)) = []"
  shows "fst (hdlc_feed_all r ds) = fst (hdlc_loop (r_buf r @ concat ds))"
  using assms
proof (induction ds arbitrary: r)
  case Nil
  then show ?case by simp
next
  case (Cons d ds)
  let ?b = "r_buf r @ d" and ?r1 = "r\<lparr>r_buf := snd (hdlc_loop (r_buf r @ d))\<rparr>"
  have F: "hdlc_Feed r d = (fst (hdlc_loop ?b), ?r1)"
    by (simp add: hdlc_Feed_def split: prod.splits)
  have app: "hdlc_loop (?b @ concat ds) = (fst (hdlc_loop ?b) @ fst (hdlc_loop (r_buf ?r1 @ concat ds)),
      snd (hdlc_loop (r_buf ?r1 @ concat ds)))"
    using hdlc_loop_append [of ?b "concat ds"] Cons.prems(1) by simp
  have "gaps_ok ?b"
    by (rule gaps_ok_sublist [OF Cons.prems(1) sublistI [of _ "[]" _ "concat ds"]]) simp
  from hdlc_loop_rest [OF this] have rest: "hdlc_loop (r_buf ?r1) = ([], r_buf ?r1)"
    and sub: "suffix (r_buf ?r1) ?b" by auto
  from sub obtain z where "?b = z @ r_buf ?r1" by (auto simp: suffix_def)
  then have "sublist (r_buf ?r1 @ concat ds) (r_buf r @ concat (d # ds))"
    by (intro sublistI [of _ z _ "[]"]) (metis append.assoc append_Nil2 concat.simps(2))
  then have "fst (hdlc_feed_all ?r1 ds) = fst (hdlc_loop (r_buf ?r1 @ concat ds))"
    using rest gaps_ok_sublist [OF Cons.prems(1)] by (intro Cons.IH) auto
  with F app show ?case by (cases "hdlc_feed_all ?r1 ds") simp
qed



lemma hdlc_loop_bounded: "length (snd (hdlc_loop b)) \<le> HDLCMaxBuffered"
proof (induction b rule: hdlc_loop.induct)
  case (1 buf)
  show ?case
  proof (cases "index_of HDLCFlag buf")
    case None
    then show ?thesis by (simp add: hdlc_loop_noflag)
  next
    case (Some start)
    show ?thesis
    proof (cases "index_of HDLCFlag (drop (Suc start) buf)")
      case None
      with Some show ?thesis by (subst hdlc_loop.simps) (simp add: Let_def del: index_of_None)
    next
      case (Some off)
      with \<open>index_of HDLCFlag buf = Some start\<close> "1.IH" [OF \<open>index_of HDLCFlag buf = Some start\<close> Some]
      show ?thesis by (subst hdlc_loop.simps) (auto split: prod.splits)
    qed
  qed
qed

text \<open>
  C15. A peer that opens a frame and never closes it cannot grow the reader without bound:
  after every Feed, from any state and for any input, the buffer holds at most
  HDLCMaxBuffered bytes.
\<close>

theorem hdlc_buffer_bounded: "length (r_buf (snd (hdlc_Feed r data))) \<le> HDLCMaxBuffered"
  using hdlc_loop_bounded by (simp add: hdlc_Feed_def split: prod.splits) (metis snd_conv)

end
