(* ===== verification/Packet.thy ===== *)
theory Packet
  imports Prelude
begin

unbundle bit_operations_syntax

section \<open>Reticulum packets, packet hashes and transport rewriting\<close>

text \<open>
  \<open>internal/reticulum/packet.go\<close> (header and flags byte, marshal, unmarshal, hop count),
  \<open>packethash.go\<close> (hashable part, packet hash, HEADER_1/HEADER_2 rewriting) and \<open>path.go\<close>
  (path requests and responses and the packets that carry them). SHA-256 is the argument
  \<open>sha256\<close> of the definitions that hash. The marshal/unmarshal pairs interpret the codec
  contracts of the prelude.
\<close>

subsection \<open>Constants (constants.go)\<close>

definition HeaderMinSize :: nat where "HeaderMinSize = 19"
definition HeaderMaxSize :: nat where "HeaderMaxSize = 35"
definition TruncatedHashLen :: nat where "TruncatedHashLen = 16"
definition FullHashLen :: nat where "FullHashLen = 32"
definition PathfinderM :: nat where "PathfinderM = 128"

lemmas rns_sizes = HeaderMinSize_def HeaderMaxSize_def TruncatedHashLen_def FullHashLen_def
  PathfinderM_def

definition PacketData :: byte where "PacketData = 0"
definition PacketAnnounce :: byte where "PacketAnnounce = 1"
definition PacketLinkRequest :: byte where "PacketLinkRequest = 2"
definition PacketProof :: byte where "PacketProof = 3"
definition DestSingle :: byte where "DestSingle = 0"
definition DestGroup :: byte where "DestGroup = 1"
definition DestPlain :: byte where "DestPlain = 2"
definition DestLink :: byte where "DestLink = 3"
definition HeaderType1 :: byte where "HeaderType1 = 0"
definition HeaderType2 :: byte where "HeaderType2 = 1"
definition TransportTransport :: byte where "TransportTransport = 1"
definition ContextRequest :: byte where "ContextRequest = 0x09"
definition ContextPathResponse :: byte where "ContextPathResponse = 0x0B"

lemmas rns_codes = PacketData_def PacketAnnounce_def PacketLinkRequest_def PacketProof_def
  DestSingle_def DestGroup_def DestPlain_def DestLink_def HeaderType1_def HeaderType2_def
  TransportTransport_def ContextRequest_def ContextPathResponse_def

datatype packet_error =
  ErrTooShort | ErrMaxHops | ErrEmptyData | ErrPathRequestTooShort | ErrPathResponseTooShort

subsection \<open>Header (packet.go)\<close>

record Header =
  h_HeaderType :: byte
  h_ContextFlag :: byte
  h_TransportType :: byte
  h_DestType :: byte
  h_PacketType :: byte
  h_Hops :: byte
  h_TransportID :: bytes
  h_DestHash :: bytes
  h_Context :: byte
  h_Data :: bytes

definition zero_hash :: bytes where
  "zero_hash = replicate TruncatedHashLen 0"

definition PackFlags :: "Header \<Rightarrow> byte" where
  "PackFlags h = push_bit 6 (h_HeaderType h) OR push_bit 5 (h_ContextFlag h)
     OR push_bit 4 (h_TransportType h) OR push_bit 2 (h_DestType h) OR h_PacketType h"

definition UnpackFlags :: "Header \<Rightarrow> byte \<Rightarrow> Header" where
  "UnpackFlags h flags = h\<lparr>
     h_HeaderType := drop_bit 6 (flags AND 0x40),
     h_ContextFlag := drop_bit 5 (flags AND 0x20),
     h_TransportType := drop_bit 4 (flags AND 0x10),
     h_DestType := drop_bit 2 (flags AND 0x0C),
     h_PacketType := flags AND 0x03\<rparr>"

definition HeaderSize :: "Header \<Rightarrow> nat" where
  "HeaderSize h = (if h_HeaderType h = HeaderType2 then HeaderMaxSize else HeaderMinSize)"

definition MarshalHeader :: "Header \<Rightarrow> bytes" where
  "MarshalHeader h =
     [PackFlags h, h_Hops h]
     @ (if h_HeaderType h = HeaderType2 then h_TransportID h else [])
     @ h_DestHash h @ [h_Context h] @ h_Data h"

definition empty_header :: Header where
  "empty_header = \<lparr>h_HeaderType = 0, h_ContextFlag = 0, h_TransportType = 0, h_DestType = 0,
     h_PacketType = 0, h_Hops = 0, h_TransportID = zero_hash, h_DestHash = zero_hash,
     h_Context = 0, h_Data = []\<rparr>"

definition UnmarshalHeader :: "bytes \<Rightarrow> packet_error + Header" where
  "UnmarshalHeader data =
     (if length data < HeaderMinSize then Inl ErrTooShort
      else
        let h = (UnpackFlags empty_header (data ! 0))\<lparr>h_Hops := data ! 1\<rparr> in
        if unat (h_Hops h) \<ge> PathfinderM then Inl ErrMaxHops
        else if h_HeaderType h = HeaderType2 \<and> length data < HeaderMaxSize then Inl ErrTooShort
        else
          let pos = 2;
              (h, pos) = (if h_HeaderType h = HeaderType2
                 then (h\<lparr>h_TransportID := slice pos (pos + TruncatedHashLen) data\<rparr>,
                       pos + TruncatedHashLen)
                 else (h, pos));
              h = h\<lparr>h_DestHash := slice pos (pos + TruncatedHashLen) data\<rparr>;
              pos = pos + TruncatedHashLen;
              h = h\<lparr>h_Context := data ! pos\<rparr>;
              pos = pos + 1
          in if pos < length data then Inr (h\<lparr>h_Data := drop pos data\<rparr>) else Inl ErrEmptyData)"

definition IncrementHop :: "Header \<Rightarrow> bool \<times> Header" where
  "IncrementHop h = (if unat (h_Hops h) \<ge> PathfinderM then (False, h)
     else (True, h\<lparr>h_Hops := h_Hops h + 1\<rparr>))"

text \<open>A header the code can build: fields within their bit widths, whole addresses, data.\<close>

definition header_ok :: "Header \<Rightarrow> bool" where
  "header_ok h \<longleftrightarrow> h_HeaderType h < 2 \<and> h_ContextFlag h < 2 \<and> h_TransportType h < 2
     \<and> h_DestType h < 4 \<and> h_PacketType h < 4 \<and> unat (h_Hops h) < PathfinderM
     \<and> length (h_TransportID h) = TruncatedHashLen \<and> length (h_DestHash h) = TruncatedHashLen
     \<and> (h_HeaderType h = 0 \<longrightarrow> h_TransportID h = zero_hash) \<and> h_Data h \<noteq> []"

subsubsection \<open>The flags byte\<close>

lemma unpack_pack:
  assumes "h_HeaderType h < 2" "h_ContextFlag h < 2" "h_TransportType h < 2"
    "h_DestType h < 4" "h_PacketType h < 4"
  shows "UnpackFlags g (PackFlags h) = g\<lparr>h_HeaderType := h_HeaderType h,
     h_ContextFlag := h_ContextFlag h, h_TransportType := h_TransportType h,
     h_DestType := h_DestType h, h_PacketType := h_PacketType h\<rparr>"
proof -
  note bits = lt2_bit [OF assms(1)] lt2_bit [OF assms(2)] lt2_bit [OF assms(3)]
    lt4_bit [OF assms(4)] lt4_bit [OF assms(5)]
  have "drop_bit 6 (PackFlags h AND 0x40) = h_HeaderType h"
    "drop_bit 5 (PackFlags h AND 0x20) = h_ContextFlag h"
    "drop_bit 4 (PackFlags h AND 0x10) = h_TransportType h"
    "drop_bit 2 (PackFlags h AND 0x0C) = h_DestType h"
    "PackFlags h AND 0x03 = h_PacketType h"
    unfolding PackFlags_def
    by (intro bit_word_eqI; auto simp: bit_drop_bit_eq bit_and_iff bit_or_iff bit_push_bit_iff dest: bits)+
  then show ?thesis by (simp add: UnpackFlags_def)
qed

lemma pack_unpack:
  assumes "\<not> bit flags 7"
  shows "PackFlags (UnpackFlags g flags) = flags"
proof (rule bit_word_eqI)
  fix n assume "n < LENGTH(8)"
  then have n: "n < 8" by simp
  have field: "bit (push_bit k (drop_bit k (flags AND m))) n \<longleftrightarrow> k \<le> n \<and> bit flags n \<and> bit m n"
    for k m using n by (auto simp: bit_push_bit_iff bit_drop_bit_eq bit_and_iff)
  have "PackFlags (UnpackFlags g flags) = push_bit 6 (drop_bit 6 (flags AND 0x40))
      OR push_bit 5 (drop_bit 5 (flags AND 0x20)) OR push_bit 4 (drop_bit 4 (flags AND 0x10))
      OR push_bit 2 (drop_bit 2 (flags AND 0x0C)) OR flags AND 0x03"
    by (simp add: PackFlags_def UnpackFlags_def)
  then have "bit (PackFlags (UnpackFlags g flags)) n \<longleftrightarrow>
      bit flags n \<and> (n = 6 \<or> n = 5 \<or> n = 4 \<or> n = 2 \<or> n = 3 \<or> n < 2)"
    by (simp only: bit_or_iff field bit_and_iff) (auto simp: n)
  moreover have "n = 7 \<or> n = 6 \<or> n = 5 \<or> n = 4 \<or> n = 2 \<or> n = 3 \<or> n < 2" using n by arith
  ultimately show "bit (PackFlags (UnpackFlags g flags)) n \<longleftrightarrow> bit flags n" using assms by auto
qed

lemma pack_bit7: "header_ok h \<Longrightarrow> \<not> bit (PackFlags h) 7"
  unfolding header_ok_def PackFlags_def
  by (auto simp: bit_or_iff bit_push_bit_iff dest: lt2_bit lt4_bit)

lemma unpacked_fields:
  "h_PacketType (UnpackFlags g x) < 4" "h_DestType (UnpackFlags g x) < 4"
  "h_HeaderType (UnpackFlags g x) < 2" "h_ContextFlag (UnpackFlags g x) < 2"
  "h_TransportType (UnpackFlags g x) < 2"
  by (auto simp: UnpackFlags_def bit_drop_bit_eq bit_and_iff bit_1_iff intro!: bits_lt2 bits_lt4)

subsubsection \<open>Round trip and canonicity of the header codec\<close>

text \<open>The wire images the codec speaks about: bit 7 (IFAC) belongs to the interface layer.\<close>

definition clean_wire :: "bytes \<Rightarrow> bool" where
  "clean_wire bs \<longleftrightarrow> bs \<noteq> [] \<and> \<not> bit (hd bs) 7"

lemma bytes_split:
  assumes "length data = n + m"
  obtains a b where "data = a @ b" "length a = n" "length b = m"
  using assms by (metis append_take_drop_id length_take length_drop add_diff_cancel_left' min.absorb2 le_add1)

lemma UnmarshalHeader_type1:
  assumes "length d = 16" and "\<not> bit f 6" and "unat hp < 128"
  shows "UnmarshalHeader (f # hp # d @ c # rest) =
     (if rest = [] then Inl ErrEmptyData
      else Inr ((UnpackFlags empty_header f)\<lparr>h_Hops := hp, h_DestHash := d, h_Context := c, h_Data := rest\<rparr>))"
proof -
  have "drop_bit 6 (f AND 0x40) = 0"
    using assms(2) by (intro bit_word_eqI) (auto simp: bit_drop_bit_eq bit_and_iff bit_1_iff intro!: gr0I)
  with assms show ?thesis
    by (auto simp: UnmarshalHeader_def rns_sizes rns_codes UnpackFlags_def slice_def nth_append)
qed

lemma UnmarshalHeader_type2:
  assumes "length t = 16" and "length d = 16" and "bit f 6" and "unat hp < 128"
  shows "UnmarshalHeader (f # hp # t @ d @ c # rest) =
     (if rest = [] then Inl ErrEmptyData
      else Inr ((UnpackFlags empty_header f)\<lparr>h_Hops := hp, h_TransportID := t, h_DestHash := d,
        h_Context := c, h_Data := rest\<rparr>))"
proof -
  have "drop_bit 6 (f AND 0x40) = 1"
    using assms(3) by (intro bit_word_eqI) (auto simp: bit_drop_bit_eq bit_and_iff bit_1_iff)
  with assms show ?thesis
    by (auto simp: UnmarshalHeader_def rns_sizes rns_codes UnpackFlags_def slice_def nth_append)
qed

lemma pack_bit6:
  assumes "header_ok h"
  shows "bit (PackFlags h) 6 \<longleftrightarrow> h_HeaderType h = 1"
proof -
  have "\<not> bit (h_ContextFlag h) 1" "\<not> bit (h_TransportType h) 2" "\<not> bit (h_DestType h) 4"
    "\<not> bit (h_PacketType h) 6"
    using assms by (auto simp: header_ok_def dest: lt2_bit lt4_bit)
  moreover have "bit (h_HeaderType h) 0 \<longleftrightarrow> h_HeaderType h = 1"
    using assms lt2_cases [of "h_HeaderType h"] by (auto simp: header_ok_def bit_0)
  ultimately show ?thesis by (simp add: PackFlags_def bit_or_iff bit_push_bit_iff bit_0)
qed

lemma dec_enc_header:
  assumes "header_ok h"
  shows "UnmarshalHeader (MarshalHeader h) = Inr h"
proof -
  have h: "length (h_TransportID h) = 16" "length (h_DestHash h) = 16" "unat (h_Hops h) < 128"
      "h_HeaderType h < 2" "h_Data h \<noteq> []" "h_HeaderType h = 0 \<longrightarrow> h_TransportID h = zero_hash"
    using assms by (auto simp: header_ok_def rns_sizes)
  have flags: "UnpackFlags empty_header (PackFlags h) = empty_header\<lparr>h_HeaderType := h_HeaderType h,
     h_ContextFlag := h_ContextFlag h, h_TransportType := h_TransportType h,
     h_DestType := h_DestType h, h_PacketType := h_PacketType h\<rparr>"
    using assms by (intro unpack_pack) (auto simp: header_ok_def)
  from lt2_cases [OF h(4)] show ?thesis
  proof
    assume 0: "h_HeaderType h = 0"
    with h pack_bit6 [OF assms] show ?thesis
      by (simp add: MarshalHeader_def rns_codes UnmarshalHeader_type1 flags)
        (simp add: empty_header_def)
  next
    assume 1: "h_HeaderType h = 1"
    with h pack_bit6 [OF assms] show ?thesis
      by (simp add: MarshalHeader_def rns_codes UnmarshalHeader_type2 flags)
  qed
qed

lemma PackFlags_other_fields [simp]:
  "PackFlags (h\<lparr>h_Hops := a\<rparr>) = PackFlags h" "PackFlags (h\<lparr>h_TransportID := t\<rparr>) = PackFlags h"
  "PackFlags (h\<lparr>h_DestHash := t\<rparr>) = PackFlags h" "PackFlags (h\<lparr>h_Context := a\<rparr>) = PackFlags h"
  "PackFlags (h\<lparr>h_Data := t\<rparr>) = PackFlags h"
  by (simp_all add: PackFlags_def)

lemma unpacked_type: "h_HeaderType (UnpackFlags g f) = (if bit f 6 then 1 else 0)"
  by (auto simp: UnpackFlags_def bit_drop_bit_eq bit_and_iff bit_1_iff intro!: bit_word_eqI gr0I)

lemma accepted_lengths:
  assumes "UnmarshalHeader bs = Inr h"
  shows "(if bit (bs ! 0) 6 then 35 else 19) < length bs \<and> unat (bs ! 1) < 128"
proof -
  have 19: "\<not> length bs < 19" using assms by (auto simp: UnmarshalHeader_def rns_sizes)
  have hops: "\<not> 128 \<le> unat (bs ! 1)"
    using assms 19 by (auto simp: UnmarshalHeader_def rns_sizes Let_def)
  show ?thesis
  proof (cases "bit (bs ! 0) 6")
    case True
    with assms 19 hops have "\<not> length bs < 35"
      by (auto simp: UnmarshalHeader_def rns_sizes rns_codes Let_def unpacked_type)
    with assms 19 hops True show ?thesis
      by (simp add: UnmarshalHeader_def rns_sizes rns_codes Let_def unpacked_type split: if_splits)
  next
    case False
    with assms 19 hops show ?thesis
      by (simp add: UnmarshalHeader_def rns_sizes rns_codes Let_def unpacked_type split: if_splits)
  qed
qed

lemma accepted_shape:
  assumes "UnmarshalHeader bs = Inr h"
  shows "\<exists>f hp t d c rest. bs = f # hp # t @ d @ c # rest \<and> unat hp < 128 \<and> rest \<noteq> []
     \<and> length d = 16 \<and> (if bit f 6 then length t = 16 else t = [])"
proof -
  note len = accepted_lengths [OF assms]
  then have "2 \<le> length bs" by (auto split: if_splits)
  then obtain f hp r where bs: "bs = f # hp # r"
    by (metis Suc_le_length_iff numeral_2_eq_2)
  define n where "n = (if bit f 6 then (16 :: nat) else 0)"
  have n: "n + 17 < length r" and hp: "unat hp < 128"
    using len by (auto simp: n_def bs split: if_splits)
  have "drop (n + 16) r = r ! (n + 16) # drop (n + 17) r"
    using n Cons_nth_drop_Suc [of "n + 16" r] by (simp add: eval_nat_numeral)
  moreover have "r = take n r @ take 16 (drop n r) @ drop (n + 16) r"
    by (metis append_take_drop_id drop_drop add.commute)
  ultimately have "r = take n r @ take 16 (drop n r) @ r ! (n + 16) # drop (n + 17) r" by simp
  moreover have "length (take 16 (drop n r)) = 16" "drop (n + 17) r \<noteq> []" using n by auto
  moreover have "if bit f 6 then length (take n r) = 16 else take n r = []"
    using n by (simp add: n_def)
  ultimately show ?thesis using bs hp by blast
qed

lemma enc_dec_header:
  assumes "clean_wire bs" and "UnmarshalHeader bs = Inr h"
  shows "header_ok h \<and> MarshalHeader h = bs"
proof -
  from accepted_shape [OF assms(2)] obtain f hp t d c rest where
    bs: "bs = f # hp # t @ d @ c # rest" and hp: "unat hp < 128" and rest: "rest \<noteq> []"
    and d: "length d = 16" and t: "if bit f 6 then length t = 16 else t = []"
    by blast
  have f: "\<not> bit f 7" using assms(1) bs by (simp add: clean_wire_def)
  show ?thesis
  proof (cases "bit f 6")
    case True
    with t d hp rest assms(2) bs
    have "h = (UnpackFlags empty_header f)\<lparr>h_Hops := hp, h_TransportID := t, h_DestHash := d,
        h_Context := c, h_Data := rest\<rparr>"
      by (simp add: UnmarshalHeader_type2)
    with True t d hp rest bs f show ?thesis
      by (simp add: header_ok_def unpacked_fields unpacked_type MarshalHeader_def rns_codes
          rns_sizes pack_unpack)
  next
    case False
    with t d hp rest assms(2) bs
    have "h = (UnpackFlags empty_header f)\<lparr>h_Hops := hp, h_DestHash := d,
        h_Context := c, h_Data := rest\<rparr>"
      by (simp add: UnmarshalHeader_type1)
    with False t d hp rest bs f show ?thesis
      by (simp add: header_ok_def unpacked_fields unpacked_type MarshalHeader_def rns_codes
          rns_sizes pack_unpack) (simp add: UnpackFlags_def empty_header_def zero_hash_def rns_sizes)
  qed
qed

lemma accepted_header_ok:
  assumes "UnmarshalHeader bs = Inr h"
  shows "header_ok h"
proof -
  from accepted_shape [OF assms] obtain f hp t d c rest where
    bs: "bs = f # hp # t @ d @ c # rest" and hp: "unat hp < 128" and rest: "rest \<noteq> []"
    and d: "length d = 16" and t: "if bit f 6 then length t = 16 else t = []"
    by blast
  show ?thesis
  proof (cases "bit f 6")
    case True
    with t d hp rest assms bs
    have "h = (UnpackFlags empty_header f)\<lparr>h_Hops := hp, h_TransportID := t, h_DestHash := d,
        h_Context := c, h_Data := rest\<rparr>"
      by (simp add: UnmarshalHeader_type2)
    with True t d hp rest show ?thesis
      by (simp add: header_ok_def unpacked_fields unpacked_type rns_sizes)
  next
    case False
    with t d hp rest assms bs
    have "h = (UnpackFlags empty_header f)\<lparr>h_Hops := hp, h_DestHash := d,
        h_Context := c, h_Data := rest\<rparr>"
      by (simp add: UnmarshalHeader_type1)
    with False d hp rest show ?thesis
      by (simp add: header_ok_def unpacked_fields unpacked_type rns_sizes)
        (simp add: UnpackFlags_def empty_header_def zero_hash_def rns_sizes)
  qed
qed

lemma clean_MarshalHeader: "header_ok h \<Longrightarrow> clean_wire (MarshalHeader h)"
  by (simp add: clean_wire_def MarshalHeader_def pack_bit7)

interpretation header: strict_codec MarshalHeader UnmarshalHeader header_ok clean_wire
  by unfold_locales (simp_all add: dec_enc_header enc_dec_header clean_MarshalHeader)

text \<open>
  C16. The Reticulum header codec is a bijection: on wire images without the interface
  access bit, unmarshalling accepts exactly the marshalled forms of well-formed headers,
  and returns the header that was marshalled.
\<close>

theorem header_codec_bijective:
  "clean_wire bs \<Longrightarrow> UnmarshalHeader bs = Inr h \<longleftrightarrow> header_ok h \<and> MarshalHeader h = bs"
  by (rule header.dec_iff)

theorem header_codec_bijective_witness:
  "UnmarshalHeader ([0x01, 3] @ replicate 16 7 @ [0, 9]) = Inr \<lparr>h_HeaderType = 0, h_ContextFlag = 0,
     h_TransportType = 0, h_DestType = 0, h_PacketType = 1, h_Hops = 3, h_TransportID = zero_hash,
     h_DestHash = replicate 16 7, h_Context = 0, h_Data = [9]\<rparr>"
  by (rule header_codec_bijective [THEN iffD2])
    (simp_all add: clean_wire_def header_ok_def MarshalHeader_def PackFlags_def rns_codes
      rns_sizes zero_hash_def)

subsection \<open>Packet hashes and transport rewriting (packethash.go)\<close>

definition HashablePart :: "bytes \<Rightarrow> bytes" where
  "HashablePart raw =
     (if length raw < 2 then []
      else
        let start = (if drop_bit 6 (raw ! 0 AND 0x40) = HeaderType2 then 2 + TruncatedHashLen else 2)
        in if length raw < start then [] else (raw ! 0 AND 0x0F) # drop start raw)"

definition PacketHash :: "(bytes \<Rightarrow> bytes) \<Rightarrow> bytes \<Rightarrow> bytes" where
  "PacketHash sha256 raw = sha256 (HashablePart raw)"

definition TruncatedPacketHash :: "(bytes \<Rightarrow> bytes) \<Rightarrow> bytes \<Rightarrow> bytes" where
  "TruncatedPacketHash sha256 raw = take TruncatedHashLen (PacketHash sha256 raw)"

definition RewriteForTransport :: "bytes \<Rightarrow> bytes \<Rightarrow> bytes" where
  "RewriteForTransport raw transportID =
     (if length raw < HeaderMinSize then raw
      else if drop_bit 6 (raw ! 0 AND 0x40) = HeaderType2 then
        (raw ! 0 OR 0x10) # raw ! 1 # transportID @ drop (2 + TruncatedHashLen) raw
      else ((raw ! 0 AND 0x0F) OR push_bit 6 HeaderType2 OR push_bit 4 TransportTransport
              OR (raw ! 0 AND 0x20)) # raw ! 1 # transportID @ drop 2 raw)"

definition StripTransport :: "bytes \<Rightarrow> bytes" where
  "StripTransport raw =
     (if length raw < HeaderMaxSize \<or> drop_bit 6 (raw ! 0 AND 0x40) \<noteq> HeaderType2 then raw
      else ((raw ! 0 AND 0x0F) OR (raw ! 0 AND 0x20)) # raw ! 1 # drop (2 + TruncatedHashLen) raw)"

lemma type2_bit: "drop_bit 6 (x AND 0x40) = HeaderType2 \<longleftrightarrow> bit (x :: byte) 6"
  using unpacked_type [of empty_header x] by (auto simp: UnpackFlags_def HeaderType2_def)

lemmas rewrite_defs = RewriteForTransport_def StripTransport_def HashablePart_def type2_bit
  rns_sizes rns_codes

lemma or_and_low [simp]:
  "(x OR 0x10) AND 0x0F = (x :: byte) AND 0x0F"
  "((x AND 0x0F) OR 0x40 OR 0x10 OR (x AND 0x20)) AND 0x0F = (x :: byte) AND 0x0F"
  "((x AND 0x0F) OR (x AND 0x20)) AND 0x0F = (x :: byte) AND 0x0F"
  by (rule bit_word_eqI; auto simp: bit_and_iff bit_or_iff)+

lemma or_and_type [simp]:
  "bit ((x AND 0x0F) OR 0x40 OR 0x10 OR (x AND 0x20) :: byte) 6"
  "\<not> bit ((x AND 0x0F) OR (x AND 0x20) :: byte) 6"
  "bit (x OR 0x10 :: byte) 6 \<longleftrightarrow> bit x 6"
  by (auto simp: bit_and_iff bit_or_iff)

lemma HashablePart_Rewrite:
  "length tid = TruncatedHashLen \<Longrightarrow> HashablePart (RewriteForTransport raw tid) = HashablePart raw"
  by (simp add: rewrite_defs Let_def)

lemma HashablePart_Strip: "HashablePart (StripTransport raw) = HashablePart raw"
  by (simp add: rewrite_defs Let_def)



text \<open>
  Stripping undoes wrapping: a HEADER_1 broadcast packet (interface bits clear) wrapped
  for a next hop and stripped on the last hop is the original packet, byte for byte.
\<close>

theorem strip_after_rewrite:
  assumes "length raw \<ge> HeaderMinSize" and "length tid = TruncatedHashLen"
    and "\<not> bit (raw ! 0) 7" and "\<not> bit (raw ! 0) 6" and "\<not> bit (raw ! 0) 4"
  shows "StripTransport (RewriteForTransport raw tid) = raw"
proof -
  have "2 \<le> length raw" using assms(1) by (simp add: rns_sizes)
  then obtain f hp r where raw: "raw = f # hp # r"
    by (metis Suc_le_length_iff numeral_2_eq_2)
  let ?g = "(f AND 0x0F) OR 0x40 OR 0x10 OR (f AND 0x20)"
  have "(?g AND 0x0F) OR (?g AND 0x20) = f"
  proof (rule bit_word_eqI)
    fix n assume "n < LENGTH(8)"
    then have "n < 4 \<or> n = 4 \<or> n = 5 \<or> n = 6 \<or> n = 7" by auto
    then show "bit ((?g AND 0x0F) OR (?g AND 0x20)) n \<longleftrightarrow> bit f n"
      using assms(3-5) raw by (elim disjE) (simp_all add: bit_and_iff bit_or_iff)
  qed
  moreover have "RewriteForTransport raw tid = ?g # hp # tid @ r"
    using assms raw unfolding RewriteForTransport_def type2_bit by (simp add: rns_sizes rns_codes)
  ultimately show ?thesis using assms(1,2) raw by (simp add: StripTransport_def rns_sizes rns_codes)
qed

theorem strip_after_rewrite_witness:
  "StripTransport (RewriteForTransport ([0x21, 3] @ replicate 18 5) (replicate 16 9))
     = [0x21, 3] @ replicate 18 5"
  by (rule strip_after_rewrite) (simp_all add: rns_sizes)

subsection \<open>Path requests and responses (path.go)\<close>

record PathRequest =
  pq_DestHash :: bytes
  pq_Tag :: bytes

definition MarshalPathRequest :: "PathRequest \<Rightarrow> bytes" where
  "MarshalPathRequest req = pq_DestHash req @ pq_Tag req"

definition UnmarshalPathRequest :: "bytes \<Rightarrow> packet_error + PathRequest" where
  "UnmarshalPathRequest data =
     (if length data < TruncatedHashLen * 2 then Inl ErrPathRequestTooShort
      else Inr \<lparr>pq_DestHash = slice 0 TruncatedHashLen data,
                pq_Tag = slice TruncatedHashLen (TruncatedHashLen * 2) data\<rparr>)"

record PathResponse =
  ps_DestHash :: bytes
  ps_Tag :: bytes
  ps_Hops :: byte
  ps_InterfaceType :: bytes
  ps_AnnounceData :: bytes

definition MarshalPathResponse :: "PathResponse \<Rightarrow> bytes" where
  "MarshalPathResponse resp =
     (let ifaceBytes = (if length (ps_InterfaceType resp) > 255 then take 255 (ps_InterfaceType resp)
                        else ps_InterfaceType resp)
      in ps_DestHash resp @ ps_Tag resp @ [ps_Hops resp, of_nat (length ifaceBytes)]
         @ ifaceBytes @ ps_AnnounceData resp)"

definition UnmarshalPathResponse :: "bytes \<Rightarrow> packet_error + PathResponse" where
  "UnmarshalPathResponse data =
     (if length data < TruncatedHashLen * 2 + 1 + 1 then Inl ErrPathResponseTooShort
      else
        let ifaceLen = unat (data ! (TruncatedHashLen * 2 + 1)); pos = TruncatedHashLen * 2 + 2
        in if pos + ifaceLen > length data then Inl ErrPathResponseTooShort
           else Inr \<lparr>ps_DestHash = slice 0 TruncatedHashLen data,
                     ps_Tag = slice TruncatedHashLen (TruncatedHashLen * 2) data,
                     ps_Hops = data ! (TruncatedHashLen * 2),
                     ps_InterfaceType = slice pos (pos + ifaceLen) data,
                     ps_AnnounceData = drop (pos + ifaceLen) data\<rparr>)"

definition path_packet :: "bytes \<Rightarrow> byte \<Rightarrow> bytes \<Rightarrow> Header" where
  "path_packet destHash ctx payload = empty_header\<lparr>h_HeaderType := HeaderType1,
     h_PacketType := PacketData, h_DestType := DestPlain, h_Context := ctx,
     h_DestHash := destHash, h_Data := payload\<rparr>"

definition BuildPathRequestPacket :: "bytes \<Rightarrow> PathRequest \<Rightarrow> bytes" where
  "BuildPathRequestPacket destHash req =
     MarshalHeader (path_packet destHash ContextRequest (MarshalPathRequest req))"

definition BuildPathResponsePacket :: "bytes \<Rightarrow> PathResponse \<Rightarrow> bytes" where
  "BuildPathResponsePacket destHash resp =
     MarshalHeader (path_packet destHash ContextPathResponse (MarshalPathResponse resp))"

definition path_request_ok :: "PathRequest \<Rightarrow> bool" where
  "path_request_ok r \<longleftrightarrow> length (pq_DestHash r) = TruncatedHashLen \<and> length (pq_Tag r) = TruncatedHashLen"

definition path_response_ok :: "PathResponse \<Rightarrow> bool" where
  "path_response_ok r \<longleftrightarrow> length (ps_DestHash r) = TruncatedHashLen
     \<and> length (ps_Tag r) = TruncatedHashLen \<and> length (ps_InterfaceType r) \<le> 255"

interpretation path_request: strict_codec MarshalPathRequest UnmarshalPathRequest path_request_ok
    "\<lambda>bs. length bs = 32"
proof
  show "UnmarshalPathRequest (MarshalPathRequest x) = Inr x" if "path_request_ok x" for x
    using that by (simp add: path_request_ok_def MarshalPathRequest_def UnmarshalPathRequest_def
        rns_sizes slice_def)
  show "path_request_ok x \<and> MarshalPathRequest x = bs"
    if "length bs = 32" "UnmarshalPathRequest bs = Inr x" for bs x
    using that take_slice [of 16 32 bs]
    by (auto simp: path_request_ok_def MarshalPathRequest_def UnmarshalPathRequest_def
        rns_sizes slice_def)
  show "length (MarshalPathRequest x) = 32" if "path_request_ok x" for x
    using that by (simp add: path_request_ok_def MarshalPathRequest_def rns_sizes)
qed

lemma unmarshal_path_response_parts:
  assumes "length d = 16" "length t = 16" "length i \<le> 255"
  shows "UnmarshalPathResponse (d @ t @ [h, of_nat (length i)] @ i @ a)
       = Inr \<lparr>ps_DestHash = d, ps_Tag = t, ps_Hops = h, ps_InterfaceType = i, ps_AnnounceData = a\<rparr>"
proof -
  have "unat (of_nat (length i) :: byte) = length i"
    using assms(3) by (simp add: unat_of_nat)
  with assms show ?thesis
    by (simp add: UnmarshalPathResponse_def rns_sizes slice_def nth_append)
qed

lemma enc_dec_path_response:
  assumes "UnmarshalPathResponse bs = Inr x"
  shows "path_response_ok x \<and> MarshalPathResponse x = bs"
proof -
  define n where "n = unat (bs ! 33)"
  have len: "34 + n \<le> length bs" and x: "x = \<lparr>ps_DestHash = slice 0 16 bs, ps_Tag = slice 16 32 bs,
      ps_Hops = bs ! 32, ps_InterfaceType = slice 34 (34 + n) bs, ps_AnnounceData = drop (34 + n) bs\<rparr>"
    using assms by (auto simp: UnmarshalPathResponse_def rns_sizes n_def Let_def split: if_splits)
  have n: "n \<le> 255" using unat_byte_lt [of "bs ! 33"] by (simp add: n_def)
  have "drop 32 bs = bs ! 32 # bs ! 33 # drop 34 bs"
    using len Cons_nth_drop_Suc [of 32 bs] Cons_nth_drop_Suc [of 33 bs] by simp
  then have "slice 0 16 bs @ slice 16 32 bs @ [bs ! 32, bs ! 33] @ drop 34 bs = bs"
    using take_slice [of 16 32 bs] by (simp add: slice_def) (metis append.assoc append_take_drop_id)
  moreover have "slice 34 (34 + n) bs @ drop (34 + n) bs = drop 34 bs"
    by (simp add: slice_def) (metis append_take_drop_id drop_drop add.commute)
  ultimately have "slice 0 16 bs @ slice 16 32 bs @ [bs ! 32, bs ! 33] @ slice 34 (34 + n) bs
      @ drop (34 + n) bs = bs" by simp
  moreover have "of_nat n = bs ! 33" by (simp add: n_def)
  ultimately show ?thesis
    using len n by (simp add: x path_response_ok_def MarshalPathResponse_def rns_sizes Let_def)
qed

interpretation path_response: strict_codec MarshalPathResponse UnmarshalPathResponse path_response_ok
    "\<lambda>_. True"
proof
  show "UnmarshalPathResponse (MarshalPathResponse x) = Inr x" if "path_response_ok x" for x
    using that unmarshal_path_response_parts [of "ps_DestHash x" "ps_Tag x" "ps_InterfaceType x"
        "ps_Hops x" "ps_AnnounceData x"]
    by (simp add: path_response_ok_def MarshalPathResponse_def rns_sizes Let_def)
  show "path_response_ok x \<and> MarshalPathResponse x = bs" if "UnmarshalPathResponse bs = Inr x" for bs x
    using that by (rule enc_dec_path_response)
qed simp

lemma path_packet_ok:
  "length dh = TruncatedHashLen \<Longrightarrow> payload \<noteq> [] \<Longrightarrow> header_ok (path_packet dh ctx payload)"
  by (simp add: header_ok_def path_packet_def empty_header_def zero_hash_def rns_codes rns_sizes)

text \<open>
  A path exchange survives the wire: the packet built for a path request (response)
  parses to a plain-destination data packet of the right context for the right
  destination, and its payload parses back to the very request (response).
\<close>

theorem path_packets_roundtrip:
  assumes "length dh = TruncatedHashLen" and "path_request_ok req" and "path_response_ok resp"
  shows "(\<exists>h. UnmarshalHeader (BuildPathRequestPacket dh req) = Inr h
        \<and> h_Context h = ContextRequest \<and> h_DestHash h = dh
        \<and> UnmarshalPathRequest (h_Data h) = Inr req)
    \<and> (\<exists>h. UnmarshalHeader (BuildPathResponsePacket dh resp) = Inr h
        \<and> h_Context h = ContextPathResponse \<and> h_DestHash h = dh
        \<and> UnmarshalPathResponse (h_Data h) = Inr resp)"
proof -
  have "MarshalPathRequest req \<noteq> []" and "MarshalPathResponse resp \<noteq> []"
    using assms by (auto simp: MarshalPathRequest_def MarshalPathResponse_def path_request_ok_def
        rns_sizes Let_def)
  note ok = path_packet_ok [OF assms(1) this(1)] path_packet_ok [OF assms(1) this(2)]
  from header.dec_enc [OF ok(1)] path_request.dec_enc [OF assms(2)]
    header.dec_enc [OF ok(2)] path_response.dec_enc [OF assms(3)]
  show ?thesis
    by (auto simp: BuildPathRequestPacket_def BuildPathResponsePacket_def path_packet_def)
qed

theorem path_packets_roundtrip_witness:
  "\<exists>h. UnmarshalHeader (BuildPathRequestPacket (replicate 16 1)
       \<lparr>pq_DestHash = replicate 16 2, pq_Tag = replicate 16 3\<rparr>) = Inr h
     \<and> h_Context h = ContextRequest \<and> h_DestHash h = replicate 16 1
     \<and> UnmarshalPathRequest (h_Data h) = Inr \<lparr>pq_DestHash = replicate 16 2, pq_Tag = replicate 16 3\<rparr>"
  by (rule path_packets_roundtrip [where resp = "\<lparr>ps_DestHash = replicate 16 1,
      ps_Tag = replicate 16 2, ps_Hops = 1, ps_InterfaceType = [109], ps_AnnounceData = []\<rparr>",
      THEN conjunct1])
    (simp_all add: path_request_ok_def path_response_ok_def rns_sizes)

end
