(* ===== verification/Ifac.thy ===== *)
theory Ifac
  imports Packet
begin

unbundle bit_operations_syntax

section \<open>Interface access codes\<close>

text \<open>
  \<open>internal/reticulum/ifac.go\<close> and \<open>hkdf.go\<close>: the access code a private Reticulum
  network puts on every packet. The HKDF stream (golang.org/x/crypto), SHA-256 and the
  deterministic Ed25519 signature are library code: they are the arguments \<open>stream\<close>,
  \<open>sha256\<close>, \<open>keyFromSeed\<close> and \<open>sign\<close>. \<open>stream ikm salt n\<close> stands for reading
  \<open>n\<close> bytes of \<open>hkdf.New(sha256.New, ikm, salt, nil)\<close>; its documented behaviour is the
  hypothesis \<open>hkdf_stream\<close>: RFC 5869 limits the output to 255 blocks of 32 bytes, within
  which it yields exactly \<open>n\<close> bytes, and past which the read fails. A Go panic is the
  value \<open>Inl PanicHKDF\<close>.
\<close>

definition IFACMinSize :: nat where "IFACMinSize = 1"
definition hkdfLimit :: nat where "hkdfLimit = 255 * 32"

datatype ifac_error = ErrIFAC | ErrNeedsNameOrKey | ErrBadIFACSize | PanicHKDF

definition HKDF :: "(bytes \<Rightarrow> bytes \<Rightarrow> nat \<Rightarrow> bytes option) \<Rightarrow> nat \<Rightarrow> bytes \<Rightarrow> bytes \<Rightarrow> ifac_error + bytes" where
  "HKDF stream len ikm salt =
     (let salt = (if salt = [] then replicate 32 0 else salt)
      in case stream ikm salt len of None \<Rightarrow> Inl PanicHKDF | Some out \<Rightarrow> Inr out)"

definition IFACSalt :: bytes where
  "IFACSalt = [0xad, 0xf5, 0x4d, 0x88, 0x2c, 0x9a, 0x9b, 0x80, 0x77, 0x1e, 0xb4, 0x99, 0x5d, 0x70,
     0x2d, 0x4a, 0x3e, 0x73, 0x33, 0x91, 0xb2, 0xa0, 0xf5, 0x3f, 0x41, 0x6d, 0x9f, 0x90, 0x7e, 0x55,
     0xcf, 0xf8]"

definition IFACKey ::
  "(bytes \<Rightarrow> bytes) \<Rightarrow> (bytes \<Rightarrow> bytes \<Rightarrow> nat \<Rightarrow> bytes option) \<Rightarrow> bytes \<Rightarrow> bytes \<Rightarrow> ifac_error + bytes" where
  "IFACKey sha256 stream netname netkey =
     (let origin = (if netname \<noteq> [] then sha256 netname else [])
                   @ (if netkey \<noteq> [] then sha256 netkey else [])
      in HKDF stream 64 (sha256 origin) IFACSalt)"

record 'k IFAC =
  i_key :: bytes
  i_size :: nat
  i_signer :: 'k

definition NewIFAC ::
  "(bytes \<Rightarrow> bytes) \<Rightarrow> (bytes \<Rightarrow> bytes \<Rightarrow> nat \<Rightarrow> bytes option) \<Rightarrow> (bytes \<Rightarrow> 'k) \<Rightarrow> bytes \<Rightarrow> bytes \<Rightarrow> int
   \<Rightarrow> ifac_error + 'k IFAC" where
  "NewIFAC sha256 stream keyFromSeed netname netkey sz =
     (if netname = [] \<and> netkey = [] then Inl ErrNeedsNameOrKey
      else if sz < int IFACMinSize \<or> sz > 64 then Inl ErrBadIFACSize
      else case IFACKey sha256 stream netname netkey of
             Inl e \<Rightarrow> Inl e
           | Inr key \<Rightarrow> Inr \<lparr>i_key = key, i_size = nat sz, i_signer = keyFromSeed (drop 32 key)\<rparr>)"

text \<open>XOR with the mask everywhere but on the tag, bytes \<open>2 .. 2 + size - 1\<close>.\<close>

definition mask_bytes :: "nat \<Rightarrow> bytes \<Rightarrow> bytes \<Rightarrow> bytes" where
  "mask_bytes sz msk out =
     map (\<lambda>i. if 2 \<le> i \<and> i < 2 + sz then out ! i else out ! i XOR msk ! i) [0..<length out]"

definition Wrap ::
  "('k \<Rightarrow> bytes \<Rightarrow> bytes) \<Rightarrow> (bytes \<Rightarrow> bytes \<Rightarrow> nat \<Rightarrow> bytes option) \<Rightarrow> 'k IFAC \<Rightarrow> bytes
   \<Rightarrow> ifac_error + bytes" where
  "Wrap sign stream f raw =
     (if length raw < 2 then Inr raw
      else
        let sig = sign (i_signer f) raw;
            ifac = drop (length sig - i_size f) sig
        in case HKDF stream (length raw + i_size f) ifac (i_key f) of
             Inl e \<Rightarrow> Inl e
           | Inr msk \<Rightarrow>
               let out = (raw ! 0 OR 0x80) # raw ! 1 # ifac @ drop 2 raw;
                   out = mask_bytes (i_size f) msk out
               in Inr (out[0 := out ! 0 OR 0x80]))"

definition Unwrap ::
  "('k \<Rightarrow> bytes \<Rightarrow> bytes) \<Rightarrow> (bytes \<Rightarrow> bytes \<Rightarrow> nat \<Rightarrow> bytes option) \<Rightarrow> 'k IFAC \<Rightarrow> bytes
   \<Rightarrow> ifac_error + bytes" where
  "Unwrap sign stream f raw =
     (if length raw \<le> 2 + i_size f then Inl ErrIFAC
      else if raw ! 0 AND 0x80 = 0 then Inl ErrIFAC
      else
        let ifac = slice 2 (2 + i_size f) raw
        in case HKDF stream (length raw) ifac (i_key f) of
             Inl e \<Rightarrow> Inl e
           | Inr msk \<Rightarrow>
               let unmasked = mask_bytes (i_size f) msk raw;
                   clean = (unmasked ! 0 AND 0x7F) # unmasked ! 1 # drop (2 + i_size f) unmasked;
                   sig = sign (i_signer f) clean
               in if drop (length sig - i_size f) sig \<noteq> ifac then Inl ErrIFAC else Inr clean)"

definition HasIFACFlag :: "bytes \<Rightarrow> bool" where
  "HasIFACFlag raw \<longleftrightarrow> length raw > 0 \<and> raw ! 0 AND 0x80 \<noteq> 0"

text \<open>The documented behaviour of the libraries, and an access code as \<open>NewIFAC\<close> builds it.\<close>

definition hkdf_stream :: "(bytes \<Rightarrow> bytes \<Rightarrow> nat \<Rightarrow> bytes option) \<Rightarrow> bool" where
  "hkdf_stream stream \<longleftrightarrow>
     (\<forall>ikm salt n. if n \<le> hkdfLimit then (\<exists>out. stream ikm salt n = Some out \<and> length out = n)
                   else stream ikm salt n = None)"

definition sig_len_64 :: "('k \<Rightarrow> bytes \<Rightarrow> bytes) \<Rightarrow> bool" where
  "sig_len_64 sign \<longleftrightarrow> (\<forall>k m. length (sign k m) = 64)"

definition ifac_ok :: "'k IFAC \<Rightarrow> bool" where
  "ifac_ok f \<longleftrightarrow> IFACMinSize \<le> i_size f \<and> i_size f \<le> 64"

subsection \<open>Correctness\<close>

abbreviation xors :: "bytes \<Rightarrow> bytes \<Rightarrow> bytes" where
  "xors \<equiv> map2 (XOR)"

lemma xors_xors: "length r \<le> length m \<Longrightarrow> xors (xors r m) m = r"
proof (induction r arbitrary: m)
  case Nil
  then show ?case by simp
next
  case (Cons x r)
  then show ?case by (cases m) (auto simp: xor.assoc)
qed

lemma length_mask_bytes [simp]: "length (mask_bytes s m out) = length out"
  by (simp add: mask_bytes_def)

lemma nth_mask_bytes:
  "i < length out \<Longrightarrow>
   mask_bytes s m out ! i = (if 2 \<le> i \<and> i < 2 + s then out ! i else out ! i XOR m ! i)"
  by (simp add: mask_bytes_def)

lemma mask_bytes_parts:
  assumes "length t = s" and "length m = 2 + s + length r"
  shows "mask_bytes s m (x # y # t @ r)
       = (x XOR m ! 0) # (y XOR m ! 1) # t @ xors r (drop (2 + s) m)"
proof (rule nth_equalityI)
  show "length (mask_bytes s m (x # y # t @ r))
      = length ((x XOR m ! 0) # (y XOR m ! 1) # t @ xors r (drop (2 + s) m))"
    using assms by simp
next
  fix i assume "i < length (mask_bytes s m (x # y # t @ r))"
  then have i: "i < length (x # y # t @ r)" by simp
  then consider "i = 0" | "i = 1" | j where "i = 2 + j" "j < s" | j where "i = 2 + s + j" "j < length r"
    using assms(1) by (auto simp: less_Suc_eq_le) (metis One_nat_def Suc_1 add_2_eq_Suc
        add_less_cancel_left less_2_cases_iff nat_le_iff_add not_less less_Suc_eq_le)
  then show "mask_bytes s m (x # y # t @ r) ! i
      = ((x XOR m ! 0) # (y XOR m ! 1) # t @ xors r (drop (2 + s) m)) ! i"
    using assms i by cases (simp_all add: nth_mask_bytes nth_append)
qed

lemma bit7_top: "n < 8 \<Longrightarrow> n < 7 \<or> n = (7 :: nat)"
  by arith

lemma flag_roundtrip: "\<not> bit x 7 \<Longrightarrow> ((((x OR 0x80) XOR k) OR 0x80) XOR k) AND 0x7F = (x :: byte)"
  by (rule bit_word_eqI) (auto simp: bit_and_iff bit_or_iff bit_xor_iff dest!: bit7_top)

lemma flag_canonical: "bit w 7 \<Longrightarrow> ((((w XOR k) AND 0x7F) OR 0x80) XOR k) OR 0x80 = (w :: byte)"
  by (rule bit_word_eqI) (auto simp: bit_and_iff bit_or_iff bit_xor_iff dest!: bit7_top)

lemma bit7_iff: "(x :: byte) AND 0x80 = 0 \<longleftrightarrow> \<not> bit x 7"
proof
  assume "x AND 0x80 = 0"
  then have "\<not> bit (x AND 0x80) 7" by simp
  then show "\<not> bit x 7" by (simp add: bit_and_iff)
next
  assume "\<not> bit x 7"
  then show "x AND 0x80 = 0" by (intro bit_word_eqI) (auto simp: bit_and_iff)
qed

lemma HKDF_within:
  assumes "hkdf_stream stream" and "n \<le> hkdfLimit"
  obtains m where "HKDF stream n ikm salt = Inr m" "length m = n"
proof -
  let ?salt = "if salt = [] then replicate 32 0 else salt"
  from assms obtain out where "stream ikm ?salt n = Some out" "length out = n"
    unfolding hkdf_stream_def by metis
  then show ?thesis by (intro that [of out]) (simp_all add: HKDF_def Let_def)
qed

lemma Wrap_parts:
  assumes "HKDF stream (2 + length r + i_size f) t (i_key f) = Inr m"
    and "length m = 2 + length r + i_size f" and "length t = i_size f"
    and "drop (length (sign (i_signer f) (x # y # r)) - i_size f) (sign (i_signer f) (x # y # r)) = t"
  shows "Wrap sign stream f (x # y # r)
       = Inr ((((x OR 0x80) XOR m ! 0) OR 0x80) # (y XOR m ! 1) # t @ xors r (drop (2 + i_size f) m))"
  using assms by (simp add: Wrap_def mask_bytes_parts)

lemma Unwrap_parts:
  assumes "HKDF stream (2 + length r + i_size f) t (i_key f) = Inr m"
    and "length m = 2 + length r + i_size f" and "length t = i_size f" and "r \<noteq> []" and "bit w 7"
  shows "Unwrap sign stream f (w # y # t @ r) =
     (let clean = ((w XOR m ! 0) AND 0x7F) # (y XOR m ! 1) # xors r (drop (2 + i_size f) m);
          sig = sign (i_signer f) clean
      in if drop (length sig - i_size f) sig \<noteq> t then Inl ErrIFAC else Inr clean)"
  using assms by (simp add: Unwrap_def mask_bytes_parts slice_def bit7_iff add.commute add.left_commute)

lemma tag_length: "sig_len_64 sign \<Longrightarrow> ifac_ok f \<Longrightarrow> length (drop (length (sign k c) - i_size f) (sign k c)) = i_size f"
  by (simp add: sig_len_64_def ifac_ok_def)

lemma unwrap_wrap:
  assumes "hkdf_stream stream" "sig_len_64 sign" "ifac_ok f"
    and "2 < length raw" "length raw + i_size f \<le> hkdfLimit" "\<not> bit (raw ! 0) 7"
  obtains w where "Wrap sign stream f raw = Inr w" "Unwrap sign stream f w = Inr raw"
proof -
  obtain x y r where raw: "raw = x # y # r" and r: "r \<noteq> []"
    using assms(4) by (cases raw; cases "tl raw") auto
  define t where "t = drop (length (sign (i_signer f) raw) - i_size f) (sign (i_signer f) raw)"
  have t: "length t = i_size f" unfolding t_def using assms(2,3) by (rule tag_length)
  have "2 + length r + i_size f \<le> hkdfLimit" using assms(5) raw by simp
  then obtain m where m: "HKDF stream (2 + length r + i_size f) t (i_key f) = Inr m"
      "length m = 2 + length r + i_size f"
    by (rule HKDF_within [OF assms(1)])
  let ?w = "((x OR 0x80) XOR m ! 0) OR 0x80" and ?r = "xors r (drop (2 + i_size f) m)"
  have lr: "length ?r = length r" using m(2) by simp
  have W: "Wrap sign stream f raw = Inr (?w # (y XOR m ! 1) # t @ ?r)"
    unfolding raw by (rule Wrap_parts [OF m t]) (simp add: t_def raw)
  have "bit ?w 7" by (simp add: bit_or_iff)
  moreover have "?r \<noteq> []" using r lr by auto
  ultimately have "Unwrap sign stream f (?w # (y XOR m ! 1) # t @ ?r) = Inr raw"
    using Unwrap_parts [of stream ?r f t m ?w sign "y XOR m ! 1"] m t lr assms(6) raw
    by (simp add: flag_roundtrip xors_xors xor.assoc t_def)
  with W show ?thesis by (rule that)
qed

lemma wrap_unwrap:
  assumes "hkdf_stream stream" "sig_len_64 sign" "ifac_ok f"
    and U: "Unwrap sign stream f w = Inr raw"
  shows "2 < length raw \<and> length raw + i_size f \<le> hkdfLimit \<and> \<not> bit (raw ! 0) 7
     \<and> Wrap sign stream f raw = Inr w"
proof -
  from U have len: "2 + i_size f < length w" and flag: "bit (w ! 0) 7"
    by (auto simp: Unwrap_def bit7_iff split: if_splits)
  obtain x y q where w: "w = x # y # q" using len by (cases w; cases "tl w") auto
  define t r where "t = take (i_size f) q" and "r = drop (i_size f) q"
  have q: "q = t @ r" and t: "length t = i_size f" and r: "r \<noteq> []"
    using len w by (simp_all add: t_def r_def)
  have size: "length w = 2 + length r + i_size f" using w q t by simp
  have limit: "length w \<le> hkdfLimit"
  proof (rule ccontr)
    assume "\<not> length w \<le> hkdfLimit"
    then have "stream ikm salt (length w) = None" for ikm salt
      using assms(1) unfolding hkdf_stream_def by metis
    with U len flag show False by (simp add: Unwrap_def HKDF_def bit7_iff Let_def)
  qed
  then obtain m where m: "HKDF stream (2 + length r + i_size f) t (i_key f) = Inr m"
      "length m = 2 + length r + i_size f"
    using HKDF_within [OF assms(1)] size by metis
  let ?r = "xors r (drop (2 + i_size f) m)"
  let ?c = "((x XOR m ! 0) AND 0x7F) # (y XOR m ! 1) # ?r"
  have lr: "length ?r = length r" using m(2) by simp
  from U flag Unwrap_parts [OF m t r, of x sign y] w q
  have raw: "raw = ?c" and tag: "drop (length (sign (i_signer f) ?c) - i_size f) (sign (i_signer f) ?c) = t"
    by (auto simp: Let_def split: if_splits)
  have "Wrap sign stream f ?c = Inr ((((((x XOR m ! 0) AND 0x7F) OR 0x80) XOR m ! 0) OR 0x80)
      # ((y XOR m ! 1) XOR m ! 1) # t @ xors ?r (drop (2 + i_size f) m))"
    by (rule Wrap_parts) (use m t lr tag in simp_all)
  then have "Wrap sign stream f raw = Inr w"
    using flag w q m(2) raw by (simp add: flag_canonical xors_xors xor.assoc)
  moreover have "2 < length raw" "\<not> bit (raw ! 0) 7" "length raw + i_size f \<le> hkdfLimit"
    using raw lr r limit size by (auto simp: bit_and_iff)
  ultimately show ?thesis by simp
qed

text \<open>
  C9. An access-coded interface carries exactly the network's own packets: unwrapping
  accepts a frame if and only if it is the wrapped image, under the same access code, of a
  clean packet of more than two bytes, and returns that packet. The libraries are
  characterised by the lengths they document.
\<close>

theorem ifac_unwrap_exact:
  assumes "hkdf_stream stream" and "sig_len_64 sign" and "ifac_ok f"
  shows "Unwrap sign stream f w = Inr raw \<longleftrightarrow>
     2 < length raw \<and> length raw + i_size f \<le> hkdfLimit \<and> \<not> bit (raw ! 0) 7
     \<and> Wrap sign stream f raw = Inr w"
proof
  assume "Unwrap sign stream f w = Inr raw"
  then show "2 < length raw \<and> length raw + i_size f \<le> hkdfLimit \<and> \<not> bit (raw ! 0) 7
     \<and> Wrap sign stream f raw = Inr w"
    using assms by (intro wrap_unwrap)
next
  assume a: "2 < length raw \<and> length raw + i_size f \<le> hkdfLimit \<and> \<not> bit (raw ! 0) 7
     \<and> Wrap sign stream f raw = Inr w"
  then obtain v where "Wrap sign stream f raw = Inr v" "Unwrap sign stream f v = Inr raw"
    using unwrap_wrap [OF assms] by blast
  with a show "Unwrap sign stream f w = Inr raw" by simp
qed

text \<open>Concrete libraries for the witnesses: a keyed constant stream and a padded signature.\<close>

definition demo_stream :: "bytes \<Rightarrow> bytes \<Rightarrow> nat \<Rightarrow> bytes option" where
  "demo_stream ikm salt n = (if n \<le> hkdfLimit then Some (replicate n 0x5A) else None)"

definition demo_sign :: "byte \<Rightarrow> bytes \<Rightarrow> bytes" where
  "demo_sign k m = replicate 63 k @ [foldr (XOR) m k]"

lemma demo_libs: "hkdf_stream demo_stream" "sig_len_64 demo_sign"
  by (simp_all add: hkdf_stream_def demo_stream_def sig_len_64_def demo_sign_def)

theorem ifac_unwrap_exact_witness:
  "\<exists>w. Wrap demo_sign demo_stream \<lparr>i_key = [1], i_size = 1, i_signer = 7\<rparr> [1, 2, 3] = Inr w
     \<and> Unwrap demo_sign demo_stream \<lparr>i_key = [1], i_size = 1, i_signer = 7\<rparr> w = Inr [1, 2, 3]"
proof -
  let ?f = "\<lparr>i_key = [1 :: byte], i_size = 1, i_signer = 7 :: byte\<rparr>"
  have ok: "ifac_ok ?f" by (simp add: ifac_ok_def IFACMinSize_def)
  obtain w where w: "Wrap demo_sign demo_stream ?f [1, 2, 3] = Inr w"
    by (auto simp: Wrap_def HKDF_def demo_stream_def hkdfLimit_def Let_def)
  then have "Unwrap demo_sign demo_stream ?f w = Inr [1, 2, 3]"
    by (intro ifac_unwrap_exact [OF demo_libs ok, THEN iffD2]) (simp add: hkdfLimit_def bit_1_iff)
  with w show ?thesis by blast
qed

text \<open>
  C18. A frame longer than the HKDF limit crashes the reader of an access-coded interface:
  whatever the key, any frame of more than 8160 bytes whose first byte carries the access
  flag makes unwrapping panic, before the access code is checked. (The comment in hkdf.go
  calls this impossible "for our sizes"; the HDLC reader in front of it delivers frames of
  up to half a megabyte.)
\<close>

theorem ifac_unwrap_panics_on_long_frames:
  assumes "hkdf_stream stream" and "HasIFACFlag raw" and "length raw > hkdfLimit"
    and "i_size f \<le> 64"
  shows "Unwrap sign stream f raw = Inl PanicHKDF"
proof -
  have "stream ikm salt (length raw) = None" for ikm salt
    using assms(1,3) unfolding hkdf_stream_def by (metis linorder_not_le)
  with assms(2-4) show ?thesis
    by (simp add: Unwrap_def HKDF_def HasIFACFlag_def hkdfLimit_def Let_def)
qed

theorem ifac_unwrap_panics_on_long_frames_witness:
  "Unwrap demo_sign demo_stream \<lparr>i_key = [1], i_size = 16, i_signer = 7\<rparr> (replicate 8161 0x80)
     = Inl PanicHKDF"
  by (rule ifac_unwrap_panics_on_long_frames)
    (simp_all add: demo_libs HasIFACFlag_def hkdfLimit_def)

end
