(* ===== verification/Replay.thy ===== *)
theory Replay
  imports Prelude
begin

unbundle bit_operations_syntax

section \<open>The anti-replay window of out-of-band frames\<close>

text \<open>
  \<open>internal/oob/replay.go\<close>: the sliding window a peer's transmit counters are checked
  against. The model keeps the widths of the code: a 32-bit highest counter and a 64-bit
  bitmap. The specification is the set of counters accepted so far; \<open>window_rel\<close> says
  how the window represents it, and every operation is shown to follow it.
\<close>

definition WindowSize :: nat where "WindowSize = 64"

record Window =
  w_High :: u32
  w_Bitmap :: u64

definition zero_window :: Window where
  "zero_window = \<lparr>w_High = 0, w_Bitmap = 0\<rparr>"

definition Check :: "Window \<Rightarrow> u32 \<Rightarrow> bool" where
  "Check w ctr =
     (if ctr = 0 then False
      else if ctr > w_High w then True
      else let diff = w_High w - ctr in
        if unat diff \<ge> WindowSize then False
        else w_Bitmap w AND push_bit (unat diff) 1 = 0)"

definition Mark :: "Window \<Rightarrow> u32 \<Rightarrow> Window" where
  "Mark w ctr =
     (if ctr = 0 then w
      else if ctr > w_High w then
        let shift = ctr - w_High w;
            bm = (if unat shift \<ge> WindowSize then 0 else push_bit (unat shift) (w_Bitmap w))
        in w\<lparr>w_Bitmap := bm OR 1, w_High := ctr\<rparr>
      else let diff = w_High w - ctr in
        if unat diff < WindowSize then w\<lparr>w_Bitmap := w_Bitmap w OR push_bit (unat diff) 1\<rparr>
        else w)"

text \<open>How a receiver uses the window: check, then (the frame opened) mark.\<close>

definition receive :: "Window \<Rightarrow> u32 \<Rightarrow> bool \<times> Window" where
  "receive w ctr = (if Check w ctr then (True, Mark w ctr) else (False, w))"

fun accepted :: "Window \<Rightarrow> u32 list \<Rightarrow> u32 list" where
  "accepted w [] = []"
| "accepted w (c # cs) =
     (let (ok, w') = receive w c in if ok then c # accepted w' cs else accepted w' cs)"

subsection \<open>The set of accepted counters\<close>

definition window_rel :: "Window \<Rightarrow> nat set \<Rightarrow> bool" where
  "window_rel w A \<longleftrightarrow>
     (\<forall>a \<in> A. 0 < a \<and> a \<le> unat (w_High w)) \<and>
     (\<forall>i < WindowSize. i < unat (w_High w) \<longrightarrow> bit (w_Bitmap w) i \<longleftrightarrow> unat (w_High w) - i \<in> A)"

lemma window_rel_zero: "window_rel zero_window {}"
  by (simp add: window_rel_def zero_window_def)

lemma bit_single: "bit (2 ^ n :: u64) m \<longleftrightarrow> m = n \<and> n < 64"
  by (auto simp: bit_exp_iff)

lemma and_single_bit: "(x :: u64) AND 2 ^ n = 0 \<longleftrightarrow> \<not> (n < 64 \<and> bit x n)"
proof
  assume a: "x AND 2 ^ n = 0"
  show "\<not> (n < 64 \<and> bit x n)"
  proof
    assume n: "n < 64 \<and> bit x n"
    then have "bit (x AND 2 ^ n) n" by (simp add: bit_and_iff bit_single)
    with a show False by simp
  qed
next
  assume "\<not> (n < 64 \<and> bit x n)"
  then show "x AND 2 ^ n = 0"
    by (intro bit_word_eqI) (auto simp: bit_and_iff bit_single)
qed

text \<open>What the window admits, in terms of the set.\<close>

lemma Check_iff:
  assumes "window_rel w A"
  shows "Check w ctr \<longleftrightarrow>
     ctr \<noteq> 0 \<and> unat ctr \<notin> A \<and> unat (w_High w) < unat ctr + WindowSize"
proof (cases "ctr = 0 \<or> ctr > w_High w")
  case True
  with assms show ?thesis
    by (auto simp: Check_def window_rel_def WindowSize_def word_less_nat_alt)
next
  case False
  then have le: "unat ctr \<le> unat (w_High w)" and pos: "0 < unat ctr"
    by (auto simp: word_le_nat_alt not_less unat_gt_0)
  have d: "unat (w_High w - ctr) = unat (w_High w) - unat ctr"
    using False by (intro unat_sub) (simp add: not_less)
  show ?thesis
  proof (cases "unat (w_High w) - unat ctr < WindowSize")
    case True
    then have "bit (w_Bitmap w) (unat (w_High w) - unat ctr) \<longleftrightarrow> unat ctr \<in> A"
      using assms le pos by (auto simp: window_rel_def)
    with False True le show ?thesis
      by (auto simp: Check_def d and_single_bit WindowSize_def)
  next
    case False
    with \<open>\<not> (ctr = 0 \<or> w_High w < ctr)\<close> le show ?thesis by (auto simp: Check_def d)
  qed
qed

lemma Mark_above:
  assumes "ctr > w_High w" and "i < 64"
  shows "bit (w_Bitmap (Mark w ctr)) i \<longleftrightarrow>
     i = 0 \<or> (unat ctr - unat (w_High w) \<le> i \<and> bit (w_Bitmap w) (i - (unat ctr - unat (w_High w))))"
proof -
  have nz: "ctr \<noteq> 0" using assms by auto
  have d: "unat (ctr - w_High w) = unat ctr - unat (w_High w)"
    using assms by (intro unat_sub) simp
  show ?thesis
    using assms(2)
    by (auto simp: Mark_def nz assms(1) Let_def d bit_or_iff bit_push_bit_iff bit_1_iff WindowSize_def)
qed

lemma Mark_rel:
  assumes rel: "window_rel w A" and ok: "Check w ctr"
  shows "window_rel (Mark w ctr) (insert (unat ctr) A)"
proof (cases "ctr > w_High w")
  case True
  then have lt: "unat (w_High w) < unat ctr" by (simp add: word_less_nat_alt)
  have nz: "ctr \<noteq> 0" using True by auto
  have above: "unat ctr - i \<notin> A" if "i < unat ctr - unat (w_High w)" for i
    using rel that by (force simp: window_rel_def)
  have "bit (w_Bitmap (Mark w ctr)) i \<longleftrightarrow> unat ctr - i \<in> insert (unat ctr) A"
    if "i < 64" "i < unat ctr" for i
  proof (cases "i < unat ctr - unat (w_High w)")
    case True
    with that above[OF True] show ?thesis
      by (subst Mark_above[OF \<open>w_High w < ctr\<close> that(1)]) auto
  next
    case False
    define j where "j = i - (unat ctr - unat (w_High w))"
    have j: "unat ctr - i = unat (w_High w) - j" "j < 64" "j < unat (w_High w)" "i \<noteq> 0"
      using False lt that by (auto simp: j_def)
    then have "bit (w_Bitmap w) j \<longleftrightarrow> unat ctr - i \<in> A"
      using rel unfolding window_rel_def WindowSize_def by metis
    moreover have "unat ctr - i \<noteq> unat ctr" using j(4) that by simp
    ultimately show ?thesis
      using False j(4) by (subst Mark_above[OF True that(1)]) (simp add: j_def)
  qed
  moreover have "w_High (Mark w ctr) = ctr" by (simp add: Mark_def nz True Let_def)
  moreover have "0 < a \<and> a \<le> unat ctr" if "a \<in> insert (unat ctr) A" for a
    using that rel lt by (force simp: window_rel_def)
  ultimately show ?thesis by (simp add: window_rel_def WindowSize_def)
next
  case False
  have nz: "ctr \<noteq> 0" using ok by (auto simp: Check_def)
  then have le: "unat ctr \<le> unat (w_High w)" and pos: "0 < unat ctr"
    using False by (auto simp: word_le_nat_alt not_less unat_gt_0)
  have d: "unat (w_High w - ctr) = unat (w_High w) - unat ctr"
    using False by (intro unat_sub) (simp add: not_less)
  define j where "j = unat (w_High w) - unat ctr"
  have j: "j < 64" "unat ctr = unat (w_High w) - j" "j < unat (w_High w)"
    using Check_iff[OF rel, of ctr] ok le pos by (auto simp: j_def WindowSize_def)
  then have mark: "Mark w ctr = w\<lparr>w_Bitmap := w_Bitmap w OR 2 ^ j\<rparr>"
    by (simp add: Mark_def nz False d WindowSize_def flip: j_def)
  have "bit (w_Bitmap w OR 2 ^ j) i \<longleftrightarrow> unat (w_High w) - i \<in> insert (unat ctr) A"
    if "i < WindowSize" "i < unat (w_High w)" for i
  proof -
    have "i = j \<longleftrightarrow> unat (w_High w) - i = unat ctr" using that j by linarith
    with that j(1) rel show ?thesis
      unfolding bit_or_iff bit_single window_rel_def insert_iff by metis
  qed
  with rel le pos show ?thesis by (simp add: window_rel_def mark)
qed

subsection \<open>No counter is accepted twice\<close>

lemma receive_rel:
  assumes "window_rel w A"
  shows "window_rel (snd (receive w c)) (if fst (receive w c) then insert (unat c) A else A)"
  using assms Mark_rel[OF assms] by (simp add: receive_def)

lemma accepted_fresh:
  "window_rel w A \<Longrightarrow>
     distinct (accepted w cs) \<and> unat ` set (accepted w cs) \<inter> A = {} \<and> 0 \<notin> set (accepted w cs)"
proof (induction cs arbitrary: w A)
  case (Cons c cs)
  show ?case
  proof (cases "Check w c")
    case True
    have "window_rel (Mark w c) (insert (unat c) A)" by (rule Mark_rel[OF Cons.prems True])
    from Cons.IH[OF this] Check_iff[OF Cons.prems, of c] True show ?thesis
      by (auto simp: receive_def)
  next
    case False
    with Cons show ?thesis by (simp add: receive_def)
  qed
qed simp

fun run_window :: "Window \<Rightarrow> u32 list \<Rightarrow> Window" where
  "run_window w [] = w"
| "run_window w (c # cs) = run_window (snd (receive w c)) cs"

lemma run_window_rel:
  "window_rel w A \<Longrightarrow> window_rel (run_window w cs) (A \<union> unat ` set (accepted w cs))"
proof (induction cs arbitrary: w A)
  case (Cons c cs)
  from Cons.IH[OF receive_rel[OF Cons.prems, of c]] show ?case
    by (cases "Check w c") (simp_all add: receive_def insert_absorb Un_commute)
qed simp

text \<open>C8. Replay protection is exact. Whatever counters a peer's frames carry, in whatever order
  they arrive: (1) no counter is accepted twice and 0 never; and (2) after any history, a
  counter is accepted exactly if it is not 0, was not accepted before, and is less than 64
  below the highest counter seen. So a late frame inside the window is not lost.\<close>
theorem replay_window_exact:
  "distinct (accepted zero_window cs) \<and> 0 \<notin> set (accepted zero_window cs) \<and>
   (Check (run_window zero_window cs) ctr \<longleftrightarrow>
      ctr \<noteq> 0 \<and> ctr \<notin> set (accepted zero_window cs) \<and>
      unat (w_High (run_window zero_window cs)) < unat ctr + WindowSize)"
proof -
  have rel: "window_rel (run_window zero_window cs) (unat ` set (accepted zero_window cs))"
    using run_window_rel[OF window_rel_zero, of cs] by simp
  have "unat ctr \<in> unat ` set (accepted zero_window cs) \<longleftrightarrow> ctr \<in> set (accepted zero_window cs)"
    by (auto dest: unsigned_word_eqI)
  with accepted_fresh[OF window_rel_zero, of cs] Check_iff[OF rel, of ctr] show ?thesis by simp
qed

end
