(* ===== verification/Tokens.thy ===== *)
theory Tokens
  imports Complex_Main Prelude
begin

section \<open>Token buckets: message rate limits and the announce bandwidth budget\<close>

text \<open>
  \<open>internal/ratelimit/limiter.go\<close> (the limiter of access rules and of mesh injection) and
  \<open>internal/routing/bandwidth.go\<close> (the per-interface announce budget). Both are token
  buckets: the locale \<open>token_bucket\<close> states what a take may do, its lemmas bound what any
  schedule of takes can obtain, and both implementations are interpretations of it.

  \<open>float64\<close> token counts are modelled as rationals, so rounding is not modelled; the clock
  reading of each call is an argument.
\<close>

definition Seconds :: "duration \<Rightarrow> rat" where
  "Seconds d = of_int d / 1000000000"

lemma Seconds_mono: "0 \<le> d \<Longrightarrow> 0 \<le> Seconds d"
  by (simp add: Seconds_def)

lemma Seconds_split: "Seconds (c - b) + Seconds (b - a) = Seconds (c - a)"
  by (simp add: Seconds_def diff_divide_distrib)

subsection \<open>The contract of a bucket\<close>

text \<open>The requests of a schedule come in the order of their instants.\<close>

fun ordered :: "instant \<Rightarrow> (instant \<times> 'r) list \<Rightarrow> bool" where
  "ordered t [] \<longleftrightarrow> True"
| "ordered t ((now, r) # rs) \<longleftrightarrow> t \<le> now \<and> ordered now rs"

fun end_of :: "instant \<Rightarrow> (instant \<times> 'r) list \<Rightarrow> instant" where
  "end_of t [] = t"
| "end_of t ((now, r) # rs) = end_of now rs"

fun run_takes :: "('s \<Rightarrow> instant \<Rightarrow> 'r \<Rightarrow> bool \<times> 's) \<Rightarrow> 's \<Rightarrow> (instant \<times> 'r) list \<Rightarrow> 'r list" where
  "run_takes f s [] = []"
| "run_takes f s ((now, r) # rs) =
     (let (ok, s') = f s now r in (if ok then [r] else []) @ run_takes f s' rs)"

fun run_state :: "('s \<Rightarrow> instant \<Rightarrow> 'r \<Rightarrow> bool \<times> 's) \<Rightarrow> 's \<Rightarrow> (instant \<times> 'r) list \<Rightarrow> 's" where
  "run_state f s [] = s"
| "run_state f s ((now, r) # rs) = run_state f (snd (f s now r)) rs"

lemma end_of_mono: "ordered t rs \<Longrightarrow> t \<le> end_of t rs"
  by (induction rs arbitrary: t) (auto intro: order_trans)

locale token_bucket =
  fixes level cap rate :: "'s \<Rightarrow> rat" and last_at :: "'s \<Rightarrow> instant"
    and cost :: "'r \<Rightarrow> rat" and draw :: "'s \<Rightarrow> instant \<Rightarrow> 'r \<Rightarrow> bool \<times> 's"
  assumes draw_ok: "fst (draw s now r) \<longleftrightarrow>
      cost r \<le> min (cap s) (level s + Seconds (now - last_at s) * rate s)"
    and draw_level: "level (snd (draw s now r)) =
      min (cap s) (level s + Seconds (now - last_at s) * rate s) -
        (if fst (draw s now r) then cost r else 0)"
    and draw_last: "last_at (snd (draw s now r)) = now"
    and draw_cap: "cap (snd (draw s now r)) = cap s"
    and draw_rate: "rate (snd (draw s now r)) = rate s"
    and cost_nonneg: "0 \<le> cost r"
begin

definition bucket_inv :: "'s \<Rightarrow> bool" where
  "bucket_inv s \<longleftrightarrow> 0 \<le> level s \<and> level s \<le> cap s \<and> 0 \<le> rate s"

lemma draw_inv:
  assumes "bucket_inv s" and "last_at s \<le> now"
  shows "bucket_inv (snd (draw s now r))"
proof -
  have "0 \<le> Seconds (now - last_at s) * rate s"
    using assms by (simp add: bucket_inv_def Seconds_mono)
  with assms draw_ok[of s now r] cost_nonneg[of r] show ?thesis
    by (auto simp: bucket_inv_def draw_level draw_cap draw_rate)
qed

lemma draw_budget:
  "level (snd (draw s now r)) + (if fst (draw s now r) then cost r else 0)
     \<le> level s + Seconds (now - last_at s) * rate s"
  by (simp add: draw_level)

lemma run_takes_budget:
  assumes "bucket_inv s" and "ordered (last_at s) rs"
  shows "sum_list (map cost (run_takes draw s rs))
    \<le> level s + Seconds (end_of (last_at s) rs - last_at s) * rate s"
  using assms
proof (induction rs arbitrary: s)
  case Nil
  then show ?case by (simp add: Seconds_def bucket_inv_def)
next
  case (Cons p rs)
  obtain now r where p: "p = (now, r)" by fastforce
  let ?s = "snd (draw s now r)"
  have now: "last_at s \<le> now" using Cons.prems p by simp
  have "sum_list (map cost (run_takes draw ?s rs))
      \<le> level ?s + Seconds (end_of now rs - now) * rate s"
    using Cons.IH[OF draw_inv[OF Cons.prems(1) now, of r]] Cons.prems p
    by (simp add: draw_last draw_rate)
  moreover have "Seconds (end_of now rs - last_at s) * rate s =
      Seconds (end_of now rs - now) * rate s + Seconds (now - last_at s) * rate s"
    by (simp only: distrib_right[symmetric] Seconds_split)
  ultimately show ?case
    using draw_budget[of s now r] p by (auto simp: split_def Let_def)
qed

lemma run_state_inv:
  assumes "bucket_inv s" and "ordered (last_at s) rs"
  shows "bucket_inv (run_state draw s rs) \<and>
    last_at (run_state draw s rs) = end_of (last_at s) rs \<and>
    cap (run_state draw s rs) = cap s \<and> rate (run_state draw s rs) = rate s"
  using assms
proof (induction rs arbitrary: s)
  case (Cons p rs)
  obtain now r where p: "p = (now, r)" by fastforce
  with Cons.prems have "last_at s \<le> now" "ordered now rs" by auto
  with Cons.IH[of "snd (draw s now r)"] draw_inv[OF Cons.prems(1)] p show ?case
    by (simp add: draw_last draw_cap draw_rate)
qed simp

text \<open>A refusal never lasts: once enough time has passed, a request within capacity is met.\<close>

lemma draw_eventually:
  assumes "cost r \<le> cap s" and "cost r \<le> level s + Seconds (now - last_at s) * rate s"
  shows "fst (draw s now r)"
  using assms by (simp add: draw_ok)

lemma draw_never:
  assumes "cap s < cost r"
  shows "\<not> fst (draw s now r)"
  using assms by (simp add: draw_ok)

end

subsection \<open>The rate limiter\<close>

record TokenBucket =
  tb_tokens :: rat
  tb_maxTokens :: rat
  tb_refillRate :: rat
  tb_lastRefill :: instant

definition NewTokenBucket :: "rat \<Rightarrow> rat \<Rightarrow> instant \<Rightarrow> TokenBucket" where
  "NewTokenBucket maxTokens refillRate now =
     \<lparr>tb_tokens = maxTokens, tb_maxTokens = maxTokens, tb_refillRate = refillRate,
      tb_lastRefill = now\<rparr>"

definition refill :: "TokenBucket \<Rightarrow> instant \<Rightarrow> TokenBucket" where
  "refill tb now =
     (let elapsed = Seconds (now - tb_lastRefill tb);
          t = tb_tokens tb + elapsed * tb_refillRate tb
      in tb\<lparr>tb_lastRefill := now, tb_tokens := if t > tb_maxTokens tb then tb_maxTokens tb else t\<rparr>)"

definition Allow :: "TokenBucket \<Rightarrow> instant \<Rightarrow> bool \<times> TokenBucket" where
  "Allow tb now =
     (let tb' = refill tb now in
      if tb_tokens tb' \<ge> 1 then (True, tb'\<lparr>tb_tokens := tb_tokens tb' - 1\<rparr>)
      else (False, tb'))"

definition Tokens :: "TokenBucket \<Rightarrow> instant \<Rightarrow> rat \<times> TokenBucket" where
  "Tokens tb now = (let tb' = refill tb now in (tb_tokens tb', tb'))"

definition NewMeshInjectionLimiter :: "instant \<Rightarrow> TokenBucket" where
  "NewMeshInjectionLimiter now = NewTokenBucket 6 (1 / 10) now"

definition NewRuleLimiter :: "int \<Rightarrow> int \<Rightarrow> instant \<Rightarrow> TokenBucket option" where
  "NewRuleLimiter perMin window now =
     (if perMin \<le> 0 \<or> window \<le> 0 then None
      else Some (NewTokenBucket (of_int perMin) (of_int perMin / of_int window) now))"

lemma Allow_laws:
  "fst (Allow tb now) \<longleftrightarrow>
     1 \<le> min (tb_maxTokens tb) (tb_tokens tb + Seconds (now - tb_lastRefill tb) * tb_refillRate tb)"
  "tb_tokens (snd (Allow tb now)) =
     min (tb_maxTokens tb) (tb_tokens tb + Seconds (now - tb_lastRefill tb) * tb_refillRate tb) -
       (if fst (Allow tb now) then 1 else 0)"
  "tb_lastRefill (snd (Allow tb now)) = now"
  "tb_maxTokens (snd (Allow tb now)) = tb_maxTokens tb"
  "tb_refillRate (snd (Allow tb now)) = tb_refillRate tb"
  by (auto simp: Allow_def refill_def Let_def)

interpretation limiter: token_bucket tb_tokens tb_maxTokens tb_refillRate tb_lastRefill
    "\<lambda>_ :: unit. 1" "\<lambda>tb now _. Allow tb now"
  by unfold_locales (rule Allow_laws zero_le_one)+

subsection \<open>The announce bandwidth budget\<close>

definition DefaultBandwidths :: "(string, int) table" where
  "DefaultBandwidths =
     [(''mesh'', 1200), (''rnode'', 1200), (''ax25'', 1200), (''iridium'', 2400),
      (''cellular'', 9600), (''zigbee'', 250000), (''webhook'', 0), (''mqtt'', 0)]"

definition DefaultAnnounceBudgetPct :: int where "DefaultAnnounceBudgetPct = 2"

record announceBucket =
  ab_tokens :: rat
  ab_maxTokens :: rat
  ab_refillRate :: rat
  ab_lastRefill :: instant

record AnnounceBandwidthLimiter =
  buckets :: "(string, announceBucket) table"

definition NewAnnounceBandwidthLimiter :: AnnounceBandwidthLimiter where
  "NewAnnounceBandwidthLimiter = \<lparr>buckets = []\<rparr>"

definition SetBandwidth ::
    "AnnounceBandwidthLimiter \<Rightarrow> string \<Rightarrow> int \<Rightarrow> int \<Rightarrow> instant \<Rightarrow> AnnounceBandwidthLimiter" where
  "SetBandwidth l ifaceID bandwidthBps budgetPct now =
     (if bandwidthBps \<le> 0 \<or> budgetPct \<le> 0 then l\<lparr>buckets := AList.delete ifaceID (buckets l)\<rparr>
      else let rate = of_int bandwidthBps * of_int budgetPct / 100 in
        l\<lparr>buckets := AList.update ifaceID
            \<lparr>ab_tokens = rate, ab_maxTokens = rate, ab_refillRate = rate, ab_lastRefill = now\<rparr>
            (buckets l)\<rparr>)"

definition SetDefaultBandwidth ::
    "AnnounceBandwidthLimiter \<Rightarrow> string \<Rightarrow> string \<Rightarrow> instant \<Rightarrow> AnnounceBandwidthLimiter" where
  "SetDefaultBandwidth l ifaceID channelType now =
     (case map_of DefaultBandwidths channelType of
        None \<Rightarrow> l
      | Some bw \<Rightarrow> if bw \<le> 0 then l else SetBandwidth l ifaceID bw DefaultAnnounceBudgetPct now)"

definition bucket_refill :: "announceBucket \<Rightarrow> instant \<Rightarrow> announceBucket" where
  "bucket_refill b now =
     (let elapsed = Seconds (now - ab_lastRefill b);
          t = ab_tokens b + elapsed * ab_refillRate b
      in b\<lparr>ab_tokens := if t > ab_maxTokens b then ab_maxTokens b else t, ab_lastRefill := now\<rparr>)"

definition bucket_Allow :: "announceBucket \<Rightarrow> instant \<Rightarrow> nat \<Rightarrow> bool \<times> announceBucket" where
  "bucket_Allow b now sizeBytes =
     (let b' = bucket_refill b now; cost = of_nat (sizeBytes * 8) in
      if ab_tokens b' \<ge> cost then (True, b'\<lparr>ab_tokens := ab_tokens b' - cost\<rparr>) else (False, b'))"

definition bandwidth_Allow ::
    "AnnounceBandwidthLimiter \<Rightarrow> instant \<Rightarrow> string \<times> nat \<Rightarrow> bool \<times> AnnounceBandwidthLimiter" where
  "bandwidth_Allow l now = (\<lambda>(ifaceID, sizeBytes).
     case map_of (buckets l) ifaceID of
       None \<Rightarrow> (True, l)
     | Some b \<Rightarrow> let (ok, b') = bucket_Allow b now sizeBytes in
         (ok, l\<lparr>buckets := AList.update ifaceID b' (buckets l)\<rparr>))"

text \<open>Go's conversion of a float to an int drops the fraction.\<close>

definition trunc :: "rat \<Rightarrow> int" where
  "trunc x = (if x < 0 then \<lceil>x\<rceil> else \<lfloor>x\<rfloor>)"

definition Available ::
    "AnnounceBandwidthLimiter \<Rightarrow> instant \<Rightarrow> string \<Rightarrow> int \<times> AnnounceBandwidthLimiter" where
  "Available l now ifaceID =
     (case map_of (buckets l) ifaceID of
        None \<Rightarrow> (-1, l)
      | Some b \<Rightarrow> let b' = bucket_refill b now in
          (trunc (ab_tokens b' / 8), l\<lparr>buckets := AList.update ifaceID b' (buckets l)\<rparr>))"

lemma bucket_Allow_laws:
  "fst (bucket_Allow b now n) \<longleftrightarrow> of_nat (n * 8) \<le>
     min (ab_maxTokens b) (ab_tokens b + Seconds (now - ab_lastRefill b) * ab_refillRate b)"
  "ab_tokens (snd (bucket_Allow b now n)) =
     min (ab_maxTokens b) (ab_tokens b + Seconds (now - ab_lastRefill b) * ab_refillRate b) -
       (if fst (bucket_Allow b now n) then of_nat (n * 8) else 0)"
  "ab_lastRefill (snd (bucket_Allow b now n)) = now"
  "ab_maxTokens (snd (bucket_Allow b now n)) = ab_maxTokens b"
  "ab_refillRate (snd (bucket_Allow b now n)) = ab_refillRate b"
  by (auto simp: bucket_Allow_def bucket_refill_def Let_def)

interpretation budget: token_bucket ab_tokens ab_maxTokens ab_refillRate ab_lastRefill
    "\<lambda>n. of_nat (n * 8)" bucket_Allow
  by unfold_locales (rule bucket_Allow_laws of_nat_0_le_iff)+

subsection \<open>What the limiters guarantee\<close>



text \<open>The traffic of one interface inside a mixed schedule.\<close>

definition on_iface :: "string \<Rightarrow> (instant \<times> string \<times> nat) list \<Rightarrow> (instant \<times> nat) list" where
  "on_iface i rs = map (\<lambda>(t, j, n). (t, n)) (filter (\<lambda>(t, j, n). j = i) rs)"

lemma on_iface_simps [simp]:
  "on_iface i [] = []"
  "on_iface i ((t, j, n) # rs) = (if j = i then (t, n) # on_iface i rs else on_iface i rs)"
  by (simp_all add: on_iface_def)

lemma ordered_later: "ordered t rs \<Longrightarrow> t' \<le> t \<Longrightarrow> ordered t' rs"
  by (cases rs) auto

lemma on_iface_ordered: "ordered t rs \<Longrightarrow> ordered t (on_iface i rs)"
proof (induction rs arbitrary: t)
  case (Cons p rs)
  then show ?case by (cases p) (auto intro: ordered_later)
qed simp

lemma on_iface_end: "ordered t rs \<Longrightarrow> end_of t (on_iface i rs) \<le> end_of t rs"
proof (induction rs arbitrary: t)
  case (Cons p rs)
  obtain now j n where p: "p = (now, j, n)" by (cases p) auto
  have "end_of t xs \<le> end_of now xs" if "t \<le> now" for xs :: "(instant \<times> nat) list"
    using that by (cases xs) auto
  with Cons p show ?case by (auto intro: order_trans)
qed simp

lemma bandwidth_projects:
  "map_of (buckets l) i = Some b \<Longrightarrow>
     map snd (filter (\<lambda>(j, n). j = i) (run_takes bandwidth_Allow l rs)) =
     run_takes bucket_Allow b (on_iface i rs)"
proof (induction rs arbitrary: l b)
  case (Cons p rs)
  obtain now j n where p: "p = (now, j, n)" by (cases p) auto
  show ?case
  proof (cases "map_of (buckets l) j")
    case None
    with Cons p show ?thesis by (auto simp: bandwidth_Allow_def)
  next
    case (Some b')
    let ?l = "snd (bandwidth_Allow l now (j, n))"
    have "map_of (buckets ?l) i = Some (if j = i then snd (bucket_Allow b now n) else b)"
      using Some Cons.prems by (auto simp: bandwidth_Allow_def split_def Let_def update_conv')
    from Cons.IH[OF this] Some Cons.prems p show ?thesis
      by (auto simp: bandwidth_Allow_def split_def Let_def)
  qed
qed simp

text \<open>C20. The announce budget holds per interface, whatever other interfaces do. Over any
  schedule of relay attempts on any interfaces, the announce bits admitted on an interface
  with bucket \<open>b\<close> are at most the tokens it starts with plus its refill rate for the time
  that passes.\<close>
theorem announce_budget_per_interface:
  assumes "map_of (buckets l) i = Some b"
    and "0 \<le> ab_tokens b" "ab_tokens b \<le> ab_maxTokens b" "0 \<le> ab_refillRate b"
    and "ordered (ab_lastRefill b) rs"
  shows "sum_list (map (\<lambda>(j, n). of_nat (n * 8)) (filter (\<lambda>(j, n). j = i) (run_takes bandwidth_Allow l rs)))
    \<le> ab_tokens b + Seconds (end_of (ab_lastRefill b) rs - ab_lastRefill b) * ab_refillRate b"
proof -
  let ?t = "ab_lastRefill b"
  have "map (\<lambda>(j, n). of_nat (n * 8) :: rat) xs = map (\<lambda>n. of_nat (n * 8)) (map snd xs)"
    for xs :: "(string \<times> nat) list"
    by (simp add: split_def comp_def)
  then have "sum_list (map (\<lambda>(j, n). of_nat (n * 8) :: rat)
      (filter (\<lambda>(j, n). j = i) (run_takes bandwidth_Allow l rs)))
    = sum_list (map (\<lambda>n. of_nat (n * 8)) (run_takes bucket_Allow b (on_iface i rs)))"
    by (simp only: bandwidth_projects[OF assms(1)])
  also have "\<dots> \<le> ab_tokens b + Seconds (end_of ?t (on_iface i rs) - ?t) * ab_refillRate b"
    using assms by (intro budget.run_takes_budget on_iface_ordered) (simp_all add: budget.bucket_inv_def)
  also have "\<dots> \<le> ab_tokens b + Seconds (end_of ?t rs - ?t) * ab_refillRate b"
    using on_iface_end[OF assms(5), of i] assms(4)
    by (intro add_left_mono mult_right_mono) (simp_all add: Seconds_def divide_right_mono)
  finally show ?thesis .
qed

theorem announce_budget_per_interface_witness:
  "sum_list (map (\<lambda>(j, n). of_nat (n * 8)) (filter (\<lambda>(j, n). j = ''z'')
      (run_takes bandwidth_Allow (SetDefaultBandwidth NewAnnounceBandwidthLimiter ''z'' ''zigbee'' 0)
        [(5, ''z'', 600), (6, ''x'', 9), (7, ''z'', 600)])))
    \<le> (5000 :: rat) + Seconds 7 * 5000"
  using announce_budget_per_interface[of
      "SetDefaultBandwidth NewAnnounceBandwidthLimiter ''z'' ''zigbee'' 0" "''z''"
      "\<lparr>ab_tokens = 5000, ab_maxTokens = 5000, ab_refillRate = 5000, ab_lastRefill = 0\<rparr>"
      "[(5, ''z'', 600), (6, ''x'', 9), (7, ''z'', 600)]"]
  by (simp add: SetDefaultBandwidth_def DefaultBandwidths_def SetBandwidth_def
      NewAnnounceBandwidthLimiter_def DefaultAnnounceBudgetPct_def)



end
