(* ===== verification/Seen.thy ===== *)
theory Seen
  imports Packet
begin

section \<open>Duplicate suppression: caches of what was seen\<close>

text \<open>
  The two bounded duplicate caches: \<open>internal/dedup/dedup.go\<close> (mesh messages by sender and
  packet id) and the \<open>imtDedup\<close> of \<open>internal/routing/imt_framing.go\<close> (satellite messages by
  hash), and the IMT frame codec of the latter file. Both caches evict their oldest entry
  when full; the locale \<open>seen_cache\<close> states that contract and proves once how long an entry
  is remembered. A Go map is an association list whose order is the iteration order, so the
  choice among equally old entries is left open.
\<close>

subsection \<open>The contract of a cache\<close>

text \<open>The scan for the oldest entry: the first one no later entry of the scan is older than.\<close>

fun scan_oldest :: "('k \<times> instant) option \<Rightarrow> ('k \<times> instant) list \<Rightarrow> ('k \<times> instant) option" where
  "scan_oldest best [] = best"
| "scan_oldest best ((k, t) # es) =
     scan_oldest (case best of None \<Rightarrow> Some (k, t)
       | Some (k', t') \<Rightarrow> if t < t' then Some (k, t) else Some (k', t')) es"

definition evict_oldest :: "('k \<times> instant) list \<Rightarrow> ('k \<times> instant) list" where
  "evict_oldest es = (case scan_oldest None es of None \<Rightarrow> es | Some (k, t) \<Rightarrow> AList.delete k es)"

lemma scan_oldest_Some:
  "\<exists>kt. scan_oldest (Some b) es = Some kt \<and> kt \<in> insert b (set es) \<and>
     (\<forall>e \<in> insert b (set es). snd kt \<le> snd e)"
proof (induction es arbitrary: b)
  case (Cons e es)
  obtain k t k' t' where eb: "e = (k, t)" "b = (k', t')" by (cases e; cases b) auto
  show ?case
    using Cons.IH[of "(k, t)"] Cons.IH[of "(k', t')"] eb by (cases "t < t'") auto
qed auto

lemma scan_oldest_min:
  assumes "es \<noteq> []"
  obtains k t where "scan_oldest None es = Some (k, t)" "(k, t) \<in> set es" "\<And>e. e \<in> set es \<Longrightarrow> t \<le> snd e"
proof -
  obtain k0 t0 es' where es: "es = (k0, t0) # es'" using assms by (cases es) auto
  from scan_oldest_Some[of "(k0, t0)" es'] obtain kt where
    "scan_oldest None es = Some kt" "kt \<in> set es" "\<forall>e \<in> set es. snd kt \<le> snd e"
    by (auto simp: es)
  then show thesis by (cases kt) (auto intro!: that)
qed

datatype 'k event = Arrive instant 'k | Expire instant

lemma length_delete_ok:
  assumes "table_ok es" and "(k, t) \<in> set es"
  shows "Suc (length (AList.delete k es)) = length es"
  using assms
proof (induction es)
  case (Cons e es)
  show ?case
  proof (cases "fst e = k")
    case True
    then have "k \<notin> fst ` set es" using Cons.prems by (auto simp: table_ok_def)
    then show ?thesis using True by (cases e) (simp add: delete_idem)
  next
    case False
    then show ?thesis using Cons by (cases e) (auto simp: table_ok_def)
  qed
qed simp

lemma evict_oldest_ok:
  assumes "table_ok es" and "es \<noteq> []"
  shows "table_ok (evict_oldest es)" "Suc (length (evict_oldest es)) = length es"
proof -
  obtain k t where "scan_oldest None es = Some (k, t)" "(k, t) \<in> set es"
    using scan_oldest_min[OF assms(2)] by metis
  with length_delete_ok[OF assms(1)] assms(1)
  show "table_ok (evict_oldest es)" "Suc (length (evict_oldest es)) = length es"
    by (simp_all add: evict_oldest_def)
qed

lemma set_evict_oldest: "set (evict_oldest es) \<subseteq> set es"
  by (auto simp: evict_oldest_def AList.delete_eq split: option.splits)

text \<open>The entries other than \<open>k\<close> that are not older than \<open>t\<close>: eviction takes \<open>k\<close> only
  after all of them.\<close>

definition rivals :: "'k \<Rightarrow> instant \<Rightarrow> ('k \<times> instant) list \<Rightarrow> nat" where
  "rivals k t es = length (filter (\<lambda>(k', t'). k' \<noteq> k \<and> t \<le> t') es)"

lemma rivals_0: "(\<And>k' t'. (k', t') \<in> set es \<Longrightarrow> k' \<noteq> k \<Longrightarrow> t' < t) \<Longrightarrow> rivals k t es = 0"
  by (force simp: rivals_def filter_empty_conv)

lemma rivals_filter: "rivals k t (filter P es) \<le> rivals k t es"
  unfolding rivals_def by (induction es) auto

lemma rivals_append: "rivals k t (es @ [e]) \<le> Suc (rivals k t es)"
  by (simp add: rivals_def)

lemma rivals_evict: "rivals k t (evict_oldest es) \<le> rivals k t es"
  unfolding evict_oldest_def by (auto simp: AList.delete_eq rivals_filter split: option.splits)

lemma rivals_all:
  assumes "table_ok es" and "(k, t) \<in> set es" and "\<And>e. e \<in> set es \<Longrightarrow> t \<le> snd e"
  shows "Suc (rivals k t es) = length es"
proof -
  have "filter (\<lambda>(k', t'). k' \<noteq> k \<and> t \<le> t') es = AList.delete k es"
    unfolding AList.delete_eq using assms(3) by (intro filter_cong) auto
  with length_delete_ok[OF assms(1,2)] show ?thesis by (simp add: rivals_def)
qed

lemma evict_oldest_spares:
  assumes "table_ok es" and "(k, t) \<in> set es" and "Suc (rivals k t es) < length es"
  shows "(k, t) \<in> set (evict_oldest es)"
proof -
  from assms(2) have "es \<noteq> []" by auto
  then obtain k' t' where old: "scan_oldest None es = Some (k', t')" "(k', t') \<in> set es"
      "\<And>e. e \<in> set es \<Longrightarrow> t' \<le> snd e" using scan_oldest_min by metis
  have "k' \<noteq> k"
  proof
    assume "k' = k"
    then have "t' = t" using assms(1,2) old(2) by (auto simp: table_ok_def dest: eq_key_imp_eq_value)
    with rivals_all[OF assms(1,2)] old(3) assms(3) show False by simp
  qed
  with old assms(2) show ?thesis by (auto simp: evict_oldest_def AList.delete_eq)
qed

lemma update_fresh: "k \<notin> fst ` set es \<Longrightarrow> AList.update k v es = es @ [(k, v)]"
  by (induction es) auto

locale seen_cache =
  fixes entries :: "'s \<Rightarrow> ('k \<times> instant) list" and cap :: "'s \<Rightarrow> nat"
    and arrive :: "'s \<Rightarrow> instant \<Rightarrow> 'k \<Rightarrow> bool \<times> 's" and expire :: "'s \<Rightarrow> instant \<Rightarrow> 's"
    and keep fresh :: "'s \<Rightarrow> instant \<Rightarrow> instant \<Rightarrow> bool"
  assumes arrive_dup: "fst (arrive s now k) \<longleftrightarrow>
      k \<in> fst ` set (filter (\<lambda>(k, t). keep s now t) (entries s))"
    and arrive_seen: "fst (arrive s now k) \<Longrightarrow>
      entries (snd (arrive s now k)) = filter (\<lambda>(k, t). keep s now t) (entries s)"
    and arrive_new: "\<not> fst (arrive s now k) \<Longrightarrow>
      entries (snd (arrive s now k)) = AList.update k now
        (if length (filter (\<lambda>(k, t). keep s now t) (entries s)) \<ge> cap s
         then evict_oldest (filter (\<lambda>(k, t). keep s now t) (entries s))
         else filter (\<lambda>(k, t). keep s now t) (entries s))"
    and expire_entries: "entries (expire s now) = filter (\<lambda>(k, t). fresh s now t) (entries s)"
    and arrive_params: "cap (snd (arrive s now k)) = cap s" "keep (snd (arrive s now k)) = keep s"
      "fresh (snd (arrive s now k)) = fresh s"
    and expire_params: "cap (expire s now) = cap s" "keep (expire s now) = keep s"
      "fresh (expire s now) = fresh s"
begin

definition cache_inv :: "'s \<Rightarrow> bool" where
  "cache_inv s \<longleftrightarrow> table_ok (entries s) \<and> length (entries s) \<le> cap s \<and> 0 < cap s"

fun event_step :: "'s \<Rightarrow> 'k event \<Rightarrow> 's" where
  "event_step s (Arrive now k) = snd (arrive s now k)"
| "event_step s (Expire now) = expire s now"

lemma arrive_entries:
  fixes s now k
  defines "es \<equiv> filter (\<lambda>(k, t). keep s now t) (entries s)"
  defines "base \<equiv> if length es \<ge> cap s then evict_oldest es else es"
  shows "entries (snd (arrive s now k)) = (if k \<in> fst ` set es then es else base @ [(k, now)])"
proof (cases "k \<in> fst ` set es")
  case True
  then show ?thesis using arrive_seen[of s now k] arrive_dup[of s now k] by (simp add: es_def)
next
  case False
  then have "k \<notin> fst ` set base" using set_evict_oldest[of es] by (auto simp: base_def image_iff)
  moreover have "\<not> fst (arrive s now k)" using False unfolding arrive_dup es_def .
  then have "entries (snd (arrive s now k)) = AList.update k now base"
    unfolding es_def base_def by (rule arrive_new)
  ultimately show ?thesis using False by (simp add: update_fresh)
qed

lemma event_step_inv:
  assumes "cache_inv s"
  shows "cache_inv (event_step s e)"
proof (cases e)
  case (Arrive now k)
  let ?es = "filter (\<lambda>(k, t). keep s now t) (entries s)"
  have ok: "table_ok ?es" "length ?es \<le> cap s" "0 < cap s"
    using assms by (auto simp: cache_inv_def intro: order_trans[OF length_filter_le])
  have "table_ok (entries (snd (arrive s now k)))"
  proof (cases "fst (arrive s now k)")
    case False
    have "table_ok (evict_oldest ?es)" if "length ?es \<ge> cap s"
      using that ok by (intro evict_oldest_ok(1)) auto
    with False ok(1) arrive_new[OF False] show ?thesis by (simp split: if_splits)
  qed (use ok arrive_seen in simp)
  moreover have "length (entries (snd (arrive s now k))) \<le> cap s"
    using ok evict_oldest_ok(2)[OF ok(1)] by (cases "?es = []") (auto simp: arrive_entries)
  ultimately show ?thesis using ok Arrive by (simp add: cache_inv_def arrive_params)
next
  case (Expire now)
  then show ?thesis using assms
    by (auto simp: cache_inv_def expire_entries expire_params intro: order_trans[OF length_filter_le])
qed

fun spares :: "'s \<Rightarrow> instant \<Rightarrow> 'k event \<Rightarrow> bool" where
  "spares s t (Arrive now k) \<longleftrightarrow> keep s now t"
| "spares s t (Expire now) \<longleftrightarrow> fresh s now t"

lemma spares_step: "spares (event_step s e) t e' \<longleftrightarrow> spares s t e'"
  by (cases e; cases e') (simp_all add: arrive_params expire_params)

lemma retained_step:
  assumes inv: "cache_inv s" and kt: "(k, t) \<in> set (entries s)" and sp: "spares s t e"
    and riv: "rivals k t (entries s) + (case e of Arrive _ _ \<Rightarrow> 1 | Expire _ \<Rightarrow> 0) < cap s"
  shows "(k, t) \<in> set (entries (event_step s e)) \<and>
    rivals k t (entries (event_step s e)) \<le>
      rivals k t (entries s) + (case e of Arrive _ _ \<Rightarrow> 1 | Expire _ \<Rightarrow> 0)"
proof (cases e)
  case (Expire now)
  with kt sp show ?thesis by (simp add: expire_entries rivals_filter)
next
  case (Arrive now j)
  let ?es = "filter (\<lambda>(k, t). keep s now t) (entries s)"
  have in_es: "(k, t) \<in> set ?es" using kt sp Arrive by simp
  have r: "rivals k t ?es \<le> rivals k t (entries s)" by (rule rivals_filter)
  have tab: "table_ok ?es" using inv by (simp add: cache_inv_def)
  have "(k, t) \<in> set (evict_oldest ?es)" if "cap s \<le> length ?es"
    using evict_oldest_spares[OF tab in_es] riv r that Arrive by simp
  moreover have "rivals k t (evict_oldest ?es @ [(j, now)]) \<le> Suc (rivals k t (entries s))"
    using rivals_append[of k t "evict_oldest ?es" "(j, now)"] rivals_evict[of k t ?es] r by linarith
  moreover have "rivals k t (?es @ [(j, now)]) \<le> Suc (rivals k t (entries s))"
    using rivals_append[of k t ?es "(j, now)"] r by linarith
  ultimately show ?thesis using in_es r Arrive by (auto simp: arrive_entries)
qed

definition arrivals :: "'k event list \<Rightarrow> nat" where
  "arrivals es = length (filter (\<lambda>e. case e of Arrive _ _ \<Rightarrow> True | Expire _ \<Rightarrow> False) es)"

lemma retained:
  assumes "cache_inv s" and "(k, t) \<in> set (entries s)" and "\<forall>e \<in> set es. spares s t e"
    and "rivals k t (entries s) + arrivals es < cap s"
  shows "(k, t) \<in> set (entries (foldl event_step s es)) \<and> cache_inv (foldl event_step s es)
    \<and> keep (foldl event_step s es) = keep s \<and> cap (foldl event_step s es) = cap s"
  using assms
proof (induction es arbitrary: s)
  case (Cons e es)
  have p: "cap (event_step s e) = cap s" "keep (event_step s e) = keep s"
    by (cases e; simp add: arrive_params expire_params)+
  have step: "(k, t) \<in> set (entries (event_step s e))"
      "rivals k t (entries (event_step s e)) + arrivals es < cap s"
    using retained_step[OF Cons.prems(1,2), of e] Cons.prems(3,4) by (cases e; force simp: arrivals_def)+
  from Cons.IH[OF event_step_inv[OF Cons.prems(1)] step(1)] step(2) Cons.prems(3) p
  show ?case by (simp add: spares_step)
qed simp

lemma reported_again:
  assumes "cache_inv s" and "(k, t) \<in> set (entries s)" and "\<forall>e \<in> set es. spares s t e"
    and "rivals k t (entries s) + arrivals es < cap s" and "keep s now t"
  shows "fst (arrive (foldl event_step s es) now k)"
  using retained[OF assms(1-4)] assms(5) unfolding arrive_dup
  by (intro image_eqI[of _ _ "(k, t)"]) auto

lemma reported_iff:
  assumes "cache_inv s" and "(k, t) \<in> set (entries s)" and "\<forall>e \<in> set es. spares s t e"
    and "rivals k t (entries s) + arrivals es < cap s"
  shows "fst (arrive (foldl event_step s es) now k) \<longleftrightarrow> keep s now t"
proof
  assume "fst (arrive (foldl event_step s es) now k)"
  then obtain t' where t': "(k, t') \<in> set (entries (foldl event_step s es))" "keep s now t'"
    using retained[OF assms] unfolding arrive_dup by auto
  then have "t' = t" using retained[OF assms]
    by (auto simp: cache_inv_def table_ok_def dest: eq_key_imp_eq_value)
  with t' show "keep s now t" by simp
qed (rule reported_again[OF assms])

text \<open>A key seen for the first time, later than all others, has no rivals yet.\<close>

lemma first_seen:
  assumes "\<not> fst (arrive s t k)" and "\<And>k' t'. (k', t') \<in> set (entries s) \<Longrightarrow> t' < t"
  shows "(k, t) \<in> set (entries (snd (arrive s t k))) \<and> rivals k t (entries (snd (arrive s t k))) = 0"
proof -
  let ?es = "filter (\<lambda>(k, t'). keep s t t') (entries s)"
  have new: "entries (snd (arrive s t k)) =
      (if length ?es \<ge> cap s then evict_oldest ?es else ?es) @ [(k, t)]"
    using assms(1) unfolding arrive_dup by (simp add: arrive_entries)
  have "t' < t" if "(k', t') \<in> set (entries (snd (arrive s t k)))" "k' \<noteq> k" for k' t'
    using that set_evict_oldest[of ?es] assms(2)[of k' t'] unfolding new by (auto split: if_splits)
  then show ?thesis using rivals_0[of "entries (snd (arrive s t k))" k t] new by auto
qed

end

subsection \<open>Mesh message deduplication (dedup.go)\<close>

text \<open>The composite key is the two numbers in decimal, separated by a colon.\<close>

fun decimal :: "nat \<Rightarrow> string" where
  "decimal n = (if n < 10 then [char_of (48 + n)] else decimal (n div 10) @ [char_of (48 + n mod 10)])"

declare decimal.simps [simp del]

definition message_key :: "u32 \<Rightarrow> u32 \<Rightarrow> string" where
  "message_key sender packetID = decimal (unat sender) @ '':'' @ decimal (unat packetID)"

record Deduplicator =
  d_seen :: "(string, instant) table"
  d_ttl :: duration
  d_maxSize :: nat

definition NewDeduplicator :: "duration \<Rightarrow> int \<Rightarrow> Deduplicator" where
  "NewDeduplicator ttl maxSize =
     \<lparr>d_seen = [], d_ttl = (if ttl \<le> 0 then 600000000000 else ttl),
      d_maxSize = (if maxSize \<le> 0 then 10000 else nat maxSize)\<rparr>"

definition dedup_arrive :: "Deduplicator \<Rightarrow> instant \<Rightarrow> string \<Rightarrow> bool \<times> Deduplicator" where
  "dedup_arrive d now key =
     (case map_of (d_seen d) key of
        Some _ \<Rightarrow> (True, d)
      | None \<Rightarrow>
          let seen = (if length (d_seen d) \<ge> d_maxSize d then evict_oldest (d_seen d) else d_seen d)
          in (False, d\<lparr>d_seen := AList.update key now seen\<rparr>))"

definition IsDuplicate :: "Deduplicator \<Rightarrow> instant \<Rightarrow> u32 \<Rightarrow> u32 \<Rightarrow> bool \<times> Deduplicator" where
  "IsDuplicate d now sender packetID = dedup_arrive d now (message_key sender packetID)"

definition Size :: "Deduplicator \<Rightarrow> nat" where
  "Size d = length (d_seen d)"

definition prune :: "Deduplicator \<Rightarrow> instant \<Rightarrow> nat \<times> Deduplicator" where
  "prune d now =
     (let cutoff = now - d_ttl d;
          d' = d\<lparr>d_seen := filter (\<lambda>(k, t). \<not> t < cutoff) (d_seen d)\<rparr>
      in (length (filter (\<lambda>(k, t). t < cutoff) (d_seen d)), d'))"

lemma char_of_digit: "n < 10 \<Longrightarrow> m < 10 \<Longrightarrow> char_of (48 + n) = (char_of (48 + m) :: char) \<longleftrightarrow> n = (m :: nat)"
  by (simp add: char_of_eq_iff take_bit_eq_mod)

lemma decimal_no_colon: "CHR '':'' \<notin> set (decimal n)"
proof (induction n rule: decimal.induct)
  case (1 n)
  have "CHR '':'' \<noteq> char_of (48 + m)" if "m < 10" for m :: nat
    using that char_of_eq_iff[of "48 + m" "CHR '':''"] by (auto simp: take_bit_eq_mod)
  with 1 show ?case by (subst decimal.simps) simp
qed

lemma decimal_nonempty: "decimal n \<noteq> []"
  by (subst decimal.simps) simp

lemma decimal_inj: "decimal n = decimal m \<Longrightarrow> n = m"
proof (induction n arbitrary: m rule: decimal.induct)
  case (1 n)
  show ?case
  proof (cases "n < 10"; cases "m < 10")
    assume "\<not> n < 10" "\<not> m < 10"
    with 1(2) have "decimal (n div 10) = decimal (m div 10)"
      and "char_of (48 + n mod 10) = (char_of (48 + m mod 10) :: char)"
      by (subst (asm) (1 2) decimal.simps, simp)+
    with 1(1)[OF \<open>\<not> n < 10\<close>] have "n div 10 = m div 10" "n mod 10 = m mod 10"
      by (simp_all add: char_of_digit)
    then show "n = m" by (metis div_mult_mod_eq)
  qed (use 1(2) in \<open>subst (asm) (1 2) decimal.simps; simp add: char_of_digit decimal_nonempty
        append_eq_Cons_conv Cons_eq_append_conv\<close>)+
qed

lemma split_at_unique:
  "x \<notin> set as \<Longrightarrow> x \<notin> set bs \<Longrightarrow> as @ x # cs = bs @ x # ds \<Longrightarrow> as = bs \<and> cs = ds"
proof (induction as arbitrary: bs)
  case Nil
  then show ?case by (cases bs) auto
next
  case (Cons a as)
  then show ?case by (cases bs) auto
qed

lemma message_key_inj: "message_key s p = message_key s' p' \<longleftrightarrow> s = s' \<and> p = p'"
proof
  assume "message_key s p = message_key s' p'"
  then have "decimal (unat s) = decimal (unat s') \<and> decimal (unat p) = decimal (unat p')"
    unfolding message_key_def
    by (intro split_at_unique[of "CHR '':''"]) (simp_all add: decimal_no_colon)
  then show "s = s' \<and> p = p'" by (auto dest!: decimal_inj unsigned_word_eqI)
qed simp

interpretation dedup: seen_cache d_seen d_maxSize dedup_arrive "\<lambda>d now. snd (prune d now)"
    "\<lambda>d now t. True" "\<lambda>d now t. \<not> t < now - d_ttl d"
  by unfold_locales
    (auto simp: dedup_arrive_def prune_def Let_def fun_eq_iff dom_map_of_conv_image_fst[symmetric]
      dom_def split: option.splits)

fun dedup_event :: "Deduplicator \<Rightarrow> (u32 \<times> u32) event \<Rightarrow> Deduplicator" where
  "dedup_event d (Arrive now (s, p)) = snd (IsDuplicate d now s p)"
| "dedup_event d (Expire now) = snd (prune d now)"

lemma dedup_event_step:
  "dedup_event d e = dedup.event_step d (map_event (\<lambda>(s, p). message_key s p) e)"
  by (cases "(d, e)" rule: dedup_event.cases) (simp_all add: IsDuplicate_def)

lemma dedup_events:
  "foldl dedup_event d es = foldl dedup.event_step d (map (map_event (\<lambda>(s, p). message_key s p)) es)"
  by (induction es arbitrary: d) (simp_all add: dedup_event_step)

text \<open>Whether a prune spares entries of instant \<open>t\<close>.\<close>

fun prune_spares :: "duration \<Rightarrow> instant \<Rightarrow> 'k event \<Rightarrow> bool" where
  "prune_spares ttl t (Arrive now k) \<longleftrightarrow> True"
| "prune_spares ttl t (Expire now) \<longleftrightarrow> now \<le> t + ttl"

fun is_arrival :: "'k event \<Rightarrow> bool" where
  "is_arrival (Arrive now k) \<longleftrightarrow> True"
| "is_arrival (Expire now) \<longleftrightarrow> False"

lemma arrivals_count: "dedup.arrivals (map (map_event f) es) = length (filter is_arrival es)"
proof (induction es)
  case (Cons e es)
  then show ?case by (cases e) (simp_all add: dedup.arrivals_def)
qed (simp add: dedup.arrivals_def)

text \<open>C22. A repeated mesh message is recognised, with bounded memory. Take any cache within its
  bound, and a message new to it that arrives at \<open>t\<close>, later than everything the cache holds.
  As long as fewer than \<open>maxSize\<close> further messages arrive and the pruner runs at most the
  time-to-live after \<open>t\<close>, the same sender and packet id is reported a duplicate whenever it
  comes again, and the cache stays within its bound.\<close>
theorem dedup_remembers:
  assumes "table_ok (d_seen d)" and "length (d_seen d) \<le> d_maxSize d" and "0 < d_maxSize d"
    and "\<And>k t'. (k, t') \<in> set (d_seen d) \<Longrightarrow> t' < t"
    and "\<not> fst (IsDuplicate d t sender packetID)"
    and "length (filter is_arrival es) < d_maxSize d"
    and "\<And>e. e \<in> set es \<Longrightarrow> prune_spares (d_ttl d) t e"
  shows "let d' = foldl dedup_event (snd (IsDuplicate d t sender packetID)) es in
     fst (IsDuplicate d' now sender packetID) \<and> Size d' \<le> d_maxSize d"
proof -
  let ?k = "message_key sender packetID"
  let ?d = "snd (IsDuplicate d t sender packetID)"
  let ?es = "map (map_event (\<lambda>(s, p). message_key s p)) es"
  have inv: "dedup.cache_inv ?d"
    using dedup.event_step_inv[of d "Arrive t ?k"] assms(1-3)
    by (simp add: dedup.cache_inv_def IsDuplicate_def)
  have first: "(?k, t) \<in> set (d_seen ?d)" "rivals ?k t (d_seen ?d) = 0"
    using dedup.first_seen[of d t ?k] assms(4,5) by (auto simp: IsDuplicate_def)
  have par: "d_maxSize ?d = d_maxSize d" "d_ttl ?d = d_ttl d"
    by (simp_all add: IsDuplicate_def dedup_arrive_def Let_def split: option.splits)
  have riv: "rivals ?k t (d_seen ?d) + dedup.arrivals ?es < d_maxSize ?d"
    using assms(6) by (simp add: arrivals_count par first)
  have sp: "\<forall>e \<in> set ?es. dedup.spares ?d t e"
  proof
    fix e assume "e \<in> set ?es"
    then obtain e' where "e' \<in> set es" "e = map_event (\<lambda>(s, p). message_key s p) e'" by auto
    with assms(7)[of e'] show "dedup.spares ?d t e" by (cases e') (auto simp: par)
  qed
  from dedup.reported_again[OF inv first(1) sp riv] dedup.retained[OF inv first(1) sp riv] par
  show ?thesis by (simp add: dedup_events IsDuplicate_def Size_def dedup.cache_inv_def)
qed

theorem dedup_remembers_witness:
  "let d' = foldl dedup_event (snd (IsDuplicate (NewDeduplicator 0 3) 10 1 2))
       [Arrive 11 (1, 3), Expire 12, Arrive 13 (4, 2)] in
     fst (IsDuplicate d' 20 1 2) \<and> Size d' \<le> 3"
proof -
  let ?es = "[Arrive 11 (1, 3), Expire 12, Arrive 13 (4, 2)]"
  have m: "d_maxSize (NewDeduplicator 0 3) = 3" by (simp add: NewDeduplicator_def)
  have "let d' = foldl dedup_event (snd (IsDuplicate (NewDeduplicator 0 3) 10 1 2)) ?es in
     fst (IsDuplicate d' 20 1 2) \<and> Size d' \<le> d_maxSize (NewDeduplicator 0 3)"
    by (rule dedup_remembers) (auto simp: NewDeduplicator_def IsDuplicate_def dedup_arrive_def)
  then show ?thesis unfolding m .
qed

subsection \<open>Satellite frames (imt_framing.go)\<close>

definition IMTFrameMagic :: bytes where "IMTFrameMagic = [0x52, 0x4E, 0x53, 0x49]"
definition IMTFrameVersion :: byte where "IMTFrameVersion = 1"
definition imtFrameHdrLen :: nat where "imtFrameHdrLen = 5"
definition IMTFrameHeader :: bytes where "IMTFrameHeader = IMTFrameMagic @ [IMTFrameVersion]"

lemmas imt_consts = IMTFrameMagic_def IMTFrameVersion_def imtFrameHdrLen_def IMTFrameHeader_def

datatype imt_error = ErrIMTFrameVersion | ErrIMTFrameEmpty | ErrIMTFrameMissing

definition EncodeIMTFrame :: "bytes \<Rightarrow> bytes" where
  "EncodeIMTFrame packet = IMTFrameHeader @ packet"

definition DecodeIMTFrame :: "bytes \<Rightarrow> bool \<Rightarrow> (imt_error + bytes) \<times> bool" where
  "DecodeIMTFrame data strict =
     (if length data < length IMTFrameMagic \<or> take (length IMTFrameMagic) data \<noteq> IMTFrameMagic then
        (if strict then (Inl ErrIMTFrameMissing, False) else (Inr data, False))
      else if length data < imtFrameHdrLen then (Inl ErrIMTFrameEmpty, True)
      else if data ! 4 \<noteq> IMTFrameVersion then (Inl ErrIMTFrameVersion, True)
      else
        let rest = drop imtFrameHdrLen data in
        if rest = [] then (Inl ErrIMTFrameEmpty, True)
        else if \<not> strict \<and> (case UnmarshalHeader rest of Inl _ \<Rightarrow> True | Inr _ \<Rightarrow> False)
        then (Inr data, False)
        else (Inr rest, True))"

record imtDedup =
  i_seen :: "(bytes, instant) table"
  i_ttl :: duration
  i_max :: nat

definition newIMTDedup :: "duration \<Rightarrow> nat \<Rightarrow> imtDedup" where
  "newIMTDedup ttl mx = \<lparr>i_seen = [], i_ttl = ttl, i_max = mx\<rparr>"

definition imt_expire :: "imtDedup \<Rightarrow> instant \<Rightarrow> imtDedup" where
  "imt_expire d now = d\<lparr>i_seen := filter (\<lambda>(k, t). \<not> now - t > i_ttl d) (i_seen d)\<rparr>"

definition imt_arrive :: "imtDedup \<Rightarrow> instant \<Rightarrow> bytes \<Rightarrow> bool \<times> imtDedup" where
  "imt_arrive d now h =
     (let d = imt_expire d now in
      case map_of (i_seen d) h of
        Some _ \<Rightarrow> (True, d)
      | None \<Rightarrow>
          let seen = (if length (i_seen d) \<ge> i_max d then evict_oldest (i_seen d) else i_seen d)
          in (False, d\<lparr>i_seen := AList.update h now seen\<rparr>))"

definition imt_Seen :: "(bytes \<Rightarrow> bytes) \<Rightarrow> imtDedup \<Rightarrow> bytes \<Rightarrow> instant \<Rightarrow> bool \<times> imtDedup" where
  "imt_Seen sha256 d data now = imt_arrive d now (sha256 data)"

lemma imt_arrive_alt:
  "imt_arrive d now h =
     (let es = filter (\<lambda>(k, t). \<not> now - t > i_ttl d) (i_seen d) in
      if h \<in> fst ` set es then (True, d\<lparr>i_seen := es\<rparr>)
      else (False, d\<lparr>i_seen := AList.update h now (if length es \<ge> i_max d then evict_oldest es else es)\<rparr>))"
proof (cases "map_of (filter (\<lambda>(k, t). \<not> now - t > i_ttl d) (i_seen d)) h")
  case None
  then have "h \<notin> fst ` set (filter (\<lambda>(k, t). \<not> now - t > i_ttl d) (i_seen d))"
    by (simp only: map_of_eq_None_iff not_False_eq_True)
  with None show ?thesis by (simp add: imt_arrive_def imt_expire_def Let_def del: set_filter)
next
  case (Some v)
  then have "h \<in> fst ` set (filter (\<lambda>(k, t). \<not> now - t > i_ttl d) (i_seen d))"
    by (metis map_of_SomeD fst_conv image_eqI)
  with Some show ?thesis by (simp add: imt_arrive_def imt_expire_def Let_def del: set_filter)
qed

interpretation imt: seen_cache i_seen i_max imt_arrive imt_expire
    "\<lambda>d now t. \<not> now - t > i_ttl d" "\<lambda>d now t. \<not> now - t > i_ttl d"
  by unfold_locales
    (simp_all add: imt_arrive_alt imt_expire_def Let_def fun_eq_iff del: set_filter split: if_splits)

text \<open>C23. A satellite message is delivered once per window. After a message was delivered at
  \<open>t\<close>, later than everything the cache holds, its repeats within the time-to-live are
  recognised for as long as fewer than \<open>max\<close> other messages have arrived, all of them within
  the time-to-live of \<open>t\<close> too; once the time-to-live has passed it is delivered again.\<close>
theorem imt_delivers_once_per_window:
  assumes "table_ok (i_seen d)" and "length (i_seen d) \<le> i_max d" and "0 < i_max d" and "0 \<le> i_ttl d"
    and "\<And>k t'. (k, t') \<in> set (i_seen d) \<Longrightarrow> t' < t"
    and "\<not> fst (imt_Seen sha256 d data t)"
    and "length others < i_max d" and "\<And>t' x. (t', x) \<in> set others \<Longrightarrow> t' - t \<le> i_ttl d"
  shows "let d' = foldl (\<lambda>d (t', x). snd (imt_Seen sha256 d x t')) (snd (imt_Seen sha256 d data t)) others in
     fst (imt_Seen sha256 d' data now) \<longleftrightarrow> now - t \<le> i_ttl d"
proof -
  let ?k = "sha256 data"
  let ?d = "snd (imt_Seen sha256 d data t)"
  let ?es = "map (\<lambda>(t', x). Arrive t' (sha256 x)) others"
  have inv: "imt.cache_inv ?d"
    using imt.event_step_inv[of d "Arrive t ?k"] assms(1-3)
    by (simp add: imt.cache_inv_def imt_Seen_def)
  have first: "(?k, t) \<in> set (i_seen ?d)" "rivals ?k t (i_seen ?d) = 0"
    using imt.first_seen[of d t ?k] assms(5,6) by (auto simp: imt_Seen_def)
  have par: "i_max ?d = i_max d" "i_ttl ?d = i_ttl d"
    by (simp_all add: imt_Seen_def imt_arrive_alt Let_def)
  have "imt.arrivals ?es = length others"
    by (induction others) (auto simp: imt.arrivals_def)
  with assms(7) have riv: "rivals ?k t (i_seen ?d) + imt.arrivals ?es < i_max ?d"
    by (simp add: par first)
  have sp: "\<forall>e \<in> set ?es. imt.spares ?d t e" using assms(8) by (fastforce simp: par)
  have fold: "foldl (\<lambda>d (t', x). snd (imt_Seen sha256 d x t')) d0 others = foldl imt.event_step d0 ?es" for d0
    by (induction others arbitrary: d0) (auto simp: imt_Seen_def)
  show ?thesis
    using imt.reported_iff[OF inv first(1) sp riv, of now] par
    by (simp add: fold not_less) (simp add: imt_Seen_def)
qed

theorem imt_delivers_once_per_window_witness:
  "let d' = foldl (\<lambda>d (t', x). snd (imt_Seen (\<lambda>b. b) d x t'))
       (snd (imt_Seen (\<lambda>b. b) (newIMTDedup 100 3) [1, 2] 5)) [(6, [3]), (7, [4])] in
     fst (imt_Seen (\<lambda>b. b) d' [1, 2] 90) \<longleftrightarrow> (90 :: int) - 5 \<le> 100"
proof -
  have m: "i_ttl (newIMTDedup 100 3) = 100" by (simp add: newIMTDedup_def)
  have "let d' = foldl (\<lambda>d (t', x). snd (imt_Seen (\<lambda>b. b) d x t'))
       (snd (imt_Seen (\<lambda>b. b) (newIMTDedup 100 3) [1, 2] 5)) [(6, [3]), (7, [4])] in
     fst (imt_Seen (\<lambda>b. b) d' [1, 2] 90) \<longleftrightarrow> 90 - 5 \<le> i_ttl (newIMTDedup 100 3)"
    by (rule imt_delivers_once_per_window)
      (auto simp: newIMTDedup_def imt_Seen_def imt_arrive_alt Let_def)
  then show ?thesis unfolding m .
qed

text \<open>Framing a packet for a satellite peer is invisible to either kind of receiver: a strict
  receiver gets back every non-empty packet, a lenient one every packet with a valid
  Reticulum header; and a lenient receiver passes everything without the magic unchanged.\<close>
theorem imt_frame_roundtrip:
  "(packet \<noteq> [] \<longrightarrow> DecodeIMTFrame (EncodeIMTFrame packet) True = (Inr packet, True)) \<and>
   (\<forall>h. UnmarshalHeader packet = Inr h \<longrightarrow> DecodeIMTFrame (EncodeIMTFrame packet) False = (Inr packet, True)) \<and>
   (take 4 data \<noteq> IMTFrameMagic \<longrightarrow> DecodeIMTFrame data False = (Inr data, False))"
proof -
  have "packet \<noteq> []" if "UnmarshalHeader packet = Inr h" for h
    using that by (auto simp: UnmarshalHeader_def rns_sizes)
  then have "(packet \<noteq> [] \<longrightarrow> DecodeIMTFrame (EncodeIMTFrame packet) True = (Inr packet, True)) \<and>
    (\<forall>h. UnmarshalHeader packet = Inr h \<longrightarrow> DecodeIMTFrame (EncodeIMTFrame packet) False = (Inr packet, True))"
    by (auto simp: DecodeIMTFrame_def EncodeIMTFrame_def imt_consts)
  moreover have "length IMTFrameMagic = 4" by (simp add: imt_consts)
  ultimately show ?thesis by (simp add: DecodeIMTFrame_def)
qed

theorem imt_frame_roundtrip_witness:
  "DecodeIMTFrame (EncodeIMTFrame [7, 8, 9]) True = (Inr [7, 8, 9], True)"
  using imt_frame_roundtrip[of "[7, 8, 9]" "[]"] by simp

text \<open>C24. A lenient receiver can misread a bare packet. There is a well-formed bare Reticulum packet
  that starts with the frame header, whose remainder happens to parse: it is delivered with
  its first five bytes cut off. The code comment rules this out.\<close>
theorem imt_bare_packet_misread:
  "\<exists>data h. UnmarshalHeader data = Inr h \<and> header_ok h \<and> MarshalHeader h = data \<and>
     DecodeIMTFrame data False = (Inr (drop 5 data), True)"
proof -
  let ?data = "[0x52, 0x4E, 0x53, 0x49, 1] @ replicate 35 (0 :: byte)"
  have clean: "clean_wire ?data" by (simp add: clean_wire_def)
  have "\<exists>h. UnmarshalHeader ?data = Inr h"
    by (simp add: UnmarshalHeader_def rns_sizes UnpackFlags_def empty_header_def Let_def
        split: prod.splits)
  then obtain h where h: "UnmarshalHeader ?data = Inr h" ..
  with header.enc_dec[OF clean h] have "header_ok h" "MarshalHeader h = ?data" by simp_all
  moreover have "DecodeIMTFrame ?data False = (Inr (drop 5 ?data), True)"
    by (simp add: DecodeIMTFrame_def imt_consts UnmarshalHeader_def rns_sizes UnpackFlags_def
        empty_header_def HeaderType2_def Let_def)
  ultimately show ?thesis using h by blast
qed

end
