(* ===== verification/Announces.thy ===== *)
theory Announces
  imports Packet
begin

unbundle bit_operations_syntax

section \<open>Identities, announces and delivery proofs\<close>

text \<open>
  \<open>internal/reticulum/identity.go\<close> (destination hashes and signature checks),
  \<open>announce.go\<close> (the announce payload and packets), \<open>proof.go\<close> (delivery proofs) and the
  bridge's wrapper \<open>internal/routing/announce.go\<close>. SHA-256 and Ed25519 are arguments
  (\<open>sha256\<close>, \<open>sign\<close>, \<open>verify\<close>); what the lemmas need of them is stated in \<open>sha_ok\<close> and
  \<open>sig_ok\<close>. A parsed X25519 public key is its 32 bytes, a \<open>nil\<close> key is \<open>None\<close>.
\<close>

subsection \<open>Sizes (constants.go)\<close>

definition NameHashLen :: nat where "NameHashLen = 10"
definition SignatureLen :: nat where "SignatureLen = 64"
definition IdentityKeySize :: nat where "IdentityKeySize = 64"
definition EncryptionPubLen :: nat where "EncryptionPubLen = 32"
definition SigningPubLen :: nat where "SigningPubLen = 32"
definition RatchetKeyLen :: nat where "RatchetKeyLen = 32"
definition RandomHashLen :: nat where "RandomHashLen = 10"
definition TransportBroadcast :: byte where "TransportBroadcast = 0"
definition ContextNone :: byte where "ContextNone = 0"

definition AnnounceMinPayload :: nat where
  "AnnounceMinPayload = IdentityKeySize + NameHashLen + RandomHashLen + SignatureLen"

definition AnnounceRatchetPayload :: nat where
  "AnnounceRatchetPayload = AnnounceMinPayload + RatchetKeyLen"

lemmas announce_sizes = NameHashLen_def SignatureLen_def IdentityKeySize_def EncryptionPubLen_def
  SigningPubLen_def RatchetKeyLen_def RandomHashLen_def AnnounceMinPayload_def
  AnnounceRatchetPayload_def

datatype announce_error =
  ErrHeader packet_error | ErrInvalidFlag | ErrAnnounceTooShort | ErrPublicKeySize
  | ErrX25519Key | ErrDestHashMismatch | ErrAnnounceSignature | ErrRandom

subsection \<open>Identities (identity.go)\<close>

record 'k Identity =
  id_encryptionPub :: bytes
  id_signingKey :: 'k
  id_signingPub :: bytes

definition PublicBytes :: "'k Identity \<Rightarrow> bytes" where
  "PublicBytes i = id_encryptionPub i @ id_signingPub i"

definition Sign :: "('k \<Rightarrow> bytes \<Rightarrow> bytes) \<Rightarrow> 'k Identity \<Rightarrow> bytes \<Rightarrow> bytes" where
  "Sign sign i data = sign (id_signingKey i) data"

definition ComputeIdentityHash :: "(bytes \<Rightarrow> bytes) \<Rightarrow> bytes \<Rightarrow> bytes \<Rightarrow> bytes" where
  "ComputeIdentityHash sha256 encPub sigPub = take TruncatedHashLen (sha256 (encPub @ sigPub))"

definition IdentityHash :: "(bytes \<Rightarrow> bytes) \<Rightarrow> 'k Identity \<Rightarrow> bytes" where
  "IdentityHash sha256 i = ComputeIdentityHash sha256 (id_encryptionPub i) (id_signingPub i)"

definition ComputeNameHash :: "(bytes \<Rightarrow> bytes) \<Rightarrow> bytes \<Rightarrow> bytes" where
  "ComputeNameHash sha256 name = take NameHashLen (sha256 name)"

definition ComputeDestHash :: "(bytes \<Rightarrow> bytes) \<Rightarrow> bytes \<Rightarrow> bytes \<Rightarrow> bytes" where
  "ComputeDestHash sha256 nameHash identityHash = take TruncatedHashLen (sha256 (nameHash @ identityHash))"

definition DestHash :: "(bytes \<Rightarrow> bytes) \<Rightarrow> 'k Identity \<Rightarrow> bytes \<Rightarrow> bytes" where
  "DestHash sha256 i appName =
     ComputeDestHash sha256 (ComputeNameHash sha256 appName) (IdentityHash sha256 i)"

definition VerifySignature :: "(bytes \<Rightarrow> bytes \<Rightarrow> bytes \<Rightarrow> bool) \<Rightarrow> bytes \<Rightarrow> bytes \<Rightarrow> bytes \<Rightarrow> bool" where
  "VerifySignature verify pubKey data signature =
     (if length pubKey \<noteq> SigningPubLen \<or> length signature \<noteq> SignatureLen then False
      else verify pubKey data signature)"

text \<open>\<open>ecdh.X25519().NewPublicKey\<close> accepts any 32 bytes.\<close>

definition ParsePublicKeys :: "bytes \<Rightarrow> announce_error + bytes \<times> bytes" where
  "ParsePublicKeys pub =
     (if length pub \<noteq> IdentityKeySize then Inl ErrPublicKeySize
      else let e = take EncryptionPubLen pub in
        if length e \<noteq> 32 then Inl ErrX25519Key else Inr (e, drop EncryptionPubLen pub))"

subsection \<open>Announces (announce.go)\<close>

record Announce =
  a_DestHash :: bytes
  a_Hops :: byte
  a_ContextFlag :: byte
  a_Context :: byte
  a_PublicKey :: bytes
  a_NameHash :: bytes
  a_Random :: bytes
  a_Ratchet :: bytes
  a_Signature :: bytes
  a_AppData :: bytes
  a_encPub :: "bytes option"
  a_sigPub :: "bytes option"

definition un_be :: "bytes \<Rightarrow> u64" where
  "un_be bs = foldl (\<lambda>acc b. push_bit 8 acc OR ucast b) 0 bs"

definition putUint40 :: "u64 \<Rightarrow> bytes" where
  "putUint40 v = drop 3 (be64 v)"

definition getUint40 :: "bytes \<Rightarrow> u64" where
  "getUint40 b = un_be ([0, 0, 0] @ take 5 b)"

definition signableBody :: "Announce \<Rightarrow> bytes" where
  "signableBody a = a_DestHash a @ a_PublicKey a @ a_NameHash a @ a_Random a
     @ (if a_ContextFlag a \<noteq> 0 then a_Ratchet a else []) @ a_AppData a"

definition MarshalPayload :: "Announce \<Rightarrow> bytes" where
  "MarshalPayload a = a_PublicKey a @ a_NameHash a @ a_Random a
     @ (if a_ContextFlag a \<noteq> 0 then a_Ratchet a else []) @ a_Signature a @ a_AppData a"

definition MarshalPacket :: "Announce \<Rightarrow> bytes" where
  "MarshalPacket a = MarshalHeader (empty_header\<lparr>h_HeaderType := HeaderType1,
     h_ContextFlag := a_ContextFlag a, h_TransportType := TransportBroadcast,
     h_DestType := DestSingle, h_PacketType := PacketAnnounce, h_Hops := a_Hops a,
     h_DestHash := a_DestHash a, h_Context := a_Context a, h_Data := MarshalPayload a\<rparr>)"

definition MarshalPacketTransport :: "Announce \<Rightarrow> bytes \<Rightarrow> byte \<Rightarrow> byte \<Rightarrow> bytes" where
  "MarshalPacketTransport a transportID hops ctx = MarshalHeader (empty_header\<lparr>
     h_HeaderType := HeaderType2,
     h_ContextFlag := a_ContextFlag a, h_TransportType := TransportTransport,
     h_DestType := DestSingle, h_PacketType := PacketAnnounce, h_Hops := hops,
     h_TransportID := transportID, h_DestHash := a_DestHash a, h_Context := ctx,
     h_Data := MarshalPayload a\<rparr>)"

text \<open>The five random bytes (\<open>None\<close> if the source fails) and the clock are arguments.\<close>

definition NewAnnounce ::
    "(bytes \<Rightarrow> bytes) \<Rightarrow> ('k \<Rightarrow> bytes \<Rightarrow> bytes) \<Rightarrow> 'k Identity \<Rightarrow> bytes \<Rightarrow> bytes \<Rightarrow> bytes option \<Rightarrow> u64
     \<Rightarrow> announce_error + Announce" where
  "NewAnnounce sha256 sign i appName appData rnd unixNow =
     (let a = \<lparr>a_DestHash = DestHash sha256 i appName, a_Hops = 0, a_ContextFlag = 0, a_Context = 0,
        a_PublicKey = PublicBytes i, a_NameHash = ComputeNameHash sha256 appName,
        a_Random = replicate RandomHashLen 0, a_Ratchet = replicate RatchetKeyLen 0,
        a_Signature = [], a_AppData = appData,
        a_encPub = Some (id_encryptionPub i), a_sigPub = Some (id_signingPub i)\<rparr>
      in case rnd of
        None \<Rightarrow> Inl ErrRandom
      | Some r \<Rightarrow>
          let a = a\<lparr>a_Random := r @ putUint40 unixNow\<rparr>
          in Inr (a\<lparr>a_Signature := Sign sign i (signableBody a)\<rparr>))"

definition EmittedAt :: "Announce \<Rightarrow> int option" where
  "EmittedAt a =
     (let ts = uint (getUint40 (drop 5 (a_Random a))) in
      if ts < 1600000000 \<or> ts > 4000000000 then None else Some ts)"

definition UnmarshalAnnouncePayload ::
    "bytes \<Rightarrow> bytes \<Rightarrow> byte \<Rightarrow> byte \<Rightarrow> announce_error + Announce" where
  "UnmarshalAnnouncePayload data destHash hops contextFlag =
     (let minSize = (if contextFlag \<noteq> 0 then AnnounceRatchetPayload else AnnounceMinPayload) in
      if length data < minSize then Inl ErrAnnounceTooShort
      else
        let pos = 0;
            pub = slice pos (pos + IdentityKeySize) data;
            pos = pos + IdentityKeySize
        in case ParsePublicKeys pub of
             Inl e \<Rightarrow> Inl e
           | Inr (encPub, sigPub) \<Rightarrow>
               let name = slice pos (pos + NameHashLen) data;
                   pos = pos + NameHashLen;
                   rnd = slice pos (pos + RandomHashLen) data;
                   pos = pos + RandomHashLen;
                   (ratchet, pos) = (if contextFlag \<noteq> 0
                      then (slice pos (pos + RatchetKeyLen) data, pos + RatchetKeyLen)
                      else (replicate RatchetKeyLen 0, pos));
                   sig = slice pos (pos + SignatureLen) data;
                   pos = pos + SignatureLen
               in Inr \<lparr>a_DestHash = destHash, a_Hops = hops, a_ContextFlag = contextFlag,
                    a_Context = 0, a_PublicKey = pub, a_NameHash = name, a_Random = rnd,
                    a_Ratchet = ratchet, a_Signature = sig,
                    a_AppData = (if pos < length data then drop pos data else []),
                    a_encPub = Some encPub, a_sigPub = Some sigPub\<rparr>)"

definition UnmarshalAnnouncePacket :: "bytes \<Rightarrow> announce_error + Announce" where
  "UnmarshalAnnouncePacket raw =
     (case UnmarshalHeader raw of
        Inl e \<Rightarrow> Inl (ErrHeader e)
      | Inr h \<Rightarrow>
          if h_PacketType h \<noteq> PacketAnnounce then Inl ErrInvalidFlag
          else case UnmarshalAnnouncePayload (h_Data h) (h_DestHash h) (h_Hops h) (h_ContextFlag h) of
            Inl e \<Rightarrow> Inl e
          | Inr a \<Rightarrow> Inr (a\<lparr>a_Context := h_Context h\<rparr>))"

text \<open>Verification fills in missing parsed keys, so the announce is returned too.\<close>

definition Verify ::
    "(bytes \<Rightarrow> bytes) \<Rightarrow> (bytes \<Rightarrow> bytes \<Rightarrow> bytes \<Rightarrow> bool) \<Rightarrow> Announce \<Rightarrow> announce_error option \<times> Announce" where
  "Verify sha256 verify a =
     (let parsed = (case (a_encPub a, a_sigPub a) of
          (Some e, Some s) \<Rightarrow> Inr (e, s)
        | _ \<Rightarrow> ParsePublicKeys (a_PublicKey a))
      in case parsed of
        Inl err \<Rightarrow> (Some err, a\<lparr>a_encPub := None, a_sigPub := None\<rparr>)
      | Inr (e, s) \<Rightarrow>
          let a = a\<lparr>a_encPub := Some e, a_sigPub := Some s\<rparr> in
          if ComputeDestHash sha256 (a_NameHash a) (ComputeIdentityHash sha256 e s) \<noteq> a_DestHash a
          then (Some ErrDestHashMismatch, a)
          else if \<not> VerifySignature verify s (signableBody a) (a_Signature a)
          then (Some ErrAnnounceSignature, a)
          else (None, a))"

definition announce_IncrementHop :: "Announce \<Rightarrow> bool \<times> Announce" where
  "announce_IncrementHop a = (if unat (a_Hops a) \<ge> PathfinderM then (False, a)
     else (True, a\<lparr>a_Hops := a_Hops a + 1\<rparr>))"

subsection \<open>The 40-bit emission time\<close>

lemma un_be_snoc: "un_be (bs @ [b]) = push_bit 8 (un_be bs) OR ucast b"
  by (simp add: un_be_def)

lemma un_be_digits:
  "un_be (map (\<lambda>i. ucast (drop_bit (8 * (k - 1 - i)) w)) [0..<k]) = take_bit (8 * k) w"
proof (induction k arbitrary: w)
  case (Suc k)
  have "map (\<lambda>i. ucast (drop_bit (8 * (Suc k - 1 - i)) w) :: byte) [0..<k] =
      map (\<lambda>i. ucast (drop_bit (8 * (k - 1 - i)) (drop_bit 8 w))) [0..<k]"
  proof (rule map_cong[OF refl])
    fix i assume "i \<in> set [0..<k]"
    then have "8 * (Suc k - 1 - i) = 8 + 8 * (k - 1 - i)" by auto
    then show "ucast (drop_bit (8 * (Suc k - 1 - i)) w) =
        (ucast (drop_bit (8 * (k - 1 - i)) (drop_bit 8 w)) :: byte)" by (simp add: add.commute)
  qed
  then have "map (\<lambda>i. ucast (drop_bit (8 * (Suc k - 1 - i)) w) :: byte) [0..<Suc k] =
      map (\<lambda>i. ucast (drop_bit (8 * (k - 1 - i)) (drop_bit 8 w))) [0..<k] @ [ucast w]"
    by (simp only: upt_Suc map_append) simp
  then have "un_be (map (\<lambda>i. ucast (drop_bit (8 * (Suc k - 1 - i)) w)) [0..<Suc k]) =
      push_bit 8 (take_bit (8 * k) (drop_bit 8 w)) OR ucast (ucast w :: byte)"
    by (simp only: un_be_snoc Suc.IH)
  also have "\<dots> = take_bit (8 * Suc k) w"
    by (rule bit_word_eqI)
      (auto simp: bit_or_iff bit_push_bit_iff bit_take_bit_iff bit_drop_bit_eq bit_ucast_iff not_less)
  finally show ?case .
qed (simp add: un_be_def)

lemma un_be_be64: "un_be (be64 w) = w"
  using un_be_digits[of 8 w] by (simp add: be64_def take_bit_word_eq_self)

lemma be64_high_zero:
  assumes "drop_bit 40 w = 0"
  shows "take 3 (be64 w) = [0, 0, 0]"
proof -
  have "drop_bit (40 + k) w = 0" for k
    using assms by (simp flip: drop_bit_drop_bit add: add.commute)
  from this[of 0] this[of 8] this[of 16] show ?thesis
    by (simp add: be64_def upt_conv_Cons)
qed

lemma getUint40_put:
  assumes "drop_bit 40 w = 0"
  shows "getUint40 (putUint40 w) = w"
proof -
  have "[0, 0, 0] @ take 5 (putUint40 w) = be64 w"
    unfolding be64_high_zero[OF assms, symmetric] putUint40_def by simp
  then show ?thesis by (simp add: getUint40_def un_be_be64)
qed

subsection \<open>Well-formed announces and their packets\<close>

definition announce_ok :: "Announce \<Rightarrow> bool" where
  "announce_ok a \<longleftrightarrow> length (a_DestHash a) = 16 \<and> a_ContextFlag a < 2 \<and> unat (a_Hops a) < PathfinderM
     \<and> length (a_PublicKey a) = 64 \<and> length (a_NameHash a) = 10 \<and> length (a_Random a) = 10
     \<and> length (a_Ratchet a) = 32 \<and> (a_ContextFlag a = 0 \<longrightarrow> a_Ratchet a = replicate 32 0)
     \<and> length (a_Signature a) = 64 \<and> a_encPub a = Some (take 32 (a_PublicKey a))
     \<and> a_sigPub a = Some (drop 32 (a_PublicKey a))"

lemma payload_roundtrip:
  assumes "announce_ok a"
  shows "UnmarshalAnnouncePayload (MarshalPayload a) dh hops (a_ContextFlag a) =
    Inr (a\<lparr>a_DestHash := dh, a_Hops := hops, a_Context := 0\<rparr>)"
  using assms
  unfolding announce_ok_def
  by (cases a, cases "a_ContextFlag a = 0")
    (simp_all add: UnmarshalAnnouncePayload_def MarshalPayload_def announce_sizes
      ParsePublicKeys_def slice_def Let_def)

lemma payload_nonempty: "announce_ok a \<Longrightarrow> MarshalPayload a \<noteq> []"
  by (auto simp: MarshalPayload_def announce_ok_def)

lemma packet_roundtrip:
  assumes "announce_ok a"
  shows "UnmarshalAnnouncePacket (MarshalPacket a) = Inr a"
proof -
  let ?h = "empty_header\<lparr>h_HeaderType := HeaderType1,
     h_ContextFlag := a_ContextFlag a, h_TransportType := TransportBroadcast,
     h_DestType := DestSingle, h_PacketType := PacketAnnounce, h_Hops := a_Hops a,
     h_DestHash := a_DestHash a, h_Context := a_Context a, h_Data := MarshalPayload a\<rparr>"
  have "header_ok ?h" using assms payload_nonempty[OF assms]
    by (auto simp: header_ok_def announce_ok_def empty_header_def zero_hash_def rns_codes rns_sizes
        TransportBroadcast_def)
  from header.dec_enc[OF this] payload_roundtrip[OF assms] show ?thesis
    by (simp add: UnmarshalAnnouncePacket_def MarshalPacket_def)
qed

lemma packet_transport_roundtrip:
  assumes "announce_ok a" and "length tid = TruncatedHashLen" and "unat hops < PathfinderM"
  shows "UnmarshalAnnouncePacket (MarshalPacketTransport a tid hops ctx) =
    Inr (a\<lparr>a_Hops := hops, a_Context := ctx\<rparr>)"
proof -
  let ?h = "empty_header\<lparr>h_HeaderType := HeaderType2,
     h_ContextFlag := a_ContextFlag a, h_TransportType := TransportTransport,
     h_DestType := DestSingle, h_PacketType := PacketAnnounce, h_Hops := hops,
     h_TransportID := tid, h_DestHash := a_DestHash a, h_Context := ctx,
     h_Data := MarshalPayload a\<rparr>"
  have "header_ok ?h" using assms payload_nonempty[OF assms(1)]
    by (auto simp: header_ok_def announce_ok_def empty_header_def zero_hash_def rns_codes rns_sizes)
  from header.dec_enc[OF this] payload_roundtrip[OF assms(1)] show ?thesis
    by (simp add: UnmarshalAnnouncePacket_def MarshalPacketTransport_def)
qed

text \<open>Whatever arrives, an announce that parses is well formed.\<close>

lemma parsed_payload_ok:
  assumes "UnmarshalAnnouncePayload data dh hops cf = Inr a"
    and "length dh = 16" "unat hops < PathfinderM" "cf < 2"
  shows "announce_ok (a\<lparr>a_Context := ctx\<rparr>)"
proof -
  have len: "(if cf = 0 then 148 else 180) \<le> length data"
    using assms(1) by (auto simp: UnmarshalAnnouncePayload_def announce_sizes split: if_splits)
  then have "length (slice 0 64 data) = 64" by (auto split: if_splits)
  with assms len show ?thesis
    by (cases "cf = 0")
      (auto simp: UnmarshalAnnouncePayload_def announce_ok_def announce_sizes ParsePublicKeys_def Let_def)
qed

lemma parsed_announce_ok:
  assumes "UnmarshalAnnouncePacket raw = Inr a"
  shows "announce_ok a"
proof -
  obtain h b where h: "UnmarshalHeader raw = Inr h" and a: "a = b\<lparr>a_Context := h_Context h\<rparr>"
    and b: "UnmarshalAnnouncePayload (h_Data h) (h_DestHash h) (h_Hops h) (h_ContextFlag h) = Inr b"
    using assms by (auto simp: UnmarshalAnnouncePacket_def split: sum.splits if_splits)
  from accepted_header_ok[OF h] show ?thesis
    unfolding a by (intro parsed_payload_ok[OF b]) (auto simp: header_ok_def rns_sizes)
qed

interpretation announce_packet: codec MarshalPacket UnmarshalAnnouncePacket announce_ok
  by unfold_locales (rule packet_roundtrip)

subsection \<open>An announce on its way through the network\<close>

text \<open>What is assumed of the cryptographic library, and of an identity.\<close>

definition sha_ok :: "(bytes \<Rightarrow> bytes) \<Rightarrow> bool" where
  "sha_ok sha256 \<longleftrightarrow> (\<forall>m. length (sha256 m) = 32)"

definition sig_ok :: "('k \<Rightarrow> bytes \<Rightarrow> bytes) \<Rightarrow> (bytes \<Rightarrow> bytes \<Rightarrow> bytes \<Rightarrow> bool) \<Rightarrow> 'k Identity \<Rightarrow> bool" where
  "sig_ok sign verify i \<longleftrightarrow> length (id_encryptionPub i) = 32 \<and> length (id_signingPub i) = 32 \<and>
     (\<forall>m. length (sign (id_signingKey i) m) = 64 \<and>
          verify (id_signingPub i) m (sign (id_signingKey i) m))"

text \<open>
  One relay: a node parses the packet, counts a hop and sends the announce on, either as a
  broadcast (the bridge's announce relay) or under its own transport id (a transport node,
  which may mark it as the answer to a path request).
\<close>

inductive relay_hop :: "bytes \<Rightarrow> bytes \<Rightarrow> bool" where
  broadcast: "UnmarshalAnnouncePacket raw = Inr a \<Longrightarrow> announce_IncrementHop a = (True, a')
    \<Longrightarrow> relay_hop raw (MarshalPacket a')"
| transport: "UnmarshalAnnouncePacket raw = Inr a \<Longrightarrow> announce_IncrementHop a = (True, a')
    \<Longrightarrow> length tid = TruncatedHashLen
    \<Longrightarrow> relay_hop raw (MarshalPacketTransport a' tid (a_Hops a') ctx)"

inductive_cases relay_hopE: "relay_hop raw raw'"

definition announce_at :: "Announce \<Rightarrow> nat \<Rightarrow> byte \<Rightarrow> Announce" where
  "announce_at a n ctx = a\<lparr>a_Hops := of_nat n, a_Context := ctx\<rparr>"

lemma announce_at_ok: "announce_ok a \<Longrightarrow> n < 128 \<Longrightarrow> announce_ok (announce_at a n ctx)"
  by (simp add: announce_ok_def announce_at_def PathfinderM_def unat_of_nat)

lemma announce_at_increment:
  "n < 128 \<Longrightarrow> announce_IncrementHop (announce_at a n ctx) = (True, announce_at a (Suc n) ctx)"
  by (simp add: announce_IncrementHop_def announce_at_def PathfinderM_def unat_of_nat add.commute)

lemma relay_hop_announce_at:
  assumes ok: "announce_ok a" and n: "Suc n < 128"
    and raw: "UnmarshalAnnouncePacket raw = Inr (announce_at a n ctx)"
    and hop: "relay_hop raw raw'"
  shows "\<exists>ctx'. UnmarshalAnnouncePacket raw' = Inr (announce_at a (Suc n) ctx')"
  using hop
proof (cases rule: relay_hop.cases)
  case (broadcast b b')
  then have "b' = announce_at a (Suc n) ctx" using raw n announce_at_increment[of n a ctx] by simp
  then show ?thesis using packet_roundtrip[OF announce_at_ok[OF ok n]] broadcast by auto
next
  case (transport b b' tid ctx')
  then have b': "b' = announce_at a (Suc n) ctx" using raw n announce_at_increment[of n a ctx] by simp
  have "unat (a_Hops b') < PathfinderM"
    using announce_at_ok[OF ok n, of ctx] unfolding b' by (simp add: announce_ok_def)
  then have "UnmarshalAnnouncePacket raw' = Inr (announce_at a (Suc n) ctx')"
    using packet_transport_roundtrip[OF announce_at_ok[OF ok n, of ctx] transport(4)] transport b'
    by (simp add: announce_at_def)
  then show ?thesis by blast
qed

lemma relay_chain:
  assumes "announce_ok a" and "a_Hops a = 0" and "n < 128" and "(relay_hop ^^ n) (MarshalPacket a) raw"
  shows "\<exists>ctx. UnmarshalAnnouncePacket raw = Inr (announce_at a n ctx)"
  using assms(3,4)
proof (induction n arbitrary: raw)
  case 0
  have "announce_at a 0 (a_Context a) = a" using assms(2) by (cases a) (simp add: announce_at_def)
  with 0 have "UnmarshalAnnouncePacket raw = Inr (announce_at a 0 (a_Context a))"
    using packet_roundtrip[OF assms(1)] by auto
  then show ?case by blast
next
  case (Suc n)
  then obtain mid where "(relay_hop ^^ n) (MarshalPacket a) mid" and hop: "relay_hop mid raw" by auto
  with Suc obtain ctx where "UnmarshalAnnouncePacket mid = Inr (announce_at a n ctx)" by auto
  from relay_hop_announce_at[OF assms(1) Suc.prems(1) this hop] show ?case .
qed

lemma Verify_iff:
  assumes "announce_ok a"
  shows "Verify sha256 verify a = (None, a) \<longleftrightarrow>
    ComputeDestHash sha256 (a_NameHash a) (ComputeIdentityHash sha256 (take 32 (a_PublicKey a))
      (drop 32 (a_PublicKey a))) = a_DestHash a \<and>
    VerifySignature verify (drop 32 (a_PublicKey a)) (signableBody a) (a_Signature a)"
proof -
  have k: "a_encPub a = Some (take 32 (a_PublicKey a))" "a_sigPub a = Some (drop 32 (a_PublicKey a))"
    using assms by (simp_all add: announce_ok_def)
  then have e: "a\<lparr>a_encPub := Some (take 32 (a_PublicKey a)), a_sigPub := Some (drop 32 (a_PublicKey a))\<rparr> = a"
    by (cases a) simp
  show ?thesis by (simp add: Verify_def Let_def k e)
qed

lemma NewAnnounce_ok:
  assumes "sha_ok sha256" and "sig_ok sign verify i" and "length r = 5"
    and "NewAnnounce sha256 sign i name app (Some r) t = Inr a"
  shows "announce_ok a \<and> a_Hops a = 0 \<and> Verify sha256 verify a = (None, a)"
proof -
  let ?b = "\<lparr>a_DestHash = DestHash sha256 i name, a_Hops = 0, a_ContextFlag = 0, a_Context = 0,
        a_PublicKey = PublicBytes i, a_NameHash = ComputeNameHash sha256 name,
        a_Random = r @ putUint40 t, a_Ratchet = replicate RatchetKeyLen 0,
        a_Signature = [], a_AppData = app,
        a_encPub = Some (id_encryptionPub i), a_sigPub = Some (id_signingPub i)\<rparr>"
  have a: "a = ?b\<lparr>a_Signature := Sign sign i (signableBody ?b)\<rparr>"
    using assms(4) by (simp add: NewAnnounce_def)
  have body: "signableBody a = signableBody ?b" unfolding a by (simp add: signableBody_def)
  have ok: "announce_ok a" using assms(1-3) unfolding a sha_ok_def sig_ok_def
    by (simp add: announce_ok_def DestHash_def ComputeDestHash_def ComputeNameHash_def PublicBytes_def
        putUint40_def Sign_def announce_sizes rns_sizes)
  have "Verify sha256 verify a = (None, a)"
    unfolding Verify_iff[OF ok] body using assms(2) unfolding a sig_ok_def
    by (simp add: VerifySignature_def PublicBytes_def Sign_def DestHash_def IdentityHash_def announce_sizes)
  with ok show ?thesis by (simp add: a)
qed

lemma signableBody_announce_at: "signableBody (announce_at a n ctx) = signableBody a"
  by (simp add: announce_at_def signableBody_def)

lemma Verify_announce_at:
  assumes "announce_ok a" and "n < 128" and "Verify sha256 verify a = (None, a)"
  shows "Verify sha256 verify (announce_at a n ctx) = (None, announce_at a n ctx)"
  using assms(3) unfolding Verify_iff[OF assms(1)] Verify_iff[OF announce_at_ok[OF assms(1,2)]]
  unfolding signableBody_announce_at by (simp add: announce_at_def)


text \<open>A toy hash and signature, for closed instances of the hypotheses.\<close>

definition demo_sha :: "bytes \<Rightarrow> bytes" where
  "demo_sha m = replicate 32 (of_nat (length m))"

definition demo_id_sign :: "byte \<Rightarrow> bytes \<Rightarrow> bytes" where
  "demo_id_sign k m = replicate 64 k"

definition demo_verify :: "bytes \<Rightarrow> bytes \<Rightarrow> bytes \<Rightarrow> bool" where
  "demo_verify pub m s \<longleftrightarrow> s = replicate 64 (hd pub)"

definition demo_identity :: "byte Identity" where
  "demo_identity = \<lparr>id_encryptionPub = replicate 32 9, id_signingKey = 7, id_signingPub = replicate 32 7\<rparr>"

lemma demo_crypto: "sha_ok demo_sha" "sig_ok demo_id_sign demo_verify demo_identity"
  by (simp_all add: sha_ok_def sig_ok_def demo_sha_def demo_id_sign_def demo_verify_def demo_identity_def)

lemma NewAnnounce_total: "\<exists>a. NewAnnounce sha256 sign i name app (Some r) t = Inr a"
  by (simp add: NewAnnounce_def Let_def)


text \<open>C25. The signature does not bind the ratchet flag. A signed announce without a ratchet whose
  application data has at least 32 bytes can be turned by anyone into one that carries those
  bytes as its ratchet key, and it verifies just the same: the signed bytes are the same
  concatenation. Everything else in the announce is bound.\<close>
theorem announce_ratchet_ambiguity:
  assumes "announce_ok a" and "a_ContextFlag a = 0" and "32 \<le> length (a_AppData a)"
    and "Verify sha256 verify a = (None, a)"
  shows "\<exists>b. announce_ok b \<and> a_ContextFlag b = 1 \<and> a_Ratchet b = take 32 (a_AppData a) \<and>
     a_AppData b = drop 32 (a_AppData a) \<and>
     UnmarshalAnnouncePacket (MarshalPacket b) = Inr b \<and> Verify sha256 verify b = (None, b)"
proof -
  let ?b = "a\<lparr>a_ContextFlag := 1, a_Ratchet := take 32 (a_AppData a), a_AppData := drop 32 (a_AppData a)\<rparr>"
  have ok: "announce_ok ?b" using assms(1,3) by (simp add: announce_ok_def)
  have "signableBody ?b = signableBody a" using assms(2) by (simp add: signableBody_def)
  then have "Verify sha256 verify ?b = (None, ?b)"
    using assms(4) unfolding Verify_iff[OF ok] Verify_iff[OF assms(1)] by simp
  with ok packet_roundtrip[OF ok] show ?thesis by (intro exI[of _ ?b]) simp
qed

theorem announce_ratchet_ambiguity_witness:
  "\<exists>a b. NewAnnounce demo_sha demo_id_sign demo_identity [109] (replicate 40 3) (Some [1, 2, 3, 4, 5]) 0 = Inr a \<and>
     a_ContextFlag a = 0 \<and> a_ContextFlag b = 1 \<and> a_Ratchet b = replicate 32 3 \<and>
     UnmarshalAnnouncePacket (MarshalPacket b) = Inr b \<and> Verify demo_sha demo_verify b = (None, b)"
proof -
  obtain a where a: "NewAnnounce demo_sha demo_id_sign demo_identity [109] (replicate 40 3) (Some [1, 2, 3, 4, 5]) 0 = Inr a"
    using NewAnnounce_total by blast
  have ok: "announce_ok a" "Verify demo_sha demo_verify a = (None, a)"
    using NewAnnounce_ok[OF demo_crypto _ a] by simp_all
  have f: "a_ContextFlag a = 0" "a_AppData a = replicate 40 3" using a by (auto simp: NewAnnounce_def)
  from announce_ratchet_ambiguity[OF ok(1) f(1) _ ok(2)] a f show ?thesis
    by (auto simp: take_replicate)
qed

subsection \<open>Delivery proofs (proof.go)\<close>

definition ImplicitProofLen :: nat where "ImplicitProofLen = SignatureLen"
definition ExplicitProofLen :: nat where "ExplicitProofLen = FullHashLen + SignatureLen"

definition ImplicitProof :: "('k \<Rightarrow> bytes \<Rightarrow> bytes) \<Rightarrow> 'k Identity \<Rightarrow> bytes \<Rightarrow> bytes" where
  "ImplicitProof sign i packetHash = Sign sign i packetHash"

definition ExplicitProof :: "('k \<Rightarrow> bytes \<Rightarrow> bytes) \<Rightarrow> 'k Identity \<Rightarrow> bytes \<Rightarrow> bytes" where
  "ExplicitProof sign i packetHash = packetHash @ Sign sign i packetHash"

definition BuildProofPacket :: "(bytes \<Rightarrow> bytes) \<Rightarrow> bytes \<Rightarrow> bytes \<Rightarrow> bytes" where
  "BuildProofPacket sha256 provedRaw proofData = MarshalHeader (empty_header\<lparr>
     h_HeaderType := HeaderType1, h_DestType := DestSingle, h_PacketType := PacketProof,
     h_DestHash := TruncatedPacketHash sha256 provedRaw, h_Context := ContextNone,
     h_Data := proofData\<rparr>)"

datatype proof_error = ErrProofInvalid

definition ValidateProof ::
    "(bytes \<Rightarrow> bytes \<Rightarrow> bytes \<Rightarrow> bool) \<Rightarrow> bytes \<Rightarrow> bytes \<Rightarrow> bytes \<Rightarrow> proof_error option" where
  "ValidateProof verify proofData packetHash sigPub =
     (let sig = (if length proofData = ImplicitProofLen then Inr proofData
                 else if length proofData = ExplicitProofLen then
                   (if take FullHashLen proofData \<noteq> packetHash then Inl ErrProofInvalid
                    else Inr (drop FullHashLen proofData))
                 else Inl ErrProofInvalid)
      in case sig of
           Inl e \<Rightarrow> Some e
         | Inr s \<Rightarrow> if \<not> VerifySignature verify sigPub packetHash s then Some ErrProofInvalid else None)"

text \<open>What transport may do to a packet under way: count hops, wrap it for a next hop, strip it.\<close>

inductive transported :: "bytes \<Rightarrow> bytes \<Rightarrow> bool" where
  sent: "transported raw raw"
| hop: "transported raw raw' \<Longrightarrow> transported raw (raw'[1 := h])"
| wrap: "transported raw raw' \<Longrightarrow> length tid = TruncatedHashLen \<Longrightarrow> transported raw (RewriteForTransport raw' tid)"
| strip: "transported raw raw' \<Longrightarrow> transported raw (StripTransport raw')"

lemma HashablePart_hop: "HashablePart (raw[1 := h]) = HashablePart raw"
  by (cases raw; cases "tl raw") (auto simp: HashablePart_def Let_def rns_sizes)

lemma transported_hash: "transported raw raw' \<Longrightarrow> HashablePart raw' = HashablePart raw"
proof (induction rule: transported.induct)
  case (hop raw raw' h)
  then show ?case using HashablePart_hop by metis
qed (simp_all add: HashablePart_Rewrite HashablePart_Strip)

text \<open>C26. Delivery proofs work end to end. The destination proves the packet as it arrived,
  after any hop counting, wrapping and stripping on the way; the sender checks the proof
  packet against the packet as it was sent. The proof packet is addressed to the hash the
  sender waits for, and both the implicit and the explicit proof it may carry validate.\<close>
theorem delivery_proof_end_to_end:
  assumes "sha_ok sha256" and "sig_ok sign verify i" and "transported raw raw'"
    and "p \<in> {ImplicitProof sign i (PacketHash sha256 raw'), ExplicitProof sign i (PacketHash sha256 raw')}"
  shows "\<exists>h. UnmarshalHeader (BuildProofPacket sha256 raw' p) = Inr h \<and>
     h_PacketType h = PacketProof \<and> h_DestHash h = TruncatedPacketHash sha256 raw \<and>
     ValidateProof verify (h_Data h) (PacketHash sha256 raw) (id_signingPub i) = None"
proof -
  have hash: "PacketHash sha256 raw' = PacketHash sha256 raw"
    using transported_hash[OF assms(3)] by (simp add: PacketHash_def)
  let ?h = "empty_header\<lparr>h_HeaderType := HeaderType1, h_DestType := DestSingle,
     h_PacketType := PacketProof, h_DestHash := TruncatedPacketHash sha256 raw',
     h_Context := ContextNone, h_Data := p\<rparr>"
  have len: "length (PacketHash sha256 x) = 32" for x using assms(1) by (simp add: sha_ok_def PacketHash_def)
  have "64 \<le> length p" using assms(2,4) len
    by (auto simp: ImplicitProof_def ExplicitProof_def Sign_def sig_ok_def)
  then have "p \<noteq> []" by auto
  with len have "header_ok ?h"
    by (simp add: header_ok_def empty_header_def zero_hash_def rns_codes rns_sizes TruncatedPacketHash_def)
  from header.dec_enc[OF this] have "UnmarshalHeader (BuildProofPacket sha256 raw' p) = Inr ?h"
    by (simp add: BuildProofPacket_def)
  moreover have "ValidateProof verify p (PacketHash sha256 raw) (id_signingPub i) = None"
    using assms(2,4) len unfolding hash sig_ok_def
    by (auto simp: ValidateProof_def ImplicitProof_def ExplicitProof_def Sign_def VerifySignature_def
        ImplicitProofLen_def ExplicitProofLen_def announce_sizes rns_sizes)
  ultimately show ?thesis using hash by (intro exI[of _ ?h]) (simp add: TruncatedPacketHash_def)
qed

theorem delivery_proof_end_to_end_witness:
  "\<exists>h. UnmarshalHeader (BuildProofPacket demo_sha ((replicate 30 1)[1 := 5])
       (ImplicitProof demo_id_sign demo_identity (PacketHash demo_sha ((replicate 30 1)[1 := 5])))) = Inr h \<and>
     h_DestHash h = TruncatedPacketHash demo_sha (replicate 30 1) \<and>
     ValidateProof demo_verify (h_Data h) (PacketHash demo_sha (replicate 30 1)) (replicate 32 7) = None"
proof -
  have "transported (replicate 30 1) ((replicate 30 1)[1 := 5])" by (intro hop sent)
  from delivery_proof_end_to_end[OF demo_crypto this, of
      "ImplicitProof demo_id_sign demo_identity (PacketHash demo_sha ((replicate 30 1)[1 := 5]))"]
  show ?thesis by (auto simp: demo_identity_def)
qed

end
