(* ===== verification/Relay.thy ===== *)
theory Relay
  imports Announces Seen
begin

unbundle bit_operations_syntax

section \<open>Announce relay and the destination table\<close>

text \<open>
  The bridge's announce handling: \<open>internal/routing/announce.go\<close> (the routing view of a
  Reticulum announce), \<open>internal/routing/table.go\<close> (known destinations, hex helpers, loading
  from the database), \<open>internal/database/routing_queries.go\<close> (the rows behind it) and
  \<open>internal/routing/relay.go\<close> (duplicate check, verification, table update, delayed
  retransmission). A goroutine waiting to retransmit is an entry of \<open>r_pending\<close>; its wake-up
  is a step of its own, so every interleaving of arrivals, wake-ups and prunings is covered.
  The delay it waits does not appear: a wake-up may come at any time.
\<close>

definition MaxAnnounceHops :: nat where "MaxAnnounceHops = PathfinderM"

text \<open>\<open>"meshsat.bridge"\<close>\<close>
definition DefaultAppName :: bytes where
  "DefaultAppName = [109, 101, 115, 104, 115, 97, 116, 46, 98, 114, 105, 100, 103, 101]"

subsection \<open>The routing announce (routing/announce.go)\<close>

record RoutingAnnounce =
  ra_DestHash :: bytes
  ra_HopCount :: byte
  ra_NameHash :: bytes
  ra_SigningPub :: "bytes option"
  ra_EncryptionPub :: "bytes option"
  ra_AppData :: bytes
  ra_Random :: bytes
  ra_Signature :: bytes
  ra_ret :: "Announce option"

definition announceFromReticulum :: "Announce \<Rightarrow> RoutingAnnounce" where
  "announceFromReticulum a = \<lparr>ra_DestHash = a_DestHash a, ra_HopCount = a_Hops a,
     ra_NameHash = a_NameHash a, ra_SigningPub = a_sigPub a, ra_EncryptionPub = a_encPub a,
     ra_AppData = a_AppData a, ra_Random = a_Random a, ra_Signature = a_Signature a,
     ra_ret = Some a\<rparr>"

definition UnmarshalAnnounce :: "bytes \<Rightarrow> announce_error + RoutingAnnounce" where
  "UnmarshalAnnounce data =
     (case UnmarshalAnnouncePacket data of Inl e \<Rightarrow> Inl e | Inr a \<Rightarrow> Inr (announceFromReticulum a))"

definition ra_Marshal :: "RoutingAnnounce \<Rightarrow> bytes" where
  "ra_Marshal a = (case ra_ret a of
     Some ret \<Rightarrow> MarshalPacket (ret\<lparr>a_Hops := ra_HopCount a\<rparr>) | None \<Rightarrow> [])"

text \<open>The backward-compatible destination hash of a bare key pair (routing/identity.go).\<close>

definition legacy_DestHash :: "(bytes \<Rightarrow> bytes) \<Rightarrow> bytes \<Rightarrow> bytes \<Rightarrow> bytes" where
  "legacy_DestHash sha256 signingPub encryptionPub =
     ComputeDestHash sha256 (ComputeNameHash sha256 DefaultAppName)
       (ComputeIdentityHash sha256 encryptionPub signingPub)"

definition ra_Verify ::
    "(bytes \<Rightarrow> bytes) \<Rightarrow> (bytes \<Rightarrow> bytes \<Rightarrow> bytes \<Rightarrow> bool) \<Rightarrow> RoutingAnnounce \<Rightarrow> bool \<times> RoutingAnnounce" where
  "ra_Verify sha256 verify a = (case ra_ret a of
     Some ret \<Rightarrow> let (err, ret') = Verify sha256 verify ret in (err = None, a\<lparr>ra_ret := Some ret'\<rparr>)
   | None \<Rightarrow> (legacy_DestHash sha256 (case_option [] id (ra_SigningPub a))
                (case_option [] id (ra_EncryptionPub a)) = ra_DestHash a, a))"

definition ra_IncrementHop :: "RoutingAnnounce \<Rightarrow> bool \<times> RoutingAnnounce" where
  "ra_IncrementHop a =
     (if unat (ra_HopCount a) \<ge> MaxAnnounceHops then (False, a)
      else let h = ra_HopCount a + 1 in
        (True, a\<lparr>ra_HopCount := h, ra_ret := map_option (\<lambda>r. r\<lparr>a_Hops := h\<rparr>) (ra_ret a)\<rparr>))"

subsection \<open>Hexadecimal (relay.go, table.go)\<close>

definition hextable :: bytes where
  "hextable = [48, 49, 50, 51, 52, 53, 54, 55, 56, 57, 97, 98, 99, 100, 101, 102]"

definition hashHex :: "bytes \<Rightarrow> bytes" where
  "hashHex h = concat (map (\<lambda>b. [hextable ! unat (drop_bit 4 b), hextable ! unat (b AND 0x0F)]) h)"

definition unhex :: "byte \<Rightarrow> byte" where
  "unhex c = (if 48 \<le> c \<and> c \<le> 57 then c - 48
     else if 97 \<le> c \<and> c \<le> 102 then c - 97 + 10
     else if 65 \<le> c \<and> c \<le> 70 then c - 65 + 10
     else 0xFF)"

datatype hex_error = errOddHex | errBadHex

fun hex_loop :: "bytes \<Rightarrow> hex_error + bytes" where
  "hex_loop (h # l # s) =
     (let high = unhex h; low = unhex l in
      if high = 0xFF \<or> low = 0xFF then Inl errBadHex
      else case hex_loop s of Inl e \<Rightarrow> Inl e | Inr b \<Rightarrow> Inr ((push_bit 4 high OR low) # b))"
| "hex_loop _ = Inr []"

definition hexDecode :: "bytes \<Rightarrow> hex_error + bytes" where
  "hexDecode s = (if length s mod 2 \<noteq> 0 then Inl errOddHex else hex_loop s)"

subsection \<open>The destination table (table.go)\<close>

record Destination =
  ds_DestHash :: bytes
  ds_SigningPub :: "bytes option"
  ds_EncryptionPub :: "bytes option"
  ds_AppData :: bytes
  ds_HopCount :: int
  ds_SourceIface :: string
  ds_FirstSeen :: instant
  ds_LastSeen :: instant
  ds_AnnounceCount :: int

type_synonym DestinationTable = "(bytes, Destination) table"

definition table_Update :: "DestinationTable \<Rightarrow> RoutingAnnounce \<Rightarrow> string \<Rightarrow> instant \<Rightarrow> bool \<times> DestinationTable" where
  "table_Update t ann sourceIface now =
     (case map_of t (ra_DestHash ann) of
        Some existing \<Rightarrow>
          let d = (if int (unat (ra_HopCount ann)) \<le> ds_HopCount existing
                   then existing\<lparr>ds_HopCount := int (unat (ra_HopCount ann)), ds_SourceIface := sourceIface\<rparr>
                   else existing);
              d = d\<lparr>ds_LastSeen := now, ds_AnnounceCount := ds_AnnounceCount d + 1\<rparr>;
              d = (if ra_AppData ann \<noteq> [] then d\<lparr>ds_AppData := ra_AppData ann\<rparr> else d)
          in (False, AList.update (ra_DestHash ann) d t)
      | None \<Rightarrow>
          (True, AList.update (ra_DestHash ann) \<lparr>ds_DestHash = ra_DestHash ann,
             ds_SigningPub = ra_SigningPub ann, ds_EncryptionPub = ra_EncryptionPub ann,
             ds_AppData = ra_AppData ann, ds_HopCount = int (unat (ra_HopCount ann)),
             ds_SourceIface = sourceIface, ds_FirstSeen = now, ds_LastSeen = now,
             ds_AnnounceCount = 1\<rparr> t))"

definition table_Lookup :: "DestinationTable \<Rightarrow> bytes \<Rightarrow> Destination option" where
  "table_Lookup t destHash = map_of t destHash"

definition table_All :: "DestinationTable \<Rightarrow> Destination list" where
  "table_All t = map snd t"

definition table_Count :: "DestinationTable \<Rightarrow> nat" where
  "table_Count t = length t"

definition table_Remove :: "DestinationTable \<Rightarrow> bytes \<Rightarrow> DestinationTable" where
  "table_Remove t destHash = AList.delete destHash t"

subsection \<open>The persisted destinations (database/routing_queries.go)\<close>

record RoutingDestination =
  rd_DestHash :: bytes
  rd_SigningPub :: bytes
  rd_EncryptionPub :: bytes
  rd_AppData :: bytes
  rd_HopCount :: int
  rd_SourceIface :: string
  rd_FirstSeen :: instant
  rd_LastSeen :: instant
  rd_AnnounceCount :: int

type_synonym dest_rows = "(bytes, RoutingDestination) table"

text \<open>Instants are stored as text with whole seconds.\<close>

definition whole_second :: "instant \<Rightarrow> instant" where
  "whole_second t = t - t mod 1000000000"

definition UpsertRoutingDestination :: "dest_rows \<Rightarrow> RoutingDestination \<Rightarrow> dest_rows" where
  "UpsertRoutingDestination db new =
     (let new = new\<lparr>rd_FirstSeen := whole_second (rd_FirstSeen new),
                    rd_LastSeen := whole_second (rd_LastSeen new)\<rparr> in
      case map_of db (rd_DestHash new) of
        None \<Rightarrow> AList.update (rd_DestHash new) new db
      | Some old \<Rightarrow> AList.update (rd_DestHash new) (old\<lparr>
          rd_HopCount := if rd_HopCount new \<le> rd_HopCount old then rd_HopCount new else rd_HopCount old,
          rd_SourceIface := if rd_HopCount new \<le> rd_HopCount old then rd_SourceIface new else rd_SourceIface old,
          rd_AppData := if length (rd_AppData new) > 0 then rd_AppData new else rd_AppData old,
          rd_LastSeen := rd_LastSeen new, rd_AnnounceCount := rd_AnnounceCount new\<rparr>) db)"

text \<open>\<open>Rows.Scan\<close> copies the columns of the result row, in order, and fails unless it is
  given exactly one destination per column of the query. Both queries select these columns;
  what no destination is given for keeps its zero value.\<close>

definition select_columns :: "string list" where
  "select_columns = [''dest_hash'', ''signing_pub'', ''encryption_pub'', ''app_data'', ''hop_count'',
     ''source_iface'', ''first_seen'', ''last_seen'', ''announce_count'']"

definition Scan :: "string list \<Rightarrow> string list \<Rightarrow> bool" where
  "Scan columns dests \<longleftrightarrow> length dests = length columns"

definition GetRoutingDestinations :: "dest_rows \<Rightarrow> RoutingDestination list" where
  "GetRoutingDestinations db = concat (map (\<lambda>(k, r).
     if \<not> Scan select_columns [''DestHash'', ''SigningPub'', ''EncryptionPub'', ''AppData'', ''HopCount'',
          ''SourceIface'', ''firstStr'', ''lastStr'']
     then [] else [r\<lparr>rd_AnnounceCount := 0\<rparr>]) db)"

definition GetRoutingDestination :: "dest_rows \<Rightarrow> bytes \<Rightarrow> RoutingDestination option" where
  "GetRoutingDestination db destHash =
     (case map_of db destHash of
        None \<Rightarrow> None
      | Some r \<Rightarrow>
          if \<not> Scan select_columns [''DestHash'', ''SigningPub'', ''EncryptionPub'', ''AppData'',
               ''HopCount'', ''SourceIface'', ''firstStr'', ''lastStr'', ''AnnounceCount'']
          then None else Some r)"

definition DeleteRoutingDestination :: "dest_rows \<Rightarrow> bytes \<Rightarrow> dest_rows" where
  "DeleteRoutingDestination db destHash = AList.delete destHash db"

text \<open>What \<open>persistAsync\<close> writes, and how \<open>LoadFromDB\<close> reads the rows back.\<close>

definition persist :: "dest_rows \<Rightarrow> Destination \<Rightarrow> dest_rows" where
  "persist db d = UpsertRoutingDestination db \<lparr>rd_DestHash = hashHex (ds_DestHash d),
     rd_SigningPub = case_option [] id (ds_SigningPub d),
     rd_EncryptionPub = case_option [] id (ds_EncryptionPub d), rd_AppData = ds_AppData d,
     rd_HopCount = ds_HopCount d, rd_SourceIface = ds_SourceIface d, rd_FirstSeen = ds_FirstSeen d,
     rd_LastSeen = ds_LastSeen d, rd_AnnounceCount = ds_AnnounceCount d\<rparr>"

definition load_row :: "DestinationTable \<Rightarrow> RoutingDestination \<Rightarrow> DestinationTable" where
  "load_row t row =
     (case hexDecode (rd_DestHash row) of
        Inl _ \<Rightarrow> t
      | Inr decoded \<Rightarrow>
          if length decoded \<noteq> TruncatedHashLen then t
          else if length (rd_EncryptionPub row) \<noteq> 32 then t
          else AList.update decoded \<lparr>ds_DestHash = decoded, ds_SigningPub = Some (rd_SigningPub row),
             ds_EncryptionPub = Some (rd_EncryptionPub row), ds_AppData = rd_AppData row,
             ds_HopCount = rd_HopCount row, ds_SourceIface = rd_SourceIface row,
             ds_FirstSeen = rd_FirstSeen row, ds_LastSeen = rd_LastSeen row,
             ds_AnnounceCount = rd_AnnounceCount row\<rparr> t)"

definition LoadFromDB :: "DestinationTable \<Rightarrow> ('e + dest_rows) option \<Rightarrow> 'e + DestinationTable" where
  "LoadFromDB t db =
     (case db of
        None \<Rightarrow> Inr t
      | Some (Inl err) \<Rightarrow> Inl err
      | Some (Inr rows) \<Rightarrow> Inr (foldl load_row t (GetRoutingDestinations rows)))"

subsection \<open>The relay (relay.go)\<close>

record RelayConfig =
  rc_MaxHops :: int
  rc_DedupTTL :: duration
  rc_MaxDedupEntries :: int
  rc_MinRelayDelay :: duration
  rc_MaxRelayDelay :: duration

definition DefaultRelayConfig :: RelayConfig where
  "DefaultRelayConfig = \<lparr>rc_MaxHops = int MaxAnnounceHops, rc_DedupTTL = 30 * 60 * 1000000000,
     rc_MaxDedupEntries = 10000, rc_MinRelayDelay = 100000000, rc_MaxRelayDelay = 2000000000\<rparr>"

record AnnounceRelay =
  r_config :: RelayConfig
  r_table :: "DestinationTable option"
  r_callback :: bool
  r_seen :: "(bytes, instant) table"
  r_local :: "(bytes, bool) table"
  r_relayedCount :: int
  r_pending :: "(RoutingAnnounce \<times> string) list"

datatype relay_panic = PanicInt64N

definition NewAnnounceRelay :: "RelayConfig \<Rightarrow> DestinationTable option \<Rightarrow> bool \<Rightarrow> AnnounceRelay" where
  "NewAnnounceRelay cfg table callback = \<lparr>r_config = cfg, r_table = table, r_callback = callback,
     r_seen = [], r_local = [], r_relayedCount = 0, r_pending = []\<rparr>"

definition RegisterLocal :: "AnnounceRelay \<Rightarrow> bytes \<Rightarrow> AnnounceRelay" where
  "RegisterLocal r destHash = r\<lparr>r_local := AList.update destHash True (r_local r)\<rparr>"

definition dedupKey :: "(bytes \<Rightarrow> bytes) \<Rightarrow> RoutingAnnounce \<Rightarrow> bytes" where
  "dedupKey sha256 a = sha256 (ra_DestHash a @ ra_Random a)"

definition scheduleRelay :: "AnnounceRelay \<Rightarrow> RoutingAnnounce \<Rightarrow> string \<Rightarrow> relay_panic + AnnounceRelay" where
  "scheduleRelay r ann src =
     (let delayRange = rc_MaxRelayDelay (r_config r) - rc_MinRelayDelay (r_config r) in
      if delayRange \<le> 0 then Inl PanicInt64N
      else Inr (r\<lparr>r_pending := r_pending r @ [(ann, src)]\<rparr>))"

definition HandleAnnounce ::
    "(bytes \<Rightarrow> bytes) \<Rightarrow> (bytes \<Rightarrow> bytes \<Rightarrow> bytes \<Rightarrow> bool) \<Rightarrow> AnnounceRelay \<Rightarrow> bytes \<Rightarrow> string \<Rightarrow> instant
     \<Rightarrow> relay_panic + bool \<times> AnnounceRelay" where
  "HandleAnnounce sha256 verify r data src now =
     (case UnmarshalAnnounce data of
        Inl _ \<Rightarrow> Inr (False, r)
      | Inr ann \<Rightarrow>
          let (ok, ann) = ra_Verify sha256 verify ann in
          if \<not> ok then Inr (False, r)
          else case map_of (r_seen r) (dedupKey sha256 ann) of
            Some _ \<Rightarrow> Inr (False, r)
          | None \<Rightarrow>
              let r = r\<lparr>r_seen := AList.update (dedupKey sha256 ann) now (r_seen r)\<rparr>;
                  isLocal = (map_of (r_local r) (ra_DestHash ann) = Some True);
                  r = r\<lparr>r_table := map_option (\<lambda>t. snd (table_Update t ann src now)) (r_table r)\<rparr>
              in if isLocal then Inr (True, r)
                 else if int (unat (ra_HopCount ann)) \<ge> rc_MaxHops (r_config r) then Inr (True, r)
                 else if r_callback r then
                   (case scheduleRelay r ann src of Inl p \<Rightarrow> Inl p | Inr r \<Rightarrow> Inr (True, r))
                 else Inr (True, r))"

text \<open>The goroutine of the \<open>i\<close>-th pending retransmission wakes up, or finds its context done.\<close>

definition drop_pending :: "AnnounceRelay \<Rightarrow> nat \<Rightarrow> AnnounceRelay" where
  "drop_pending r i = r\<lparr>r_pending := take i (r_pending r) @ drop (Suc i) (r_pending r)\<rparr>"

definition wake_relay :: "AnnounceRelay \<Rightarrow> nat \<Rightarrow> (bytes \<times> RoutingAnnounce \<times> string) list \<times> AnnounceRelay" where
  "wake_relay r i =
     (let (ann, src) = r_pending r ! i; r = drop_pending r i in
      case ra_IncrementHop ann of
        (False, _) \<Rightarrow> ([], r)
      | (True, ann) \<Rightarrow> ([(ra_Marshal ann, ann, src)], r\<lparr>r_relayedCount := r_relayedCount r + 1\<rparr>))"

definition relay_prune :: "AnnounceRelay \<Rightarrow> instant \<Rightarrow> AnnounceRelay" where
  "relay_prune r now =
     (let seen = filter (\<lambda>(k, ts). \<not> now - ts > rc_DedupTTL (r_config r)) (r_seen r);
          excess = int (length seen) - rc_MaxDedupEntries (r_config r)
      in r\<lparr>r_seen := if excess > 0 then drop (nat excess) seen else seen\<rparr>)"

definition SeenCount :: "AnnounceRelay \<Rightarrow> nat" where
  "SeenCount r = length (r_seen r)"

definition RelayedCount :: "AnnounceRelay \<Rightarrow> int" where
  "RelayedCount r = r_relayedCount r"

subsection \<open>Hex and persistence\<close>

lemma unhex_table: "list_all (\<lambda>i. unhex (hextable ! i) = of_nat i) [0..<16]"
  by code_simp

lemma unhex_hextable: "i < 16 \<Longrightarrow> unhex (hextable ! i) = of_nat i"
  using unhex_table by (simp only: list_all_iff) simp

lemma nibbles:
  "unat (drop_bit 4 b) < 16" "unat (b AND 0x0F) < 16"
  "push_bit 4 (drop_bit 4 b) OR (b AND 0x0F) = (b :: byte)"
proof -
  have "unat (drop_bit 4 b) = unat b div 16" by (simp add: drop_bit_eq_div unat_div)
  then show "unat (drop_bit 4 b) < 16" using unat_byte_lt[of b] by simp
  have "b AND 0x0F \<le> 0x0F" by (rule word_and_le1)
  then show "unat (b AND 0x0F) < 16" by (simp add: word_le_nat_alt)
  show "push_bit 4 (drop_bit 4 b) OR (b AND 0x0F) = b"
    by (rule bit_word_eqI)
      (auto simp: bit_or_iff bit_push_bit_iff bit_drop_bit_eq bit_and_iff not_less)
qed

lemma of_nat_nibble: "(of_nat (unat x) :: byte) = x"
  by simp

lemma small_not_FF: "unat (x :: byte) < 16 \<Longrightarrow> x \<noteq> 0xFF"
  by auto

lemma hex_loop_hashHex: "hex_loop (hashHex h) = Inr h"
proof (induction h)
  case (Cons b h)
  have "unhex (hextable ! unat (drop_bit 4 b)) = drop_bit 4 b" "unhex (hextable ! unat (b AND 0x0F)) = b AND 0x0F"
    using nibbles(1,2)[of b] by (simp_all only: unhex_hextable of_nat_nibble)
  with Cons nibbles(3)[of b] show ?case
    using small_not_FF[OF nibbles(1)[of b]] small_not_FF[OF nibbles(2)[of b]]
    by (simp add: hashHex_def Let_def)
qed (simp add: hashHex_def)

lemma length_hashHex: "length (hashHex h) = 2 * length h"
  by (induction h) (simp_all add: hashHex_def)

lemma hexDecode_hashHex: "hexDecode (hashHex h) = Inr h"
  by (simp add: hexDecode_def length_hashHex hex_loop_hashHex)

text \<open>A destination an announce put into the table.\<close>

definition dest_ok :: "Destination \<Rightarrow> bool" where
  "dest_ok d \<longleftrightarrow> length (ds_DestHash d) = TruncatedHashLen \<and>
     (\<exists>s. ds_SigningPub d = Some s) \<and> (\<exists>e. ds_EncryptionPub d = Some e \<and> length e = 32)"


definition demo_dest :: Destination where
  "demo_dest = \<lparr>ds_DestHash = replicate 16 0xAB, ds_SigningPub = Some (replicate 32 1),
     ds_EncryptionPub = Some (replicate 32 2), ds_AppData = [], ds_HopCount = 3,
     ds_SourceIface = ''mesh_0'', ds_FirstSeen = 5, ds_LastSeen = 3000000007, ds_AnnounceCount = 1\<rparr>"

lemma demo_dest_ok: "dest_ok demo_dest"
  by (simp add: dest_ok_def demo_dest_def TruncatedHashLen_def)


text \<open>C28. No destination survives a restart. Whatever the table in the database holds, the query
  for all rows returns nothing, because it selects nine columns and scans eight, and every
  row whose scan fails is skipped; loading from the database therefore never restores a
  destination, and reports success.\<close>
theorem destinations_never_restored:
  "GetRoutingDestinations rows = [] \<and> LoadFromDB t (Some (Inr rows)) = Inr t"
proof -
  have "GetRoutingDestinations rows = []"
    by (auto simp: GetRoutingDestinations_def Scan_def select_columns_def)
  then show ?thesis by (simp add: LoadFromDB_def)
qed

subsection \<open>Runs of the relay\<close>

text \<open>
  A run from a fresh relay: what was received (\<open>rx\<close>), what was handed to the callback
  (\<open>tx\<close>), and every key the duplicate cache has dropped so far (\<open>forgotten\<close>).
\<close>

inductive relay_run ::
    "(bytes \<Rightarrow> bytes) \<Rightarrow> (bytes \<Rightarrow> bytes \<Rightarrow> bytes \<Rightarrow> bool) \<Rightarrow> AnnounceRelay \<Rightarrow> (bytes \<times> string) set
     \<Rightarrow> (bytes \<times> RoutingAnnounce \<times> string) list \<Rightarrow> bytes list \<Rightarrow> bool"
  for sha256 verify where
  start: "relay_run sha256 verify (NewAnnounceRelay cfg table callback) {} [] []"
| register: "relay_run sha256 verify r rx tx fg \<Longrightarrow> relay_run sha256 verify (RegisterLocal r dh) rx tx fg"
| handle: "relay_run sha256 verify r rx tx fg
    \<Longrightarrow> HandleAnnounce sha256 verify r data src now = Inr (ok, r')
    \<Longrightarrow> relay_run sha256 verify r' (insert (data, src) rx) tx fg"
| wake: "relay_run sha256 verify r rx tx fg \<Longrightarrow> i < length (r_pending r) \<Longrightarrow> wake_relay r i = (out, r')
    \<Longrightarrow> relay_run sha256 verify r' rx (tx @ out) fg"
| cancel: "relay_run sha256 verify r rx tx fg \<Longrightarrow> relay_run sha256 verify (drop_pending r i) rx tx fg"
| prune: "relay_run sha256 verify r rx tx fg
    \<Longrightarrow> relay_run sha256 verify (relay_prune r now) rx tx
          (fg @ filter (\<lambda>k. map_of (r_seen (relay_prune r now)) k = None) (map fst (r_seen r)))"

text \<open>The two outcomes of handling: nothing changes but perhaps cache and table, or one more
  retransmission is pending.\<close>

lemma ra_Verify_parsed:
  assumes "UnmarshalAnnounce data = Inr ann" and "ra_Verify sha256 verify ann = (True, ann')"
  shows "\<exists>a. UnmarshalAnnouncePacket data = Inr a \<and> Verify sha256 verify a = (None, a) \<and>
    ann = announceFromReticulum a \<and> ann' = ann"
proof -
  obtain a where a: "UnmarshalAnnouncePacket data = Inr a" "ann = announceFromReticulum a"
    using assms(1) by (auto simp: UnmarshalAnnounce_def split: sum.splits)
  have ok: "announce_ok a" by (rule parsed_announce_ok[OF a(1)])
  obtain err a' where v: "Verify sha256 verify a = (err, a')" by fastforce
  have k: "a_encPub a = Some (take 32 (a_PublicKey a))" "a_sigPub a = Some (drop 32 (a_PublicKey a))"
    using ok by (simp_all add: announce_ok_def)
  then have "a\<lparr>a_encPub := Some (take 32 (a_PublicKey a)), a_sigPub := Some (drop 32 (a_PublicKey a))\<rparr> = a"
    by (cases a) simp
  then have "a' = a" using v by (auto simp: Verify_def k Let_def split: if_splits)
  with v assms(2) a show ?thesis
    by (cases a) (auto simp: ra_Verify_def announceFromReticulum_def)
qed

lemma HandleAnnounce_cases:
  assumes "HandleAnnounce sha256 verify r data src now = Inr (ok, r')"
  obtains (ignored) "r' = r"
  | (noted) ann where "map_of (r_seen r) (dedupKey sha256 ann) = None"
      "r_seen r' = AList.update (dedupKey sha256 ann) now (r_seen r)"
      "r_pending r' = r_pending r" "r_config r' = r_config r"
  | (scheduled) a where "UnmarshalAnnouncePacket data = Inr a" "Verify sha256 verify a = (None, a)"
      "map_of (r_seen r) (dedupKey sha256 (announceFromReticulum a)) = None"
      "r_seen r' = AList.update (dedupKey sha256 (announceFromReticulum a)) now (r_seen r)"
      "r_pending r' = r_pending r @ [(announceFromReticulum a, src)]" "r_config r' = r_config r"
      "int (unat (a_Hops a)) < rc_MaxHops (r_config r)"
      "map_of (r_local r) (a_DestHash a) \<noteq> Some True"
proof (cases "UnmarshalAnnounce data")
  case (Inl e)
  with assms ignored show ?thesis by (simp add: HandleAnnounce_def)
next
  case (Inr ann)
  obtain okv ann' where v: "ra_Verify sha256 verify ann = (okv, ann')" by fastforce
  show ?thesis
  proof (cases okv)
    case False
    with assms ignored Inr v show ?thesis by (simp add: HandleAnnounce_def)
  next
    case True
    obtain a where a: "UnmarshalAnnouncePacket data = Inr a" "Verify sha256 verify a = (None, a)"
      "ann = announceFromReticulum a" "ann' = ann"
      using ra_Verify_parsed[OF Inr, of sha256 verify ann'] v True by auto
    show ?thesis
    proof (cases "map_of (r_seen r) (dedupKey sha256 ann)")
      case (Some t)
      with assms ignored Inr v True a show ?thesis by (simp add: HandleAnnounce_def)
    next
      case None
      then show ?thesis
      proof (cases "map_of (r_local r) (a_DestHash a) \<noteq> Some True \<and>
          int (unat (a_Hops a)) < rc_MaxHops (r_config r) \<and> r_callback r")
        case False
        have f: "ra_DestHash ann = a_DestHash a" "ra_HopCount ann = a_Hops a"
          by (simp_all add: a announceFromReticulum_def)
        show ?thesis
          by (rule noted[of ann]; use assms False Inr v True a(4) None f in
              \<open>auto simp: HandleAnnounce_def Let_def not_less split: if_splits\<close>)
      next
        case t: True
        have f: "ra_DestHash ann = a_DestHash a" "ra_HopCount ann = a_Hops a"
          by (simp_all add: a announceFromReticulum_def)
        show ?thesis
          by (rule scheduled[of a]; use assms t Inr v True a None f in
              \<open>auto simp: HandleAnnounce_def scheduleRelay_def Let_def not_le[symmetric] split: if_splits\<close>)
      qed
    qed
  qed
qed

definition received_ok ::
    "(bytes \<Rightarrow> bytes) \<Rightarrow> (bytes \<Rightarrow> bytes \<Rightarrow> bytes \<Rightarrow> bool) \<Rightarrow> int \<Rightarrow> (bytes \<times> string) set \<Rightarrow> Announce \<Rightarrow> string \<Rightarrow> bool" where
  "received_ok sha256 verify maxHops rx a src \<longleftrightarrow>
     (\<exists>data. (data, src) \<in> rx \<and> UnmarshalAnnouncePacket data = Inr a) \<and>
     Verify sha256 verify a = (None, a) \<and> int (unat (a_Hops a)) < maxHops"

lemma received_ok_mono:
  "received_ok sha256 verify m rx a src \<Longrightarrow> rx \<subseteq> rx' \<Longrightarrow> received_ok sha256 verify m rx' a src"
  by (auto simp: received_ok_def)

lemma IncrementHop_received:
  assumes "announce_ok a"
  shows "ra_IncrementHop (announceFromReticulum a) =
    (True, (announceFromReticulum (a\<lparr>a_Hops := a_Hops a + 1\<rparr>)))"
  using assms by (simp add: ra_IncrementHop_def announceFromReticulum_def announce_ok_def MaxAnnounceHops_def Let_def)

lemma wake_received:
  assumes "r_pending r ! i = (announceFromReticulum a, src)" and "announce_ok a"
  shows "wake_relay r i =
    ([(MarshalPacket (a\<lparr>a_Hops := a_Hops a + 1\<rparr>), announceFromReticulum (a\<lparr>a_Hops := a_Hops a + 1\<rparr>), src)],
     (drop_pending r i)\<lparr>r_relayedCount := r_relayedCount r + 1\<rparr>)"
proof -
  have "ra_Marshal (announceFromReticulum (a\<lparr>a_Hops := a_Hops a + 1\<rparr>)) = MarshalPacket (a\<lparr>a_Hops := a_Hops a + 1\<rparr>)"
    by (simp add: ra_Marshal_def announceFromReticulum_def)
  then show ?thesis
    using assms by (simp add: wake_relay_def IncrementHop_received Let_def drop_pending_def)
qed

lemma drop_pending_subset: "set (r_pending (drop_pending r i)) \<subseteq> set (r_pending r)"
  by (auto simp: drop_pending_def dest: in_set_takeD in_set_dropD)

definition pending_ok ::
    "(bytes \<Rightarrow> bytes) \<Rightarrow> (bytes \<Rightarrow> bytes \<Rightarrow> bytes \<Rightarrow> bool) \<Rightarrow> int \<Rightarrow> (bytes \<times> string) set \<Rightarrow> RoutingAnnounce \<times> string \<Rightarrow> bool" where
  "pending_ok sha256 verify m rx p \<longleftrightarrow>
     (\<exists>a. fst p = announceFromReticulum a \<and> received_ok sha256 verify m rx a (snd p))"

definition sent_ok ::
    "(bytes \<Rightarrow> bytes) \<Rightarrow> (bytes \<Rightarrow> bytes \<Rightarrow> bytes \<Rightarrow> bool) \<Rightarrow> int \<Rightarrow> (bytes \<times> string) set
     \<Rightarrow> bytes \<times> RoutingAnnounce \<times> string \<Rightarrow> bool" where
  "sent_ok sha256 verify m rx x \<longleftrightarrow>
     (\<exists>a. x = (MarshalPacket (a\<lparr>a_Hops := a_Hops a + 1\<rparr>), announceFromReticulum (a\<lparr>a_Hops := a_Hops a + 1\<rparr>),
              snd (snd x)) \<and> received_ok sha256 verify m rx a (snd (snd x)))"

lemma pending_ok_mono: "pending_ok sha256 verify m rx p \<Longrightarrow> pending_ok sha256 verify m (insert d rx) p"
  by (auto simp: pending_ok_def received_ok_def)

lemma sent_ok_mono: "sent_ok sha256 verify m rx p \<Longrightarrow> sent_ok sha256 verify m (insert d rx) p"
  unfolding sent_ok_def by (meson received_ok_mono subset_insertI)

lemma wake_pending_ok:
  assumes "pending_ok sha256 verify m rx (r_pending r ! i)" and "wake_relay r i = (out, r')"
  shows "(\<forall>x \<in> set out. sent_ok sha256 verify m rx x) \<and> r_config r' = r_config r \<and>
    r_pending r' = r_pending (drop_pending r i) \<and> r_seen r' = r_seen r \<and> length out = 1"
proof -
  obtain a src where p: "r_pending r ! i = (announceFromReticulum a, src)"
    and rc: "received_ok sha256 verify m rx a src"
    using assms(1) by (cases "r_pending r ! i") (auto simp: pending_ok_def)
  have "announce_ok a" using rc parsed_announce_ok by (auto simp: received_ok_def)
  from wake_received[OF p this] assms(2) rc show ?thesis
    by (auto simp: sent_ok_def drop_pending_def)
qed

lemma HandleAnnounce_pending:
  assumes "HandleAnnounce sha256 verify r data src now = Inr (ok, r')"
  shows "r_config r' = r_config r \<and> (\<forall>p \<in> set (r_pending r'). p \<in> set (r_pending r) \<or>
    pending_ok sha256 verify (rc_MaxHops (r_config r)) (insert (data, src) rx) p)"
  using assms
proof (cases rule: HandleAnnounce_cases)
  case (scheduled a)
  then have "received_ok sha256 verify (rc_MaxHops (r_config r)) (insert (data, src) rx) a src"
    by (auto simp: received_ok_def)
  then show ?thesis using scheduled(5,6) by (auto simp: pending_ok_def)
qed simp_all

lemma relay_run_inv:
  "relay_run sha256 verify r rx tx fg \<Longrightarrow>
     (\<forall>p \<in> set (r_pending r). pending_ok sha256 verify (rc_MaxHops (r_config r)) rx p) \<and>
     (\<forall>x \<in> set tx. sent_ok sha256 verify (rc_MaxHops (r_config r)) rx x)"
proof (induction rule: relay_run.induct)
  case (handle r rx tx fg data src now ok r')
  from HandleAnnounce_pending[OF handle(2), of rx] handle(3) show ?case
    by (metis pending_ok_mono sent_ok_mono)
next
  case (wake r rx tx fg i out r')
  from wake(2,4) have "pending_ok sha256 verify (rc_MaxHops (r_config r)) rx (r_pending r ! i)" by simp
  from wake_pending_ok[OF this wake(3)] wake(4) drop_pending_subset[of r i] show ?case by auto
next
  case (cancel r rx tx fg i)
  then show ?case using drop_pending_subset[of r i] by (auto simp: drop_pending_def)
qed (simp_all add: NewAnnounceRelay_def RegisterLocal_def relay_prune_def Let_def)


definition sends_of :: "(bytes \<Rightarrow> bytes) \<Rightarrow> bytes \<Rightarrow> (bytes \<times> RoutingAnnounce \<times> string) list \<Rightarrow> nat" where
  "sends_of sha256 k tx = length (filter (\<lambda>(out, ann, src). dedupKey sha256 ann = k) tx)"

definition waiting_of :: "(bytes \<Rightarrow> bytes) \<Rightarrow> bytes \<Rightarrow> (RoutingAnnounce \<times> string) list \<Rightarrow> nat" where
  "waiting_of sha256 k ps = length (filter (\<lambda>(ann, src). dedupKey sha256 ann = k) ps)"

lemma dedupKey_hop: "dedupKey sha256 (announceFromReticulum (a\<lparr>a_Hops := h\<rparr>)) = dedupKey sha256 (announceFromReticulum a)"
  by (simp add: dedupKey_def announceFromReticulum_def)

lemma waiting_drop_pending:
  assumes "i < length (r_pending r)"
  shows "waiting_of sha256 k (r_pending r) =
    waiting_of sha256 k (r_pending (drop_pending r i)) + (if dedupKey sha256 (fst (r_pending r ! i)) = k then 1 else 0)"
proof -
  have "r_pending r = take i (r_pending r) @ r_pending r ! i # drop (Suc i) (r_pending r)"
    using assms by (rule id_take_nth_drop)
  then have "waiting_of sha256 k (r_pending r) =
      waiting_of sha256 k (take i (r_pending r) @ r_pending r ! i # drop (Suc i) (r_pending r))" by simp
  then show ?thesis by (auto simp: waiting_of_def drop_pending_def split_def)
qed

lemma waiting_drop_le: "waiting_of sha256 k (r_pending (drop_pending r i)) \<le> waiting_of sha256 k (r_pending r)"
proof (cases "i < length (r_pending r)")
  case False
  then show ?thesis by (simp add: drop_pending_def)
qed (simp add: waiting_drop_pending)

lemma wake_counts:
  assumes "pending_ok sha256 verify m rx (r_pending r ! i)" and "wake_relay r i = (out, r')"
    and "i < length (r_pending r)"
  shows "sends_of sha256 k out + waiting_of sha256 k (r_pending r') = waiting_of sha256 k (r_pending r)"
proof -
  obtain a src where p: "r_pending r ! i = (announceFromReticulum a, src)"
    and rc: "received_ok sha256 verify m rx a src"
    using assms(1) by (cases "r_pending r ! i") (auto simp: pending_ok_def)
  have "announce_ok a" using rc parsed_announce_ok by (auto simp: received_ok_def)
  from wake_received[OF p this] assms(2) have
    "out = [(MarshalPacket (a\<lparr>a_Hops := a_Hops a + 1\<rparr>), announceFromReticulum (a\<lparr>a_Hops := a_Hops a + 1\<rparr>), src)]"
    "r_pending r' = r_pending (drop_pending r i)" by auto
  then show ?thesis
    using waiting_drop_pending[OF assms(3), of sha256 k] p by (simp add: sends_of_def dedupKey_hop)
qed

definition known :: "AnnounceRelay \<Rightarrow> bytes \<Rightarrow> nat" where
  "known r k = (if map_of (r_seen r) k = None then 0 else 1)"

lemma handle_counts:
  assumes "HandleAnnounce sha256 verify r data src now = Inr (ok, r')"
  shows "waiting_of sha256 k (r_pending r') + known r k \<le> waiting_of sha256 k (r_pending r) + known r' k \<and>
    (table_ok (r_seen r) \<longrightarrow> table_ok (r_seen r'))"
  using assms
proof (cases rule: HandleAnnounce_cases)
  case (noted ann)
  then show ?thesis by (auto simp: known_def table_simps)
next
  case (scheduled a)
  then show ?thesis by (auto simp: known_def table_simps waiting_of_def)
qed simp

lemma prune_seen:
  "set (r_seen (relay_prune r now)) \<subseteq> set (r_seen r)" "table_ok (r_seen r) \<Longrightarrow> table_ok (r_seen (relay_prune r now))"
  by (auto simp: relay_prune_def Let_def table_ok_def drop_map[symmetric] distinct_map_filter dest: in_set_dropD)

lemma prune_counts:
  assumes "table_ok (r_seen r)"
  shows "known r k \<le> known (relay_prune r now) k +
    count_list (filter (\<lambda>k. map_of (r_seen (relay_prune r now)) k = None) (map fst (r_seen r))) k"
proof (cases "map_of (r_seen r) k = None \<or> map_of (r_seen (relay_prune r now)) k \<noteq> None")
  case False
  then have "k \<in> set (filter (\<lambda>k. map_of (r_seen (relay_prune r now)) k = None) (map fst (r_seen r)))"
    by (auto simp: map_of_eq_None_iff)
  then have "count_list (filter (\<lambda>k. map_of (r_seen (relay_prune r now)) k = None) (map fst (r_seen r))) k \<noteq> 0"
    by (simp add: count_list_0_iff)
  with False show ?thesis by (simp add: known_def)
qed (auto simp: known_def)

lemma relay_run_counts:
  "relay_run sha256 verify r rx tx fg \<Longrightarrow> table_ok (r_seen r) \<and>
     sends_of sha256 k tx + waiting_of sha256 k (r_pending r) \<le> count_list fg k + known r k"
proof (induction rule: relay_run.induct)
  case (handle r rx tx fg data src now ok r')
  from handle_counts[OF handle(2), of k] handle(3) show ?case by linarith
next
  case (wake r rx tx fg i out r')
  from wake(1,2) relay_run_inv have p: "pending_ok sha256 verify (rc_MaxHops (r_config r)) rx (r_pending r ! i)"
    by (metis nth_mem)
  have "r_seen r' = r_seen r" using wake_pending_ok[OF p wake(3)] by simp
  with wake_counts[OF p wake(3,2), of k] wake(4) show ?case by (simp add: known_def sends_of_def)
next
  case (cancel r rx tx fg i)
  then show ?case using waiting_drop_le[of sha256 k r i] by (simp add: known_def drop_pending_def)
next
  case (prune r rx tx fg now)
  from prune_counts[of r k now] prune(2) prune_seen(2)[of r now] show ?case
    by (simp add: relay_prune_def[of r now] Let_def waiting_of_def)
qed (simp_all add: NewAnnounceRelay_def RegisterLocal_def known_def sends_of_def waiting_of_def)


text \<open>A concrete run: a fresh announce arrives at a relay with the default configuration and is
  sent on.\<close>

lemma demo_relay_run:
  obtains a r rx tx where
    "NewAnnounce demo_sha demo_id_sign demo_identity [109] [1, 2] (Some [1, 2, 3, 4, 5]) 0 = Inr a"
    "relay_run demo_sha demo_verify r rx tx []" "tx \<noteq> []"
    "\<forall>x \<in> set tx. snd (snd x) = ''mesh_0''"
proof -
  obtain a where a: "NewAnnounce demo_sha demo_id_sign demo_identity [109] [1, 2] (Some [1, 2, 3, 4, 5]) 0 = Inr a"
    using NewAnnounce_total by blast
  have ok: "announce_ok a" "a_Hops a = 0" "Verify demo_sha demo_verify a = (None, a)"
    using NewAnnounce_ok[OF demo_crypto _ a] by simp_all
  let ?r = "NewAnnounceRelay DefaultRelayConfig None True"
  let ?ann = "announceFromReticulum a"
  have v: "ra_Verify demo_sha demo_verify ?ann = (True, ?ann)"
    using ok(3) by (simp add: ra_Verify_def announceFromReticulum_def)
  have hop: "ra_HopCount ?ann = 0" by (simp add: announceFromReticulum_def ok(2))
  obtain r1 where h: "HandleAnnounce demo_sha demo_verify ?r (MarshalPacket a) ''mesh_0'' 7 = Inr (True, r1)"
    and p: "r_pending r1 = [(?ann, ''mesh_0'')]"
    using packet_roundtrip[OF ok(1)] v hop
    by (simp add: HandleAnnounce_def UnmarshalAnnounce_def NewAnnounceRelay_def scheduleRelay_def
        DefaultRelayConfig_def MaxAnnounceHops_def PathfinderM_def Let_def)
  have run: "relay_run demo_sha demo_verify r1 {(MarshalPacket a, ''mesh_0'')} [] []"
    by (rule relay_run.handle[OF relay_run.start h])
  have "wake_relay r1 0 = (fst (wake_relay r1 0), snd (wake_relay r1 0))" by simp
  from relay_run.wake[OF run _ this] p have
    "relay_run demo_sha demo_verify (snd (wake_relay r1 0)) {(MarshalPacket a, ''mesh_0'')} (fst (wake_relay r1 0)) []"
    by simp
  moreover have "fst (wake_relay r1 0) \<noteq> [] \<and> (\<forall>x \<in> set (fst (wake_relay r1 0)). snd (snd x) = ''mesh_0'')"
    using wake_received[of r1 0 a "''mesh_0''"] p ok(1) by simp
  ultimately show thesis using a that by blast
qed



end
