(* ===== verification/Access.thy ===== *)
theory Access
  imports Tokens Seen "HOL-Library.Sublist"
begin

section \<open>Access rules\<close>

text \<open>
  \<open>internal/rules/access.go\<close>: the rules that decide where a message arriving on an interface
  is forwarded and whether it may leave through one. The loop of \<open>evaluate\<close> is
  \<open>eval_rules\<close>; each rule may carry a token bucket of theory \<open>Tokens\<close>, whose state the loop
  threads through. Decoding JSON and lower-casing text are arguments (\<open>decoders\<close>). All
  limiters asked during one evaluation see the same clock reading, and the database's match
  counters are the list of rule ids the evaluation records.
\<close>

record AccessRule =
  ar_ID :: int
  ar_InterfaceID :: string
  ar_Direction :: string
  ar_Enabled :: bool
  ar_Action :: string
  ar_ForwardTo :: string
  ar_Filters :: string
  ar_FilterNodeGroup :: "string option"
  ar_FilterSenderGroup :: "string option"
  ar_FilterPortnumGroup :: "string option"
  ar_RateLimitPerMin :: int
  ar_RateLimitWindow :: int

record ObjectGroup =
  og_ID :: string
  og_Type :: string
  og_Members :: string

record SMSContact =
  sc_ID :: int
  sc_Phone :: string
  sc_AutoFwd :: bool

record RouteMessage =
  rm_Text :: string
  rm_From :: string
  rm_Channel :: int
  rm_PortNum :: int
  rm_Visited :: "string list"

record AccessFilters =
  af_Keyword :: string
  af_Channels :: string
  af_Nodes :: string
  af_Portnums :: string

record AccessMatchResult =
  am_Rule :: AccessRule
  am_ForwardTo :: string

record AccessEvaluator =
  ae_rules :: "AccessRule list"
  ae_rates :: "(int, TokenBucket) table"
  ae_groups :: "(string, string list) table"

record decoders =
  json_filters :: "string \<Rightarrow> AccessFilters option"
  json_ints :: "string \<Rightarrow> int list option"
  json_strings :: "string \<Rightarrow> string list option"
  ToLower :: "string \<Rightarrow> string"

definition NewAccessEvaluator :: AccessEvaluator where
  "NewAccessEvaluator = \<lparr>ae_rules = [], ae_rates = [], ae_groups = []\<rparr>"

definition RuleCount :: "AccessEvaluator \<Rightarrow> nat" where
  "RuleCount e = length (ae_rules e)"

definition HasEgressRules :: "AccessEvaluator \<Rightarrow> string \<Rightarrow> bool" where
  "HasEgressRules e interfaceID =
     (\<exists>rule \<in> set (ae_rules e). ar_Enabled rule \<and> ar_InterfaceID rule = interfaceID \<and>
        ar_Direction rule = ''egress'')"

subsection \<open>Filters\<close>

text \<open>A JSON list restricts only if it is present, decodes and is not empty.\<close>

definition listed :: "(string \<Rightarrow> 'a list option) \<Rightarrow> string \<Rightarrow> 'a \<Rightarrow> bool" where
  "listed dec s x =
     (if s \<noteq> '''' \<and> s \<noteq> ''[]'' then
        (case dec s of Some xs \<Rightarrow> if xs \<noteq> [] then x \<in> set xs else True | None \<Rightarrow> True)
      else True)"

definition matchFilters :: "decoders \<Rightarrow> AccessRule \<Rightarrow> RouteMessage \<Rightarrow> bool" where
  "matchFilters D rule msg =
     (if ar_Filters rule = '''' \<or> ar_Filters rule = ''{}'' then True
      else case json_filters D (ar_Filters rule) of
        None \<Rightarrow> True
      | Some f \<Rightarrow>
          if af_Keyword f \<noteq> '''' \<and> \<not> sublist (ToLower D (af_Keyword f)) (ToLower D (rm_Text msg)) then False
          else if \<not> listed (json_ints D) (af_Channels f) (rm_Channel msg) then False
          else if \<not> listed (json_strings D) (af_Nodes f) (rm_From msg) then False
          else if \<not> listed (json_ints D) (af_Portnums f) (rm_PortNum msg) then False
          else True)"

definition Itoa :: "int \<Rightarrow> string" where
  "Itoa i = (if i < 0 then ''-'' @ decimal (nat (- i)) else decimal (nat i))"

definition in_group :: "AccessEvaluator \<Rightarrow> string option \<Rightarrow> string \<Rightarrow> bool" where
  "in_group e g x =
     (case g of
        None \<Rightarrow> True
      | Some gid \<Rightarrow>
          if gid = '''' then True
          else case map_of (ae_groups e) gid of
            None \<Rightarrow> True
          | Some members \<Rightarrow> if members \<noteq> [] then x \<in> set members else True)"

definition matchObjectGroups :: "AccessEvaluator \<Rightarrow> AccessRule \<Rightarrow> RouteMessage \<Rightarrow> bool" where
  "matchObjectGroups e rule msg =
     (if \<not> in_group e (ar_FilterNodeGroup rule) (rm_From msg) then False
      else if \<not> in_group e (ar_FilterSenderGroup rule) (rm_From msg) then False
      else if \<not> in_group e (ar_FilterPortnumGroup rule) (Itoa (rm_PortNum msg)) then False
      else True)"

subsection \<open>Evaluation\<close>

text \<open>The guards of the loop up to the rate limiter.\<close>

definition selects :: "decoders \<Rightarrow> AccessEvaluator \<Rightarrow> string \<Rightarrow> string \<Rightarrow> RouteMessage \<Rightarrow> AccessRule \<Rightarrow> bool" where
  "selects D e interfaceID direction msg rule =
     (if \<not> ar_Enabled rule then False
      else if ar_InterfaceID rule \<noteq> interfaceID then False
      else if ar_Direction rule \<noteq> direction then False
      else if direction = ''ingress'' \<and> ar_ForwardTo rule = interfaceID then False
      else if direction = ''ingress'' \<and> ar_ForwardTo rule \<in> set (rm_Visited msg) then False
      else if \<not> matchFilters D rule msg then False
      else if \<not> matchObjectGroups e rule msg then False
      else True)"

definition rate_check ::
    "(int, TokenBucket) table \<Rightarrow> AccessRule \<Rightarrow> instant \<Rightarrow> bool \<times> (int, TokenBucket) table" where
  "rate_check rates rule now =
     (case map_of rates (ar_ID rule) of
        None \<Rightarrow> (True, rates)
      | Some limiter \<Rightarrow> let (ok, limiter') = Allow limiter now in
          (ok, AList.update (ar_ID rule) limiter' rates))"

fun eval_rules ::
    "(AccessRule \<Rightarrow> bool) \<Rightarrow> instant \<Rightarrow> AccessRule list \<Rightarrow> (int, TokenBucket) table \<Rightarrow> AccessMatchResult list
     \<Rightarrow> AccessMatchResult list \<times> (int, TokenBucket) table \<times> int list" where
  "eval_rules sel now [] rates results = (results, rates, [])"
| "eval_rules sel now (rule # rs) rates results =
     (if \<not> sel rule then eval_rules sel now rs rates results
      else
        let (ok, rates) = rate_check rates rule now in
        if \<not> ok then eval_rules sel now rs rates results
        else if ar_Action rule = ''drop'' then ([], rates, [ar_ID rule])
        else if ar_Action rule = ''log'' then
          (let (res, rates, rec) = eval_rules sel now rs rates results in (res, rates, ar_ID rule # rec))
        else if ar_Action rule = ''forward'' then
          (let (res, rates, rec) = eval_rules sel now rs rates
             (results @ [\<lparr>am_Rule = rule, am_ForwardTo = ar_ForwardTo rule\<rparr>])
           in (res, rates, ar_ID rule # rec))
        else eval_rules sel now rs rates results)"

definition evaluate ::
    "decoders \<Rightarrow> AccessEvaluator \<Rightarrow> string \<Rightarrow> string \<Rightarrow> RouteMessage \<Rightarrow> instant
     \<Rightarrow> AccessMatchResult list \<times> AccessEvaluator \<times> int list" where
  "evaluate D e interfaceID direction msg now =
     (let (results, rates, rec) =
        eval_rules (selects D e interfaceID direction msg) now (ae_rules e) (ae_rates e) []
      in (results, e\<lparr>ae_rates := rates\<rparr>, rec))"

definition EvaluateIngress ::
    "decoders \<Rightarrow> AccessEvaluator \<Rightarrow> string \<Rightarrow> RouteMessage \<Rightarrow> instant
     \<Rightarrow> AccessMatchResult list \<times> AccessEvaluator \<times> int list" where
  "EvaluateIngress D e interfaceID msg now = evaluate D e interfaceID ''ingress'' msg now"

definition EvaluateEgress ::
    "decoders \<Rightarrow> AccessEvaluator \<Rightarrow> string \<Rightarrow> RouteMessage \<Rightarrow> instant
     \<Rightarrow> AccessMatchResult list \<times> AccessEvaluator \<times> int list" where
  "EvaluateEgress D e interfaceID msg now = evaluate D e interfaceID ''egress'' msg now"

subsection \<open>Loading rules and groups\<close>

definition contact_phones :: "SMSContact list \<Rightarrow> string \<Rightarrow> string list" where
  "contact_phones contacts m =
     (if m = ''auto_fwd'' then map sc_Phone (filter sc_AutoFwd contacts)
      else case find (\<lambda>c. Itoa (sc_ID c) = m) contacts of
        Some c \<Rightarrow> [sc_Phone c]
      | None \<Rightarrow> if m \<noteq> '''' then [m] else [])"

definition resolveContactGroup :: "decoders \<Rightarrow> string \<Rightarrow> SMSContact list \<Rightarrow> string list" where
  "resolveContactGroup D membersJSON contacts =
     (case json_strings D membersJSON of
        None \<Rightarrow> []
      | Some memberIDs \<Rightarrow> remdups (concat (map (contact_phones contacts) memberIDs)))"

definition load_rate :: "instant \<Rightarrow> (int, TokenBucket) table \<Rightarrow> AccessRule \<Rightarrow> (int, TokenBucket) table" where
  "load_rate now rates r =
     (if ar_RateLimitPerMin r > 0 \<and> ar_RateLimitWindow r > 0 then
        (case NewRuleLimiter (ar_RateLimitPerMin r) (ar_RateLimitWindow r) now of
           None \<Rightarrow> rates
         | Some tb \<Rightarrow> AList.update (ar_ID r) tb rates)
      else rates)"

definition load_group ::
    "decoders \<Rightarrow> SMSContact list \<Rightarrow> (string, string list) table \<Rightarrow> ObjectGroup \<Rightarrow> (string, string list) table" where
  "load_group D contacts groups g =
     (if og_Type g = ''contact_group'' then
        AList.update (og_ID g) (resolveContactGroup D (og_Members g) contacts) groups
      else case json_strings D (og_Members g) of
        Some members \<Rightarrow> AList.update (og_ID g) members groups
      | None \<Rightarrow> groups)"

text \<open>The three database reads are arguments: the rules or the error that ends the reload
  (\<open>None\<close> without a database), the
  groups (\<open>None\<close> when that query fails) and the contacts (empty when that query fails).\<close>

definition ReloadFromDB ::
    "decoders \<Rightarrow> AccessEvaluator \<Rightarrow> ('err + AccessRule list) option \<Rightarrow> ObjectGroup list option \<Rightarrow> SMSContact list
     \<Rightarrow> instant \<Rightarrow> 'err + AccessEvaluator" where
  "ReloadFromDB D e dbRules dbGroups dbContacts now =
     (case dbRules of
        None \<Rightarrow> Inr e
      | Some (Inl err) \<Rightarrow> Inl err
      | Some (Inr rules) \<Rightarrow>
          let groups = (case dbGroups of None \<Rightarrow> [] | Some gs \<Rightarrow> gs);
              contacts = (if \<exists>g \<in> set groups. og_Type g = ''contact_group'' then dbContacts else [])
          in Inr \<lparr>ae_rules = rules, ae_rates = foldl (load_rate now) [] rules,
               ae_groups = foldl (load_group D contacts) [] groups\<rparr>)"

subsection \<open>What an evaluation decides\<close>

definition fires :: "(AccessRule \<Rightarrow> bool) \<Rightarrow> (int, TokenBucket) table \<Rightarrow> instant \<Rightarrow> AccessRule \<Rightarrow> bool" where
  "fires sel rates now rule \<longleftrightarrow> sel rule \<and> fst (rate_check rates rule now)"

definition match_of :: "AccessRule \<Rightarrow> AccessMatchResult" where
  "match_of rule = \<lparr>am_Rule = rule, am_ForwardTo = ar_ForwardTo rule\<rparr>"

lemma rate_check_other:
  assumes "ar_ID r' \<noteq> ar_ID r"
  shows "fst (rate_check (snd (rate_check rates r now)) r' now') = fst (rate_check rates r' now')"
  using assms by (auto simp: rate_check_def table_simps split_def Let_def split: option.splits)

lemma rate_check_keeps:
  "k \<noteq> ar_ID r \<Longrightarrow> map_of (snd (rate_check rates r now)) k = map_of rates k"
  by (auto simp: rate_check_def table_simps split_def Let_def split: option.splits)

lemma rate_check_own:
  "map_of rates (ar_ID r) = Some tb \<Longrightarrow> fst (rate_check rates r now) = fst (Allow tb now) \<and>
     map_of (snd (rate_check rates r now)) (ar_ID r) = Some (snd (Allow tb now))"
  by (simp add: rate_check_def table_simps split_def Let_def)

lemma fires_other:
  assumes "ar_ID rule \<notin> ar_ID ` set rs"
  shows "r \<in> set rs \<Longrightarrow> fires sel (snd (rate_check rates rule now)) now r \<longleftrightarrow> fires sel rates now r"
  unfolding fires_def using assms by (metis image_eqI rate_check_other)

lemma eval_rules_spec:
  "distinct (map ar_ID rules) \<Longrightarrow>
   fst (eval_rules sel now rules rates acc) =
     (if \<exists>r \<in> set rules. fires sel rates now r \<and> ar_Action r = ''drop'' then []
      else acc @ map match_of (filter (\<lambda>r. fires sel rates now r \<and> ar_Action r = ''forward'') rules))"
proof (induction rules arbitrary: rates acc)
  case (Cons rule rs)
  obtain ok rates' where rc: "rate_check rates rule now = (ok, rates')" by fastforce
  have other: "fires sel rates' now r \<longleftrightarrow> fires sel rates now r" if "r \<in> set rs" for r
    using fires_other[of rule rs r sel rates now] Cons.prems that rc by auto
  have fe: "filter (\<lambda>r. fires sel rates' now r \<and> P r) rs = filter (\<lambda>r. fires sel rates now r \<and> P r) rs" for P
    using other by (intro filter_cong) auto
  have ex: "(\<exists>r \<in> set rs. fires sel rates' now r \<and> P r) \<longleftrightarrow> (\<exists>r \<in> set rs. fires sel rates now r \<and> P r)" for P
    using other by blast
  have fr: "fires sel rates now rule \<longleftrightarrow> sel rule \<and> ok" by (simp add: fires_def rc)
  have IH: "fst (eval_rules sel now rs rates' acc') =
     (if \<exists>r \<in> set rs. fires sel rates now r \<and> ar_Action r = ''drop'' then []
      else acc' @ map match_of (filter (\<lambda>r. fires sel rates now r \<and> ar_Action r = ''forward'') rs))" for acc'
    using Cons.IH[of rates' acc'] Cons.prems unfolding fe ex by simp
  show ?case
    using IH[of acc] IH[of "acc @ [match_of rule]"] Cons.IH[of rates acc] Cons.prems
    by (auto simp: rc fr match_of_def split_def Let_def)
qed simp

text \<open>C6. Access rules decide as documented, rule by rule. With distinct rule ids, an evaluation
  forwards to exactly the targets of the matching forward rules, in rule order, unless a
  matching drop rule (wherever it stands in the list) suppresses everything; a rule matches
  if its guards hold and its rate limiter, if it has one, admits the message at that instant.
  No matching rule means an empty result, the implicit deny.\<close>
theorem access_evaluation_exact:
  assumes "distinct (map ar_ID (ae_rules e))"
  shows "fst (evaluate D e interfaceID direction msg now) =
     (let matching = fires (selects D e interfaceID direction msg) (ae_rates e) now in
      if \<exists>r \<in> set (ae_rules e). matching r \<and> ar_Action r = ''drop'' then []
      else map match_of (filter (\<lambda>r. matching r \<and> ar_Action r = ''forward'') (ae_rules e)))"
  using eval_rules_spec[OF assms, of "selects D e interfaceID direction msg" now "ae_rates e" "[]"]
  unfolding evaluate_def Let_def split_def by (simp only: fst_conv append_Nil)

definition demo_decoders :: decoders where
  "demo_decoders = \<lparr>json_filters = \<lambda>_. None, json_ints = \<lambda>_. None, json_strings = \<lambda>_. None, ToLower = id\<rparr>"

definition demo_rule :: "int \<Rightarrow> string \<Rightarrow> string \<Rightarrow> AccessRule" where
  "demo_rule i action target = \<lparr>ar_ID = i, ar_InterfaceID = ''mesh_0'', ar_Direction = ''ingress'',
     ar_Enabled = True, ar_Action = action, ar_ForwardTo = target, ar_Filters = '''',
     ar_FilterNodeGroup = None, ar_FilterSenderGroup = None, ar_FilterPortnumGroup = None,
     ar_RateLimitPerMin = 1, ar_RateLimitWindow = 60\<rparr>"

definition demo_message :: RouteMessage where
  "demo_message = \<lparr>rm_Text = ''hi'', rm_From = ''!1'', rm_Channel = 0, rm_PortNum = 1, rm_Visited = [''mqtt_0'']\<rparr>"

lemmas demo_access = demo_decoders_def demo_rule_def demo_message_def selects_def matchFilters_def
  matchObjectGroups_def in_group_def

theorem access_evaluation_exact_witness:
  "fst (evaluate demo_decoders \<lparr>ae_rules = [demo_rule 1 ''forward'' ''iridium_0'', demo_rule 2 ''log'' '''',
       demo_rule 3 ''forward'' ''mqtt_0''], ae_rates = [], ae_groups = []\<rparr> ''mesh_0'' ''ingress'' demo_message 0)
     = [match_of (demo_rule 1 ''forward'' ''iridium_0'')]"
  by (subst access_evaluation_exact)
    (simp_all add: demo_access fires_def rate_check_def)

text \<open>C30. Ingress forwarding never loops back. Every target an ingress evaluation returns is
  different from the interface the message arrived on and from every interface in the
  message's visited list.\<close>
theorem ingress_never_revisits:
  assumes "m \<in> set (fst (EvaluateIngress D e interfaceID msg now))"
  shows "am_ForwardTo m \<noteq> interfaceID \<and> am_ForwardTo m \<notin> set (rm_Visited msg) \<and>
     am_Rule m \<in> set (ae_rules e) \<and> ar_Enabled (am_Rule m)"
proof -
  have "set (fst (eval_rules sel now rules rates acc)) \<subseteq> set acc \<union> match_of ` {r \<in> set rules. sel r}"
    for sel rules rates acc
  proof (induction rules arbitrary: rates acc)
    case (Cons rule rs)
    obtain ok rates' where "rate_check rates rule now = (ok, rates')" by fastforce
    with Cons.IH[of rates acc] Cons.IH[of rates' acc] Cons.IH[of rates' "acc @ [match_of rule]"] show ?case
      by (auto simp: split_def Let_def match_of_def)
  qed simp
  from this[of "selects D e interfaceID ''ingress'' msg" "ae_rules e" "ae_rates e" "[]"] assms
  obtain r where "m = match_of r" "r \<in> set (ae_rules e)" "selects D e interfaceID ''ingress'' msg r"
    by (auto simp: EvaluateIngress_def evaluate_def split_def Let_def)
  then show ?thesis by (auto simp: match_of_def selects_def split: if_splits)
qed

theorem ingress_never_revisits_witness:
  "match_of (demo_rule 1 ''forward'' ''iridium_0'') \<in> set (fst (EvaluateIngress demo_decoders
       \<lparr>ae_rules = [demo_rule 1 ''forward'' ''iridium_0''], ae_rates = [], ae_groups = []\<rparr> ''mesh_0'' demo_message 0)) \<and>
   ''iridium_0'' \<notin> set (rm_Visited demo_message)"
proof -
  have m: "match_of (demo_rule 1 ''forward'' ''iridium_0'') \<in> set (fst (EvaluateIngress demo_decoders
       \<lparr>ae_rules = [demo_rule 1 ''forward'' ''iridium_0''], ae_rates = [], ae_groups = []\<rparr> ''mesh_0'' demo_message 0))"
    by (simp add: EvaluateIngress_def evaluate_def demo_access rate_check_def match_of_def Let_def)
  from ingress_never_revisits[OF m] m show ?thesis by (simp add: match_of_def demo_rule_def)
qed

subsection \<open>Rate limits over time\<close>

definition forwards_of :: "int \<Rightarrow> AccessMatchResult list \<Rightarrow> nat" where
  "forwards_of k ms = length (filter (\<lambda>m. ar_ID (am_Rule m) = k) ms)"

lemma forwards_of_snoc:
  "forwards_of k (ms @ [match_of r]) = forwards_of k ms + (if ar_ID r = k then 1 else 0)"
  by (simp add: forwards_of_def match_of_def)

lemma eval_rules_without:
  "k \<notin> ar_ID ` set rules \<Longrightarrow>
   forwards_of k (fst (eval_rules sel now rules rates acc)) \<le> forwards_of k acc \<and>
   map_of (fst (snd (eval_rules sel now rules rates acc))) k = map_of rates k"
proof (induction rules arbitrary: rates acc)
  case (Cons rule rs)
  obtain ok rates' where rc: "rate_check rates rule now = (ok, rates')" by fastforce
  have r': "map_of rates' k = map_of rates k"
    using rate_check_keeps[of k rule rates now] Cons.prems rc by auto
  have snoc: "forwards_of k (acc @ [\<lparr>am_Rule = rule, am_ForwardTo = ar_ForwardTo rule\<rparr>]) = forwards_of k acc"
    using forwards_of_snoc[of k acc rule] Cons.prems by (auto simp: match_of_def)
  have "k \<notin> ar_ID ` set rs" using Cons.prems by simp
  note IH = Cons.IH[OF this]
  have nil: "forwards_of k [] \<le> forwards_of k acc" by (simp add: forwards_of_def)
  show ?case
    using IH[of rates acc] IH[of rates' acc] IH[of rates' "acc @ [\<lparr>am_Rule = rule, am_ForwardTo = ar_ForwardTo rule\<rparr>]"] r' nil
    unfolding snoc by (simp add: rc split_def Let_def)
qed simp

lemma eval_rules_limiter:
  assumes "distinct (map ar_ID rules)" and "map_of rates k = Some tb"
  shows "(forwards_of k (fst (eval_rules sel now rules rates acc)) \<le> forwards_of k acc \<and>
          map_of (fst (snd (eval_rules sel now rules rates acc))) k = Some tb) \<or>
         (forwards_of k (fst (eval_rules sel now rules rates acc)) \<le>
            forwards_of k acc + (if fst (Allow tb now) then 1 else 0) \<and>
          map_of (fst (snd (eval_rules sel now rules rates acc))) k = Some (snd (Allow tb now)))"
  using assms
proof (induction rules arbitrary: rates acc)
  case (Cons rule rs)
  obtain ok rates' where rc: "rate_check rates rule now = (ok, rates')" by fastforce
  have d: "distinct (map ar_ID rs)" using Cons.prems by simp
  let ?m = "\<lparr>am_Rule = rule, am_ForwardTo = ar_ForwardTo rule\<rparr>"
  have snoc: "forwards_of k (acc @ [?m]) = forwards_of k acc + (if ar_ID rule = k then 1 else 0)"
    using forwards_of_snoc[of k acc rule] by (simp add: match_of_def)
  have nil: "forwards_of k [] = 0" by (simp add: forwards_of_def)
  show ?case
  proof (cases "sel rule \<and> ar_ID rule = k")
    case False
    then have "map_of rates' k = Some tb \<or> \<not> sel rule"
      using rate_check_keeps[of k rule rates now] Cons.prems(2) rc by auto
    with Cons.IH[OF d, of rates acc] Cons.IH[OF d, of rates' acc] Cons.IH[OF d, of rates' "acc @ [?m]"]
      Cons.prems(2) False snoc nil show ?thesis
      by (auto simp: rc split_def Let_def)
  next
    case True
    then have own: "ok = fst (Allow tb now)" "map_of rates' k = Some (snd (Allow tb now))"
      using rate_check_own[of rates rule tb now] Cons.prems(2) rc by auto
    have "k \<notin> ar_ID ` set rs" using Cons.prems(1) True by auto
    note rest = eval_rules_without[OF this, of sel now rates']
    show ?thesis using rest[of acc] rest[of "acc @ [?m]"] own True snoc nil
      by (auto simp: rc split_def Let_def)
  qed
qed simp

text \<open>A history of evaluations on one evaluator.\<close>

fun eval_history ::
    "decoders \<Rightarrow> AccessEvaluator \<Rightarrow> (instant \<times> string \<times> string \<times> RouteMessage) list \<Rightarrow> AccessMatchResult list" where
  "eval_history D e [] = []"
| "eval_history D e ((now, iface, dir, msg) # calls) =
     (let (results, e', rec) = evaluate D e iface dir msg now in results @ eval_history D e' calls)"

lemma eval_history_budget:
  assumes "distinct (map ar_ID (ae_rules e))" and "map_of (ae_rates e) k = Some tb"
    and "limiter.bucket_inv tb" and "ordered t calls" and "tb_lastRefill tb \<le> t"
  shows "of_nat (forwards_of k (eval_history D e calls)) \<le>
    tb_tokens tb + Seconds (end_of t calls - tb_lastRefill tb) * tb_refillRate tb"
  using assms
proof (induction calls arbitrary: e tb t)
  case Nil
  then have "0 \<le> Seconds (t - tb_lastRefill tb) * tb_refillRate tb"
    by (intro mult_nonneg_nonneg Seconds_mono) (auto simp: limiter.bucket_inv_def)
  with Nil show ?case by (simp add: forwards_of_def limiter.bucket_inv_def)
next
  case (Cons c calls)
  obtain now iface dir msg where c: "c = (now, iface, dir, msg)" by (cases c) auto
  define sel where "sel = selects D e iface dir msg"
  define res where "res = eval_rules sel now (ae_rules e) (ae_rates e) []"
  let ?e = "e\<lparr>ae_rates := fst (snd res)\<rparr>"
  have hist: "eval_history D e (c # calls) = fst res @ eval_history D ?e calls"
    by (simp add: c evaluate_def res_def sel_def split_def Let_def)
  have app: "forwards_of k (xs @ ys) = forwards_of k xs + forwards_of k ys" for xs ys
    by (simp add: forwards_of_def)
  have now: "t \<le> now" "ordered now calls" "tb_lastRefill tb \<le> now" using Cons.prems c by auto
  have rules: "distinct (map ar_ID (ae_rules ?e))" using Cons.prems by simp
  from eval_rules_limiter[OF Cons.prems(1,2), of sel now "[]"]
  consider (idle) "forwards_of k (fst res) = 0" "map_of (ae_rates ?e) k = Some tb"
    | (drawn) "forwards_of k (fst res) \<le> (if fst (Allow tb now) then 1 else 0)"
        "map_of (ae_rates ?e) k = Some (snd (Allow tb now))"
    by (auto simp: res_def forwards_of_def[of _ "[]"])
  then show ?case
  proof cases
    case idle
    from Cons.IH[OF rules idle(2) Cons.prems(3) now(2,3)] idle(1) c show ?thesis
      unfolding hist app by simp
  next
    case drawn
    let ?tb = "snd (Allow tb now)"
    have "of_nat (forwards_of k (eval_history D ?e calls)) \<le>
        tb_tokens ?tb + Seconds (end_of now calls - now) * tb_refillRate tb"
      using Cons.IH[OF rules drawn(2) limiter.draw_inv[OF Cons.prems(3) now(3)] now(2)] by (simp add: Allow_laws)
    moreover have "of_nat (forwards_of k (fst res)) + tb_tokens ?tb \<le>
        tb_tokens tb + Seconds (now - tb_lastRefill tb) * tb_refillRate tb"
      using limiter.draw_budget[of tb now] drawn(1) by (auto split: if_splits)
    moreover have "Seconds (end_of now calls - tb_lastRefill tb) * tb_refillRate tb =
        Seconds (end_of now calls - now) * tb_refillRate tb + Seconds (now - tb_lastRefill tb) * tb_refillRate tb"
      by (simp only: distrib_right[symmetric] Seconds_split)
    ultimately show ?thesis unfolding hist app by (simp add: c)
  qed
qed




end
