(* ===== verification/Galois.thy ===== *)
theory Galois
  imports Prelude
begin

unbundle bit_operations_syntax

section \<open>Arithmetic in GF(256)\<close>

text \<open>
  \<open>internal/routing/rlnc.go\<close>, first half: the exp/log tables over the polynomial \<open>0x11B\<close> with
  generator \<open>3\<close>, and addition, multiplication and inversion through them. The table loop is
  \<open>initGFTables\<close>. It is shown that the table operations make the bytes a field: the
  type \<open>gf256\<close> of bytes is an instance of the class \<open>field\<close> with exactly these operations,
  so that the algebra of the library applies to the elimination of theory \<open>Rlnc\<close>.
\<close>

definition gf_step :: "u16 \<Rightarrow> u16" where
  "gf_step x = (let hi = push_bit 1 x; hi = (if hi \<ge> 256 then hi XOR 0x11B else hi) in hi XOR x)"

fun gf_fill :: "nat \<Rightarrow> nat \<Rightarrow> u16 \<Rightarrow> bytes \<Rightarrow> bytes \<Rightarrow> bytes \<times> bytes" where
  "gf_fill 0 i x ex lg = (ex, lg)"
| "gf_fill (Suc n) i x ex lg =
     gf_fill n (Suc i) (gf_step x) (ex[i := ucast x]) (lg[unat (ucast x :: byte) := of_nat i])"

fun gf_duplicate :: "nat \<Rightarrow> nat \<Rightarrow> bytes \<Rightarrow> bytes" where
  "gf_duplicate 0 i ex = ex"
| "gf_duplicate (Suc n) i ex = gf_duplicate n (Suc i) (ex[i + 255 := ex ! i])"

definition initGFTables :: "bytes \<times> bytes" where
  "initGFTables =
     (let (ex, lg) = gf_fill 255 0 1 (replicate 512 0) (replicate 256 0) in (gf_duplicate 255 0 ex, lg))"

definition gfExp :: bytes where "gfExp = fst initGFTables"
definition gfLog :: bytes where "gfLog = snd initGFTables"

definition gfAdd :: "byte \<Rightarrow> byte \<Rightarrow> byte" where
  "gfAdd a b = a XOR b"

definition gfMul :: "byte \<Rightarrow> byte \<Rightarrow> byte" where
  "gfMul a b = (if a = 0 \<or> b = 0 then 0 else gfExp ! (unat (gfLog ! unat a) + unat (gfLog ! unat b)))"

text \<open>\<open>gfInv\<close> panics on zero; its only caller has checked that the argument is not.\<close>

definition gfInv :: "byte \<Rightarrow> byte option" where
  "gfInv a = (if a = 0 then None else Some (gfExp ! (255 - unat (gfLog ! unat a))))"

subsection \<open>The generator\<close>

definition mul3 :: "byte \<Rightarrow> byte" where
  "mul3 b = (push_bit 1 b XOR (if bit b 7 then 0x1B else 0)) XOR b"

lemma mul3_xor: "mul3 (a XOR b) = mul3 a XOR mul3 b"
proof -
  have "push_bit 1 (a XOR b) = push_bit 1 a XOR push_bit 1 b" by (rule push_bit_xor)
  then show ?thesis
    by (cases "bit a 7"; cases "bit b 7") (simp_all add: mul3_def bit_xor_iff xor.assoc xor.left_commute xor.commute)
qed

lemma mul3_0 [simp]: "mul3 0 = 0"
  by (simp add: mul3_def)

lemma bit_mul3:
  "n < 8 \<Longrightarrow> bit (mul3 b) n \<longleftrightarrow> ((0 < n \<and> bit b (n - 1)) \<noteq> (bit b 7 \<and> bit (0x1B :: byte) n)) \<noteq> bit b n"
  unfolding mul3_def bit_xor_iff bit_push_bit_iff by (auto simp: Suc_le_eq)

lemma mul3_eq_0: "mul3 b = 0 \<Longrightarrow> b = 0"
proof -
  assume "mul3 b = 0"
  then have z: "\<not> bit (mul3 b) n" for n by simp
  note m = z[of 0] z[of 1] z[of 2] z[of 3] z[of 4] z[of 5] z[of 6] z[of 7]
  have "\<not> bit b 0 \<and> \<not> bit b 1 \<and> \<not> bit b 2 \<and> \<not> bit b 3 \<and> \<not> bit b 4 \<and> \<not> bit b 5 \<and> \<not> bit b 6 \<and> \<not> bit b 7"
    using m by (simp add: bit_mul3)
  then have "\<not> bit b n" if "n < 8" for n
  proof -
    from that consider "n = 0" | "n = 1" | "n = 2" | "n = 3" | "n = 4" | "n = 5" | "n = 6" | "n = 7" by linarith
    then show ?thesis using \<open>\<not> bit b 0 \<and> _\<close> by cases simp_all
  qed
  then show "b = 0" by (intro bit_word_eqI) auto
qed

lemma mul3_inj: "mul3 a = mul3 b \<Longrightarrow> a = b"
proof -
  assume "mul3 a = mul3 b"
  then have "mul3 (a XOR b) = 0" by (simp add: mul3_xor)
  then show "a = b" using mul3_eq_0 by (metis xor.assoc xor.right_neutral xor_self_eq)
qed

fun iter3 :: "nat \<Rightarrow> byte \<Rightarrow> byte" where
  "iter3 0 b = b"
| "iter3 (Suc n) b = iter3 n (mul3 b)"

lemma iter3_numeral: "iter3 (numeral k) b = iter3 (pred_numeral k) (mul3 b)"
  by (simp add: numeral_eq_Suc)

lemma iter3_Suc: "iter3 (Suc n) b = mul3 (iter3 n b)"
  by (induction n arbitrary: b) simp_all

lemma iter3_add: "iter3 (m + n) b = iter3 m (iter3 n b)"
  by (induction m) (simp_all add: iter3_Suc del: iter3.simps(2))

lemma iter3_chunks:
  "iter3 15 1 = 0x35" "iter3 36 0x35 = 0x0C" "iter3 34 0x0C = 0xBD" "iter3 43 0xBD = 0xFB" "iter3 42 0xFB = 0xBC" "iter3 42 0xBC = 0x79" "iter3 43 0x79 = 1"
  by (simp_all add: iter3_numeral mul3_def)

lemma iter3_values: "iter3 15 1 = 0x35" "iter3 51 1 = 0x0C" "iter3 85 1 = 0xBD" "iter3 255 1 = 1"
  using iter3_add[of 36 15 1] iter3_add[of 34 51 1] iter3_add[of 43 85 1] iter3_add[of 42 128 1]
    iter3_add[of 42 170 1] iter3_add[of 43 212 1]
  by (simp_all add: iter3_chunks)

lemma iter3_xor: "iter3 n (a XOR b) = iter3 n a XOR iter3 n b"
  by (induction n) (simp_all add: iter3_Suc mul3_xor del: iter3.simps(2))

lemma iter3_0 [simp]: "iter3 n 0 = 0"
  by (induction n) simp_all

lemma iter3_inj: "iter3 n a = iter3 n b \<Longrightarrow> a = b"
  by (induction n) (auto simp: iter3_Suc dest: mul3_inj simp del: iter3.simps(2))

text \<open>The powers of the generator, and its order.\<close>

definition pow3 :: "nat \<Rightarrow> byte" where
  "pow3 n = iter3 n 1"

lemma pow3_add: "pow3 (m + n) = iter3 m (pow3 n)"
  by (simp add: pow3_def iter3_add)

lemma pow3_nonzero: "pow3 n \<noteq> 0"
  unfolding pow3_def using iter3_inj[of n 1 0] by auto

lemma pow3_period: "pow3 (n + 255) = pow3 n" "pow3 (n + 255 * k) = pow3 n"
proof -
  show p: "pow3 (n + 255) = pow3 n" for n unfolding pow3_add by (simp add: pow3_def iter3_values)
  show "pow3 (n + 255 * k) = pow3 n"
  proof (induction k)
    case (Suc k)
    then show ?case using p[of "n + 255 * k"] by (simp add: ac_simps)
  qed simp
qed

lemma pow3_mod: "pow3 (n mod 255) = pow3 n"
  using pow3_period(2)[of "n mod 255" "n div 255"] by simp

lemma pow3_one_gcd: "pow3 a = 1 \<Longrightarrow> pow3 b = 1 \<Longrightarrow> pow3 (gcd a b) = 1"
proof (induction a b rule: gcd_nat_induct)
  case (step m n)
  have mult: "pow3 (r + k * n) = pow3 r" for r k
  proof (induction k)
    case (Suc k)
    have "pow3 (r + k * n + n) = iter3 (r + k * n) (pow3 n)" by (rule pow3_add)
    with Suc step.prems(2) show ?case by (simp add: pow3_def ac_simps)
  qed simp
  have "pow3 (m mod n) = 1" using mult[of "m mod n" "m div n"] step.prems(1) by simp
  with step.IH step.prems(2) have "pow3 (gcd n (m mod n)) = 1" by blast
  then show ?case by (simp only: gcd_red_nat[of m n])
qed simp

lemma divisors_255: "list_all (\<lambda>g. 255 mod g \<noteq> 0 \<or> 85 mod g = 0 \<or> 51 mod g = 0 \<or> 15 mod g = (0 :: nat)) [2..<255]"
  by (simp add: upt_rec_numeral)

lemma divisors_255':
  assumes "0 < g" and "g < 255"
  shows "255 mod g \<noteq> 0 \<or> 85 mod g = 0 \<or> 51 mod g = 0 \<or> 15 mod g = (0 :: nat)"
proof (cases "g = 1")
  case False
  then have "2 \<le> g" using assms by linarith
  with divisors_255 assms show ?thesis
    by (simp only: list_all_iff set_upt atLeastLessThan_iff Ball_def)
qed simp

lemma pow3_multiple: "pow3 g = 1 \<Longrightarrow> g dvd n \<Longrightarrow> pow3 n = 1"
proof -
  assume g: "pow3 g = 1" and "g dvd n"
  then obtain k where n: "n = g * k" by blast
  have "pow3 (g * k) = 1"
  proof (induction k)
    case (Suc k)
    have "pow3 (g * k + g) = iter3 (g * k) (pow3 g)" by (rule pow3_add)
    with Suc g show ?case by (simp add: pow3_def add.commute)
  qed (simp add: pow3_def)
  with n show "pow3 n = 1" by simp
qed

lemma pow3_order: "0 < d \<Longrightarrow> d < 255 \<Longrightarrow> pow3 d \<noteq> 1"
proof
  assume d: "0 < d" "d < 255" and one: "pow3 d = 1"
  obtain g where g: "g = gcd d 255" by blast
  have "pow3 255 = 1" by (simp add: pow3_def iter3_values)
  with one have "pow3 g = 1" unfolding g by (rule pow3_one_gcd)
  note m = pow3_multiple[OF this]
  have "g dvd d" "g dvd 255" unfolding g by (rule gcd_dvd1, rule gcd_dvd2)
  then have "g < 255" "0 < g" "255 mod g = 0" using d dvd_imp_le[of g d] by (auto simp: dvd_pos_nat)
  then have "g dvd 85 \<or> g dvd 51 \<or> g dvd 15" using divisors_255'[of g] by (simp add: mod_eq_0_iff_dvd)
  with m have "pow3 85 = 1 \<or> pow3 51 = 1 \<or> pow3 15 = 1" by blast
  then show False by (simp add: pow3_def iter3_values)
qed

lemma pow3_inj: "i < 255 \<Longrightarrow> j < 255 \<Longrightarrow> pow3 i = pow3 j \<Longrightarrow> i = j"
proof (induction i j rule: linorder_wlog)
  case (le i j)
  have "pow3 j = iter3 i (pow3 (j - i))" using le(1) by (simp flip: pow3_add)
  then have "iter3 i (pow3 (j - i)) = iter3 i 1" using le(4) by (simp add: pow3_def)
  then have "pow3 (j - i) = 1" by (rule iter3_inj)
  with pow3_order[of "j - i"] le show "i = j" by fastforce
next
  case (sym i j)
  then show ?case by simp
qed

subsection \<open>The tables\<close>

lemma shifted_out: "push_bit 1 (ucast (b :: byte) :: u16) = ucast (push_bit 1 b) XOR (if bit b 7 then 0x100 else 0)"
proof (rule bit_word_eqI)
  fix n :: nat
  assume n: "n < LENGTH(16)"
  have "(0x100 :: u16) = push_bit 8 1" by simp
  then have h: "bit (0x100 :: u16) n \<longleftrightarrow> n = 8" using n
    by (simp only: bit_push_bit_iff bit_1_iff) auto
  have "bit b (n - 1) \<longleftrightarrow> (n < 9 \<and> bit b (n - 1))" using bit_imp_le_length[of b "n - 1"] by auto
  then show "bit (push_bit 1 (ucast b :: u16)) n
      = bit (ucast (push_bit 1 b) XOR (if bit b 7 then 0x100 else 0) :: u16) n"
    using n h unfolding bit_xor_iff bit_push_bit_iff bit_unsigned_iff by (auto simp: nat_less_le)
qed

lemma shifted_out_ge: "256 \<le> push_bit 1 (ucast (b :: byte) :: u16) \<longleftrightarrow> bit b 7"
proof -
  have "unat (push_bit 1 (ucast b :: u16)) = 2 * unat b"
    using unat_byte_lt[of b] by (simp add: unat_word_ariths unsigned_ucast_eq take_bit_eq_mod)
  moreover have "bit b 7 \<longleftrightarrow> 128 \<le> unat b"
  proof -
    have "bit b 7 \<longleftrightarrow> bit (unat b) 7" by (simp add: bit_unsigned_iff)
    also have "\<dots> \<longleftrightarrow> odd (unat b div 128)" by (simp add: bit_iff_odd)
    also have "unat b div 128 = (if 128 \<le> unat b then 1 else 0)"
      using unat_byte_lt[of b] by (auto intro!: div_nat_eqI)
    then have "odd (unat b div 128) \<longleftrightarrow> 128 \<le> unat b" by simp
    finally show ?thesis .
  qed
  ultimately show ?thesis by (simp add: word_le_nat_alt)
qed

lemma gf_step_mul3: "gf_step (ucast b) = ucast (mul3 b)"
proof -
  have "(0x11B :: u16) = 0x100 XOR ucast (0x1B :: byte)" by simp
  moreover have "(x XOR h) XOR (h XOR y) = x XOR y" for x h y :: u16
    by (simp add: xor.assoc xor.left_commute)
  ultimately show ?thesis
    unfolding gf_step_def Let_def shifted_out_ge mul3_def unfolding shifted_out
    by (cases "bit b 7") (simp_all only: if_True if_False unsigned_xor_eq xor.right_neutral)
qed

lemma gf_fill_tables:
  assumes "i + n \<le> 255" and "length ex = 512" and "length lg = 256"
  shows "gf_fill n i (ucast (pow3 i)) ex lg = (ex', lg') \<Longrightarrow>
     length ex' = 512 \<and> length lg' = 256 \<and>
     (\<forall>j. ex' ! j = (if i \<le> j \<and> j < i + n then pow3 j else ex ! j)) \<and>
     (\<forall>j. i \<le> j \<and> j < i + n \<longrightarrow> lg' ! unat (pow3 j) = of_nat j) \<and>
     (\<forall>k. (\<forall>j. i \<le> j \<and> j < i + n \<longrightarrow> k \<noteq> unat (pow3 j)) \<longrightarrow> lg' ! k = lg ! k)"
  using assms
proof (induction n arbitrary: i ex lg)
  case (Suc n)
  have u: "(ucast (ucast (pow3 i) :: u16) :: byte) = pow3 i"
    by (rule bit_word_eqI) (simp add: bit_unsigned_iff)
  have "gf_step (ucast (pow3 i)) = ucast (pow3 (Suc i))"
    by (simp add: gf_step_mul3 pow3_def iter3_Suc del: iter3.simps(2))
  then have "gf_fill n (Suc i) (ucast (pow3 (Suc i))) (ex[i := pow3 i]) (lg[unat (pow3 i) := of_nat i]) = (ex', lg')"
    using Suc.prems(1) by (simp add: u)
  note IH = Suc.IH[OF this]
  have b: "unat (pow3 i) < 256" "unat (pow3 j) = unat (pow3 i) \<longleftrightarrow> pow3 j = pow3 i" for j
    using unat_byte_lt by (auto dest: unsigned_word_eqI)
  have ne: "unat (pow3 i) \<noteq> unat (pow3 j)" if "Suc i \<le> j" "j < Suc i + n" for j
    using pow3_inj[of i j] that Suc.prems(2) by (auto dest: unsigned_word_eqI)
  have lg: "lg' ! unat (pow3 j) = of_nat j" if "i \<le> j" "j < i + Suc n" for j
    using IH Suc.prems(2-) b ne that by (cases "j = i") auto
  show ?case
    using IH Suc.prems(2-) b ne lg by (auto simp: nth_list_update nth_list_update_neq)
qed (auto)

lemma gf_duplicate_nth:
  assumes "i + n \<le> 255" and "length ex = 512"
  shows "length (gf_duplicate n i ex) = 512 \<and>
     (\<forall>j. gf_duplicate n i ex ! j = (if i + 255 \<le> j \<and> j < i + n + 255 then ex ! (j - 255) else ex ! j))"
  using assms
proof (induction n arbitrary: i ex)
  case (Suc n)
  then show ?case
    using Suc.IH[of "Suc i" "ex[i + 255 := ex ! i]"] by (auto simp: nth_list_update)
qed auto

lemma gf_tables:
  "length gfExp = 512" "length gfLog = 256"
  "j < 510 \<Longrightarrow> gfExp ! j = pow3 j" "j < 255 \<Longrightarrow> gfLog ! unat (pow3 j) = of_nat j"
proof -
  obtain ex lg where f: "gf_fill 255 0 1 (replicate 512 0) (replicate 256 0) = (ex, lg)"
    by (cases "gf_fill 255 0 1 (replicate 512 0) (replicate 256 0)")
  then have "gf_fill 255 0 (ucast (pow3 0)) (replicate 512 0) (replicate 256 0) = (ex, lg)"
    by (simp add: pow3_def)
  note t = gf_fill_tables[OF _ _ _ this]
  have e: "gfExp = gf_duplicate 255 0 ex" and l: "gfLog = lg"
    by (simp_all add: gfExp_def gfLog_def initGFTables_def f)
  note d = gf_duplicate_nth[of 0 255 ex]
  show "length gfExp = 512" "length gfLog = 256" using t d by (simp_all add: e l)
  show "gfExp ! j = pow3 j" if "j < 510"
    using t d that pow3_period(1)[of "j - 255"] by (cases "j < 255") (auto simp: e)
  show "gfLog ! unat (pow3 j) = of_nat j" if "j < 255" using t that by (simp add: l)
qed

lemma pow3_surj: "b \<noteq> 0 \<Longrightarrow> \<exists>i < 255. b = pow3 i"
proof -
  assume b: "b \<noteq> 0"
  have "inj_on pow3 {..<255}" by (auto intro: inj_onI pow3_inj)
  then have "card (pow3 ` {..<255}) = 255" by (simp add: card_image)
  moreover have "card (UNIV - {0 :: byte}) = 255" by (simp add: card_Diff_subset card_word)
  moreover have "pow3 ` {..<255} \<subseteq> UNIV - {0}" using pow3_nonzero by auto
  ultimately have "pow3 ` {..<255} = UNIV - {0}" by (intro card_subset_eq) auto
  with b show ?thesis by auto
qed

text \<open>The discrete logarithm read off the table; multiplication iterates the generator.\<close>

definition dlog :: "byte \<Rightarrow> nat" where
  "dlog b = unat (gfLog ! unat b)"

lemma dlog_pow3: "i < 255 \<Longrightarrow> dlog (pow3 i) = i"
  by (simp add: dlog_def gf_tables unat_of_nat)

lemma pow3_dlog: "b \<noteq> 0 \<Longrightarrow> pow3 (dlog b) = b" and dlog_lt: "b \<noteq> 0 \<Longrightarrow> dlog b < 255"
  using pow3_surj[of b] by (auto simp: dlog_pow3)

lemma gfMul_iter3: "a \<noteq> 0 \<Longrightarrow> gfMul a b = iter3 (dlog a) b"
proof (cases "b = 0")
  case False
  assume a: "a \<noteq> 0"
  with False have "gfMul a b = pow3 (dlog a + dlog b)"
    using dlog_lt[of a] dlog_lt[of b] by (simp add: gfMul_def gf_tables flip: dlog_def)
  with False show ?thesis by (simp add: pow3_add pow3_dlog)
qed (simp add: gfMul_def)

lemma gfMul_zero [simp]: "gfMul 0 b = 0" "gfMul a 0 = 0"
  by (simp_all add: gfMul_def)

lemma gfMul_pow3: "gfMul (pow3 i) (pow3 j) = pow3 (i + j)"
proof -
  have "gfMul (pow3 (i mod 255)) (pow3 (j mod 255)) = pow3 (i mod 255 + j mod 255)"
    by (simp add: gfMul_iter3 pow3_nonzero dlog_pow3 pow3_add)
  also have "\<dots> = pow3 ((i mod 255 + j mod 255) mod 255)" by (simp only: pow3_mod)
  also have "\<dots> = pow3 (i + j)" by (simp only: mod_add_eq pow3_mod)
  finally show ?thesis by (simp only: pow3_mod)
qed

lemma gfMul_commute: "gfMul a b = gfMul b a"
  by (simp add: gfMul_def add.commute)

lemma gfMul_assoc: "gfMul (gfMul a b) c = gfMul a (gfMul b c)"
proof (cases "a = 0 \<or> b = 0 \<or> c = 0")
  case False
  then obtain i j k where "a = pow3 i" "b = pow3 j" "c = pow3 k" using pow3_dlog by metis
  then show ?thesis by (simp add: gfMul_pow3 add.assoc)
qed auto

lemma gfMul_distrib: "gfMul a (gfAdd b c) = gfAdd (gfMul a b) (gfMul a c)"
  by (cases "a = 0") (simp_all add: gfMul_iter3 gfAdd_def iter3_xor)

lemma gfMul_one: "gfMul 1 a = a"
  using gfMul_pow3[of 0 "dlog a"] by (cases "a = 0") (simp_all add: pow3_dlog, simp add: pow3_def)

lemma gfInv_inverse: "a \<noteq> 0 \<Longrightarrow> \<exists>b. gfInv a = Some b \<and> gfMul a b = 1"
proof -
  assume a: "a \<noteq> 0"
  then have "gfInv a = Some (pow3 (255 - dlog a))"
    by (simp add: gfInv_def gf_tables flip: dlog_def)
  moreover have "gfMul a (pow3 (255 - dlog a)) = 1"
    using gfMul_pow3[of "dlog a" "255 - dlog a"] pow3_dlog[OF a] dlog_lt[OF a]
    by (simp, simp add: pow3_def iter3_values)
  ultimately show ?thesis by blast
qed

text \<open>The field of bytes: its operations are those of the code.\<close>

typedef gf256 = "UNIV :: byte set" morphisms byte_of gf ..

setup_lifting type_definition_gf256

instantiation gf256 :: field
begin

lift_definition zero_gf256 :: gf256 is 0 .
lift_definition one_gf256 :: gf256 is 1 .
lift_definition plus_gf256 :: "gf256 \<Rightarrow> gf256 \<Rightarrow> gf256" is gfAdd .
lift_definition times_gf256 :: "gf256 \<Rightarrow> gf256 \<Rightarrow> gf256" is gfMul .
lift_definition uminus_gf256 :: "gf256 \<Rightarrow> gf256" is "\<lambda>a. a" .
lift_definition minus_gf256 :: "gf256 \<Rightarrow> gf256 \<Rightarrow> gf256" is gfAdd .
lift_definition inverse_gf256 :: "gf256 \<Rightarrow> gf256" is "\<lambda>a. case gfInv a of None \<Rightarrow> 0 | Some b \<Rightarrow> b" .
lift_definition divide_gf256 :: "gf256 \<Rightarrow> gf256 \<Rightarrow> gf256" is
  "\<lambda>a b. gfMul a (case gfInv b of None \<Rightarrow> 0 | Some c \<Rightarrow> c)" .

instance
proof
  fix a b c :: gf256
  show "a * b * c = a * (b * c)" by transfer (rule gfMul_assoc)
  show "a * b = b * a" by transfer (rule gfMul_commute)
  show "1 * a = a" by transfer (rule gfMul_one)
  show "a + b + c = a + (b + c)" by transfer (simp add: gfAdd_def xor.assoc)
  show "a + b = b + a" by transfer (simp add: gfAdd_def xor.commute)
  show "0 + a = a" by transfer (simp add: gfAdd_def)
  show "- a + a = 0" by transfer (simp add: gfAdd_def)
  show "a - b = a + - b" by transfer simp
  show "(a + b) * c = a * c + b * c" by transfer (metis gfMul_commute gfMul_distrib)
  show "(0 :: gf256) \<noteq> 1" by transfer simp
  show "a \<noteq> 0 \<Longrightarrow> inverse a * a = 1"
    by transfer (use gfInv_inverse in \<open>force simp: gfMul_commute\<close>)
  show "a div b = a * inverse b" by transfer simp
  show "inverse (0 :: gf256) = 0" by transfer (simp add: gfInv_def)
qed

end

subsection \<open>Multiplication of polynomials\<close>

text \<open>The reference: shift and add, each shift reduced by \<open>x\<^sup>8 + x\<^sup>4 + x\<^sup>3 + x + 1\<close>.\<close>

definition xtime :: "byte \<Rightarrow> byte" where
  "xtime b = push_bit 1 b XOR (if bit b 7 then 0x1B else 0)"

fun peasant :: "nat \<Rightarrow> byte \<Rightarrow> byte \<Rightarrow> byte" where
  "peasant 0 a b = 0"
| "peasant (Suc n) a b = (if bit a 0 then b else 0) XOR peasant n (drop_bit 1 a) (xtime b)"

lemma gfMul_2: "gfMul 2 b = xtime b"
proof -
  have p: "pow3 1 = 3" by (simp add: pow3_def mul3_def)
  have "gfMul 3 b = mul3 b" using gfMul_iter3[of 3 b] dlog_pow3[of 1] p by simp
  moreover have "(2 :: byte) = gfAdd 3 1" by (simp add: gfAdd_def)
  ultimately have "gfMul 2 b = mul3 b XOR b"
    by (metis gfMul_commute gfMul_distrib gfMul_one gfAdd_def)
  then show ?thesis by (simp add: mul3_def xtime_def xor.assoc)
qed

lemma peasant_step: "gfMul a b = (if bit a 0 then b else 0) XOR gfMul (drop_bit 1 a) (xtime b)"
proof -
  let ?c = "drop_bit 1 a"
  have split: "a = gfAdd (of_bool (bit a 0)) (xtime ?c)"
  proof (rule bit_word_eqI)
    fix n :: nat
    assume "n < LENGTH(8)"
    moreover have "\<not> bit ?c 7" using bit_imp_le_length[of a 8] by (auto simp: bit_drop_bit_eq)
    ultimately show "bit a n = bit (gfAdd (of_bool (bit a 0)) (xtime ?c)) n"
      unfolding gfAdd_def xtime_def bit_xor_iff bit_push_bit_iff bit_drop_bit_eq
      by (cases n) (auto simp: bit_1_iff)
  qed
  have "gfMul a b = gfAdd (gfMul (of_bool (bit a 0)) b) (gfMul (xtime ?c) b)"
    by (subst split) (metis gfMul_commute gfMul_distrib)
  moreover have "gfMul (xtime ?c) b = gfMul ?c (xtime b)"
    by (metis gfMul_2 gfMul_assoc gfMul_commute)
  ultimately show ?thesis by (simp add: gfAdd_def gfMul_one)
qed

lemma gfMul_peasant: "drop_bit n a = 0 \<Longrightarrow> gfMul a b = peasant n a b"
proof (induction n arbitrary: a b)
  case (Suc n)
  then have "drop_bit n (drop_bit 1 a) = 0" by simp
  from Suc.IH[OF this] show ?case by (simp add: peasant_step[of a b])
qed simp

text \<open>
  C13. The exp and log tables compute the arithmetic of GF(256): \<open>gfMul\<close> is multiplication of
  polynomials modulo \<open>0x11B\<close>, done by shift and add; it is associative, commutative, distributes
  over \<open>gfAdd\<close>, has \<open>1\<close> as its unit and no divisors of zero; and \<open>gfInv\<close> panics exactly
  on zero and is the inverse elsewhere.
\<close>

theorem gf_tables_field:
  "gfMul a b = peasant 8 a b \<and> gfMul (gfMul a b) c = gfMul a (gfMul b c) \<and> gfMul a b = gfMul b a \<and>
   gfMul a (gfAdd b c) = gfAdd (gfMul a b) (gfMul a c) \<and> gfMul 1 a = a \<and>
   (gfMul a b = 0 \<longleftrightarrow> a = 0 \<or> b = 0) \<and>
   (if a = 0 then gfInv a = None else \<exists>d. gfInv a = Some d \<and> gfMul a d = 1)"
proof -
  have "drop_bit 8 a = 0" by (rule bit_word_eqI) (auto simp: bit_drop_bit_eq dest: bit_imp_le_length)
  then have "gfMul a b = peasant 8 a b" by (rule gfMul_peasant)
  moreover have "gfMul a b = 0 \<longleftrightarrow> a = 0 \<or> b = 0"
    using iter3_inj[of "dlog a" b 0] by (cases "a = 0") (auto simp: gfMul_iter3)
  moreover have "if a = 0 then gfInv a = None else \<exists>d. gfInv a = Some d \<and> gfMul a d = 1"
    using gfInv_inverse[of a] by (simp add: gfInv_def)
  ultimately show ?thesis using gfMul_assoc gfMul_distrib gfMul_one gfMul_commute by blast
qed

end
