(* ===== verification/Rlnc.thy ===== *)
theory Rlnc
  imports Complex_Main Galois
begin

section \<open>Random linear network coding\<close>

text \<open>
  The rest of \<open>internal/routing/rlnc.go\<close>, matrices over GF(256) and their elimination, and
  \<open>internal/routing/rlnc_resource.go\<close>: coded packets, generations, encoding and decoding. A matrix
  keeps the flat row-major array of the code. The loops over columns and rows are folds over their
  index ranges. Random coefficients are an argument: \<open>rnd i j\<close> is byte \<open>j\<close> of
  the \<open>i\<close>-th draw.
\<close>

subsection \<open>Matrices and elimination\<close>

record GFMatrix =
  gm_Rows :: nat
  gm_Cols :: nat
  gm_Data :: bytes

definition NewGFMatrix :: "nat \<Rightarrow> nat \<Rightarrow> GFMatrix" where
  "NewGFMatrix rows cols = \<lparr>gm_Rows = rows, gm_Cols = cols, gm_Data = replicate (rows * cols) 0\<rparr>"

definition Get :: "GFMatrix \<Rightarrow> nat \<Rightarrow> nat \<Rightarrow> byte" where
  "Get m row col = gm_Data m ! (row * gm_Cols m + col)"

definition Set :: "GFMatrix \<Rightarrow> nat \<Rightarrow> nat \<Rightarrow> byte \<Rightarrow> GFMatrix" where
  "Set m row col val = m\<lparr>gm_Data := (gm_Data m)[row * gm_Cols m + col := val]\<rparr>"

definition copy_into :: "'a list \<Rightarrow> 'a list \<Rightarrow> 'a list" where
  "copy_into dst src = take (length dst) src @ drop (length src) dst"

datatype rlnc_error =
    ErrRankDeficient
  | PayloadCount
  | PayloadLength
  | ErrRLNCPacketTooShort
  | ErrRLNCBadVersion
  | ErrRLNCBadK
  | ErrRLNCNotDecodable
  | RlncPanic

definition swap_rows :: "nat \<Rightarrow> nat \<Rightarrow> GFMatrix \<Rightarrow> GFMatrix" where
  "swap_rows a b m = fold (\<lambda>c m. Set (Set m a c (Get m b c)) b c (Get m a c)) [0..<gm_Cols m] m"

definition scale_row :: "nat \<Rightarrow> byte \<Rightarrow> GFMatrix \<Rightarrow> GFMatrix" where
  "scale_row r iv m = fold (\<lambda>c m. Set m r c (gfMul (Get m r c) iv)) [0..<gm_Cols m] m"

definition add_row :: "nat \<Rightarrow> nat \<Rightarrow> byte \<Rightarrow> GFMatrix \<Rightarrow> GFMatrix" where
  "add_row r s factor m =
     fold (\<lambda>c m. Set m r c (gfAdd (Get m r c) (gfMul factor (Get m s c)))) [0..<gm_Cols m] m"

type_synonym system = "GFMatrix \<times> bytes list"

definition eliminate_row :: "nat \<Rightarrow> nat \<Rightarrow> system \<Rightarrow> system" where
  "eliminate_row col row s =
     (if row = col then s
      else let factor = Get (fst s) row col in
        if factor = 0 then s
        else (add_row row col factor (fst s),
              (snd s)[row := map2 (\<lambda>x y. gfAdd x (gfMul factor y)) (snd s ! row) (snd s ! col)]))"

definition pivot_system :: "nat \<Rightarrow> nat \<Rightarrow> system \<Rightarrow> system" where
  "pivot_system col pivotRow s =
     (if pivotRow \<noteq> col
      then (swap_rows col pivotRow (fst s), (snd s)[col := snd s ! pivotRow, pivotRow := snd s ! col])
      else s)"

definition eliminate_column :: "nat \<Rightarrow> system \<Rightarrow> rlnc_error + system" where
  "eliminate_column col s =
     (case find (\<lambda>row. Get (fst s) row col \<noteq> 0) [col..<gm_Rows (fst s)] of
        None \<Rightarrow> Inl ErrRankDeficient
      | Some pivotRow \<Rightarrow>
          let s = pivot_system col pivotRow s in
          (case gfInv (Get (fst s) col col) of
             None \<Rightarrow> Inl RlncPanic
           | Some iv \<Rightarrow>
               Inr (fold (eliminate_row col) [0..<gm_Rows (fst s)]
                 (scale_row col iv (fst s), (snd s)[col := map (\<lambda>x. gfMul x iv) (snd s ! col)]))))"

fun eliminate_from :: "nat \<Rightarrow> nat \<Rightarrow> system \<Rightarrow> rlnc_error + system" where
  "eliminate_from 0 col s = Inr s"
| "eliminate_from (Suc todo) col s =
     (case eliminate_column col s of Inl e \<Rightarrow> Inl e | Inr s' \<Rightarrow> eliminate_from todo (Suc col) s')"

definition GaussianEliminate :: "GFMatrix \<Rightarrow> bytes list \<Rightarrow> rlnc_error + bytes list" where
  "GaussianEliminate coeffs payloads =
     (let n = gm_Rows coeffs; k = gm_Cols coeffs in
      if n < k then Inl ErrRankDeficient
      else if length payloads \<noteq> n then Inl PayloadCount
      else if k = 0 then Inr []
      else if \<not> list_all (\<lambda>p. length p = length (hd payloads)) (tl payloads) then Inl PayloadLength
      else let mat = (NewGFMatrix n k)\<lparr>gm_Data := copy_into (replicate (n * k) 0) (gm_Data coeffs)\<rparr> in
        (case eliminate_from k 0 (mat, payloads) of
           Inl e \<Rightarrow> Inl e
         | Inr s \<Rightarrow> Inr (take k (snd s))))"

subsection \<open>Row operations\<close>

definition matrix_ok :: "GFMatrix \<Rightarrow> bool" where
  "matrix_ok m \<longleftrightarrow> length (gm_Data m) = gm_Rows m * gm_Cols m"

lemma flat_index:
  assumes "c < k" and "c' < (k :: nat)"
  shows "r * k + c = r' * k + c' \<longleftrightarrow> r = r' \<and> c = c'"
proof
  assume "r * k + c = r' * k + c'"
  then have "(r * k + c) div k = (r' * k + c') div k" "(r * k + c) mod k = (r' * k + c') mod k" by simp_all
  with assms show "r = r' \<and> c = c'" by simp
qed simp

lemma flat_index_lt: "r < n \<Longrightarrow> c < k \<Longrightarrow> r * k + c < n * (k :: nat)"
proof -
  assume "r < n" "c < k"
  then have "r * k + c < Suc r * k" by simp
  also have "\<dots> \<le> n * k" using \<open>r < n\<close> by (intro mult_le_mono1) simp
  finally show ?thesis .
qed

lemma Set_shape [simp]:
  "gm_Rows (Set m r c v) = gm_Rows m" "gm_Cols (Set m r c v) = gm_Cols m"
  "matrix_ok (Set m r c v) = matrix_ok m"
  by (simp_all add: Set_def matrix_ok_def)

lemma Get_Set:
  assumes "matrix_ok m" and "r < gm_Rows m" and "c < gm_Cols m" and "r' < gm_Rows m" and "c' < gm_Cols m"
  shows "Get (Set m r c v) r' c' = (if r' = r \<and> c' = c then v else Get m r' c')"
  using assms flat_index_lt[of r "gm_Rows m" c "gm_Cols m"]
  by (auto simp: Get_def Set_def matrix_ok_def nth_list_update flat_index)

lemma row_fold:
  fixes g :: "nat \<Rightarrow> byte \<Rightarrow> byte \<Rightarrow> byte"
  assumes "matrix_ok m" and "r < gm_Rows m" and "s < gm_Rows m" and "b \<le> gm_Cols m"
  defines "m' \<equiv> fold (\<lambda>c m. Set m r c (g c (Get m r c) (Get m s c))) [0..<b] m"
  shows "matrix_ok m' \<and> gm_Rows m' = gm_Rows m \<and> gm_Cols m' = gm_Cols m \<and>
     (\<forall>r' < gm_Rows m. \<forall>c' < gm_Cols m.
        Get m' r' c' = (if r' = r \<and> c' < b then g c' (Get m r c') (Get m s c') else Get m r' c'))"
  unfolding m'_def using assms(4)
proof (induction b)
  case (Suc b)
  then show ?case using assms(2,3)
    by (auto simp: Get_Set less_Suc_eq)
qed (simp add: assms(1))

lemma swap_fold:
  assumes "matrix_ok m" and "a < gm_Rows m" and "b < gm_Rows m" and "a \<noteq> b" and "d \<le> gm_Cols m"
  defines "m' \<equiv> fold (\<lambda>c m. Set (Set m a c (Get m b c)) b c (Get m a c)) [0..<d] m"
  shows "matrix_ok m' \<and> gm_Rows m' = gm_Rows m \<and> gm_Cols m' = gm_Cols m \<and>
     (\<forall>r' < gm_Rows m. \<forall>c' < gm_Cols m.
        Get m' r' c' = (if c' < d then Get m (if r' = a then b else if r' = b then a else r') c' else Get m r' c'))"
  unfolding m'_def using assms(5)
proof (induction d)
  case (Suc d)
  then show ?case using assms(2-4)
    by (simp add: Get_Set less_Suc_eq)
qed (simp add: assms(1))


lemma fold_skip [simp]: "fold (\<lambda>_ x. x) xs y = y"
  by (induction xs) simp_all

lemma row_ops:
  assumes "matrix_ok m" and "r < gm_Rows m" and "s < gm_Rows m"
  shows "matrix_ok (swap_rows r s m)" "gm_Rows (swap_rows r s m) = gm_Rows m" "gm_Cols (swap_rows r s m) = gm_Cols m"
    "matrix_ok (scale_row r v m)" "gm_Rows (scale_row r v m) = gm_Rows m" "gm_Cols (scale_row r v m) = gm_Cols m"
    "matrix_ok (add_row r s v m)" "gm_Rows (add_row r s v m) = gm_Rows m" "gm_Cols (add_row r s v m) = gm_Cols m"
    "r \<noteq> s \<Longrightarrow> i < gm_Rows m \<Longrightarrow> c < gm_Cols m \<Longrightarrow>
      Get (swap_rows r s m) i c = Get m (if i = r then s else if i = s then r else i) c"
    "i < gm_Rows m \<Longrightarrow> c < gm_Cols m \<Longrightarrow>
      Get (scale_row r v m) i c = (if i = r then gfMul (Get m r c) v else Get m i c)"
    "i < gm_Rows m \<Longrightarrow> c < gm_Cols m \<Longrightarrow>
      Get (add_row r s v m) i c = (if i = r then gfAdd (Get m r c) (gfMul v (Get m s c)) else Get m i c)"
proof -
  note sw = swap_fold[OF assms, of "gm_Cols m", folded swap_rows_def]
  note sc = row_fold[OF assms(1,2,2), of "gm_Cols m" "\<lambda>_ x _. gfMul x v", folded scale_row_def]
  note ad = row_fold[OF assms, of "gm_Cols m" "\<lambda>_ x y. gfAdd x (gfMul v y)", folded add_row_def]
  have same: "swap_rows r r m = m"
  proof -
    have "Set (Set x r c (Get x r c)) r c (Get x r c) = x" for x c
      by (simp add: Set_def Get_def)
    then show ?thesis by (simp add: swap_rows_def)
  qed
  show "matrix_ok (swap_rows r s m)" "gm_Rows (swap_rows r s m) = gm_Rows m" "gm_Cols (swap_rows r s m) = gm_Cols m"
    using sw same assms(1) by (cases "r = s"; simp)+
  show "r \<noteq> s \<Longrightarrow> i < gm_Rows m \<Longrightarrow> c < gm_Cols m \<Longrightarrow>
      Get (swap_rows r s m) i c = Get m (if i = r then s else if i = s then r else i) c"
    using sw by simp
qed (use row_fold[OF assms(1,2,2), of "gm_Cols m" "\<lambda>_ x _. gfMul x v", folded scale_row_def]
       row_fold[OF assms, of "gm_Cols m" "\<lambda>_ x y. gfAdd x (gfMul v y)", folded add_row_def] in simp_all)


subsection \<open>One column\<close>

lemma gf_hom:
  "gf (gfAdd a b) = gf a + gf b" "gf (gfMul a b) = gf a * gf b" "gf 0 = 0" "gf 1 = 1"
  "gf a = 0 \<longleftrightarrow> a = 0" "gfInv a = Some b \<Longrightarrow> gf b = inverse (gf a)"
proof -
  show h: "gf 0 = 0" by (simp add: zero_gf256_def)
  show "gf a = 0 \<longleftrightarrow> a = 0" using gf_inject[of a 0] by (simp add: h)
  show "gfInv a = Some b \<Longrightarrow> gf b = inverse (gf a)" by (simp add: inverse_gf256.abs_eq)
qed (simp_all add: plus_gf256.abs_eq times_gf256.abs_eq one_gf256_def)

lemma gf_double [simp]: "(x :: gf256) + x = 0"
  by transfer (simp add: gfAdd_def)

definition sys_ok :: "nat \<Rightarrow> nat \<Rightarrow> nat \<Rightarrow> system \<Rightarrow> bool" where
  "sys_ok n k l s \<longleftrightarrow> matrix_ok (fst s) \<and> gm_Rows (fst s) = n \<and> gm_Cols (fst s) = k \<and>
     length (snd s) = n \<and> (\<forall>r < n. length (snd s ! r) = l)"

definition lhs :: "system \<Rightarrow> nat \<Rightarrow> nat \<Rightarrow> gf256" where
  "lhs s r c = gf (Get (fst s) r c)"

definition rhs :: "system \<Rightarrow> nat \<Rightarrow> nat \<Rightarrow> gf256" where
  "rhs s r j = gf (snd s ! r ! j)"

definition swapped :: "nat \<Rightarrow> nat \<Rightarrow> nat \<Rightarrow> nat" where
  "swapped a b r = (if r = a then b else if r = b then a else r)"

lemma pivot_system_view:
  assumes ok: "sys_ok n k l s" and col: "col < n" and p: "p < n"
  shows "sys_ok n k l (pivot_system col p s)"
    "r < n \<Longrightarrow> c < k \<Longrightarrow> lhs (pivot_system col p s) r c = lhs s (swapped col p r) c"
    "r < n \<Longrightarrow> rhs (pivot_system col p s) r j = rhs s (swapped col p r) j"
  using ok col p row_ops[of "fst s" col p]
  by (auto simp: sys_ok_def pivot_system_def lhs_def rhs_def swapped_def nth_list_update)

lemma scale_row_view:
  fixes v :: byte
  assumes ok: "sys_ok n k l s" and col: "col < n"
  defines "s' \<equiv> (scale_row col v (fst s), (snd s)[col := map (\<lambda>x. gfMul x v) (snd s ! col)])"
  shows "sys_ok n k l s'"
    "r < n \<Longrightarrow> c < k \<Longrightarrow> lhs s' r c = (if r = col then gf v * lhs s col c else lhs s r c)"
    "r < n \<Longrightarrow> j < l \<Longrightarrow> rhs s' r j = (if r = col then gf v * rhs s col j else rhs s r j)"
  using ok col row_ops[of "fst s" col col]
  by (auto simp: sys_ok_def s'_def lhs_def rhs_def nth_list_update gf_hom mult.commute)

lemma eliminate_row_view:
  assumes ok: "sys_ok n k l s" and col: "col < n" and row: "row < n" and ck: "col < k"
  shows "sys_ok n k l (eliminate_row col row s)"
    "r < n \<Longrightarrow> c < k \<Longrightarrow> lhs (eliminate_row col row s) r c =
       (if r = row \<and> r \<noteq> col then lhs s r c + lhs s r col * lhs s col c else lhs s r c)"
    "r < n \<Longrightarrow> j < l \<Longrightarrow> rhs (eliminate_row col row s) r j =
       (if r = row \<and> r \<noteq> col then rhs s r j + lhs s r col * rhs s col j else rhs s r j)"
  using ok col row ck row_ops[of "fst s" row col]
  by (auto simp: sys_ok_def eliminate_row_def Let_def lhs_def rhs_def nth_list_update gf_hom)

lemma eliminate_rows_view:
  assumes ok: "sys_ok n k l s" and col: "col < n" and ck: "col < k" and b: "b \<le> n"
  defines "s' \<equiv> fold (eliminate_row col) [0..<b] s"
  shows "sys_ok n k l s' \<and>
    (\<forall>r < n. \<forall>c < k. lhs s' r c = (if r < b \<and> r \<noteq> col then lhs s r c + lhs s r col * lhs s col c else lhs s r c)) \<and>
    (\<forall>r < n. \<forall>j < l. rhs s' r j = (if r < b \<and> r \<noteq> col then rhs s r j + lhs s r col * rhs s col j else rhs s r j))"
  unfolding s'_def using b
proof (induction b)
  case (Suc b)
  let ?t = "fold (eliminate_row col) [0..<b] s"
  from Suc have IH: "sys_ok n k l ?t"
    "\<And>r c. r < n \<Longrightarrow> c < k \<Longrightarrow> lhs ?t r c = (if r < b \<and> r \<noteq> col then lhs s r c + lhs s r col * lhs s col c else lhs s r c)"
    "\<And>r j. r < n \<Longrightarrow> j < l \<Longrightarrow> rhs ?t r j = (if r < b \<and> r \<noteq> col then rhs s r j + lhs s r col * rhs s col j else rhs s r j)"
    by simp_all
  note v = eliminate_row_view[OF IH(1) col _ ck, of b]
  show ?case using v IH(2,3) col ck Suc.prems by (auto simp: less_Suc_eq)
qed (simp add: ok)


definition reduced :: "(nat \<Rightarrow> gf256) \<Rightarrow> nat \<Rightarrow> gf256 \<Rightarrow> (nat \<Rightarrow> gf256) \<Rightarrow> nat \<Rightarrow> gf256" where
  "reduced f col w v r = (if r = col then w * v col else v r + f r * (w * v col))"

lemma reduced_sum: "(\<Sum>c<k. reduced f col w (v c) r * x c) = reduced f col w (\<lambda>r. \<Sum>c<(k :: nat). v c r * x c) r"
  by (simp add: reduced_def sum.distrib sum_distrib_left algebra_simps)

lemma reduced_zero: "reduced f col w (\<lambda>_. 0) r = 0"
  by (simp add: reduced_def)

lemma reduced_eq_iff:
  assumes w: "w \<noteq> 0" and col: "col < n"
  shows "(\<forall>r < n. reduced f col w u r = reduced f col w b r) \<longleftrightarrow> (\<forall>r < n. u r = b r)"
proof
  assume eq: "\<forall>r < n. reduced f col w u r = reduced f col w b r"
  with col have "reduced f col w u col = reduced f col w b col" by blast
  with w have c: "u col = b col" by (simp add: reduced_def)
  show "\<forall>r < n. u r = b r"
  proof (intro allI impI)
    fix r assume "r < n"
    with eq have "reduced f col w u r = reduced f col w b r" by blast
    with c show "u r = b r" by (simp add: reduced_def split: if_splits)
  qed
qed (use col in \<open>auto simp: reduced_def\<close>)

lemma swapped_lt: "a < n \<Longrightarrow> b < n \<Longrightarrow> r < n \<Longrightarrow> swapped a b r < n"
  and swapped_twice: "swapped a b (swapped a b r) = r"
  by (auto simp: swapped_def)

lemma swapped_all: "a < n \<Longrightarrow> b < n \<Longrightarrow> (\<forall>r < n. Q (swapped a b r)) \<longleftrightarrow> (\<forall>r < n. Q r)"
  by (metis swapped_lt swapped_twice)

definition solves :: "nat \<Rightarrow> nat \<Rightarrow> system \<Rightarrow> (nat \<Rightarrow> gf256) \<Rightarrow> (nat \<Rightarrow> gf256) \<Rightarrow> bool" where
  "solves n k s x b \<longleftrightarrow> (\<forall>r < n. (\<Sum>c<k. lhs s r c * x c) = b r)"

definition unit_cols :: "nat \<Rightarrow> nat \<Rightarrow> system \<Rightarrow> bool" where
  "unit_cols n col s \<longleftrightarrow> (\<forall>r < n. \<forall>c < col. lhs s r c = of_bool (r = c))"

definition same_system :: "nat \<Rightarrow> nat \<Rightarrow> nat \<Rightarrow> system \<Rightarrow> system \<Rightarrow> bool" where
  "same_system n k l s s' \<longleftrightarrow>
     (\<forall>x. \<forall>j < l. solves n k s x (\<lambda>r. rhs s r j) \<longleftrightarrow> solves n k s' x (\<lambda>r. rhs s' r j)) \<and>
     (\<forall>x. solves n k s x (\<lambda>_. 0) \<longleftrightarrow> solves n k s' x (\<lambda>_. 0))"

lemma eliminate_column_Inl:
  assumes ok: "sys_ok n k l s" and col: "col < n" and ck: "col < k" and e: "eliminate_column col s = Inl e"
  shows "e = ErrRankDeficient \<and> (\<forall>r. col \<le> r \<and> r < n \<longrightarrow> lhs s r col = 0)"
proof (cases "find (\<lambda>row. Get (fst s) row col \<noteq> 0) [col..<n]")
  case None
  moreover have "gm_Rows (fst s) = n" using ok by (simp add: sys_ok_def)
  ultimately have "e = ErrRankDeficient" using e by (simp add: eliminate_column_def)
  with None show ?thesis by (auto simp: find_None_iff lhs_def gf_hom)
next
  case (Some p)
  then have p: "p < n" "Get (fst s) p col \<noteq> 0" by (auto simp: find_Some_iff)
  have "lhs (pivot_system col p s) col col \<noteq> 0"
    using p pivot_system_view(2)[OF ok col p(1) col ck] by (simp add: swapped_def lhs_def gf_hom)
  then have "gfInv (Get (fst (pivot_system col p s)) col col) \<noteq> None"
    by (simp add: lhs_def gf_hom gfInv_def)
  with e Some ok show ?thesis by (auto simp: eliminate_column_def sys_ok_def Let_def)
qed

lemma eliminate_column_Inr:
  assumes ok: "sys_ok n k l s" and col: "col < n" and ck: "col < k" and e: "eliminate_column col s = Inr s'"
  shows "\<exists>p w. col \<le> p \<and> p < n \<and> w * lhs s p col = 1 \<and> sys_ok n k l s' \<and>
    (\<forall>r < n. \<forall>c < k. lhs s' r c = reduced (\<lambda>r. lhs s (swapped col p r) col) col w (\<lambda>r. lhs s (swapped col p r) c) r) \<and>
    (\<forall>r < n. \<forall>j < l. rhs s' r j = reduced (\<lambda>r. lhs s (swapped col p r) col) col w (\<lambda>r. rhs s (swapped col p r) j) r)"
proof -
  have n: "gm_Rows (fst s) = n" using ok by (simp add: sys_ok_def)
  from e obtain p where f: "find (\<lambda>row. Get (fst s) row col \<noteq> 0) [col..<n] = Some p"
    by (auto simp: eliminate_column_def n split: option.splits)
  then have p: "col \<le> p" "p < n" "Get (fst s) p col \<noteq> 0"
    by (auto simp: find_Some_iff)
  let ?t = "pivot_system col p s"
  note t = pivot_system_view[OF ok col p(2)]
  from e f obtain v where v: "gfInv (Get (fst ?t) col col) = Some v"
    by (auto simp: eliminate_column_def n Let_def split: option.splits)
  let ?u = "(scale_row col v (fst ?t), (snd ?t)[col := map (\<lambda>x. gfMul x v) (snd ?t ! col)])"
  note u = scale_row_view[OF t(1) col, where v = v]
  have s': "s' = fold (eliminate_row col) [0..<n] ?u"
    using e f v t(1) by (simp add: eliminate_column_def n Let_def sys_ok_def)
  note r = eliminate_rows_view[OF u(1) col ck order.refl, folded s']
  have c: "lhs ?t col col = lhs s p col" using t(2)[OF col ck] by (simp add: swapped_def)
  have "gf v * lhs s p col = 1"
    using gf_hom(6)[OF v] p(3) c by (simp add: lhs_def gf_hom)
  then show ?thesis
    using p r t u col ck
    by (intro exI[of _ p] exI[of _ "gf v"]) (auto simp: reduced_def)
qed


lemma reduced_solves:
  assumes "w \<noteq> 0" and "col < n" and "p < n"
    and A: "\<And>r c. r < n \<Longrightarrow> c < k \<Longrightarrow> lhs s' r c = reduced f col w (\<lambda>r. lhs s (swapped col p r) c) r"
    and B: "\<And>r. r < n \<Longrightarrow> b' r = reduced f col w (\<lambda>r. b (swapped col p r)) r"
  shows "solves n k s' x b' \<longleftrightarrow> solves n k s x b"
proof -
  let ?u = "\<lambda>r. \<Sum>c<k. lhs s (swapped col p r) c * x c"
  have "(\<Sum>c<k. lhs s' r c * x c) = reduced f col w ?u r" if "r < n" for r
    using A[OF that] by (simp flip: reduced_sum)
  then have "solves n k s' x b' \<longleftrightarrow> (\<forall>r < n. reduced f col w ?u r = reduced f col w (\<lambda>r. b (swapped col p r)) r)"
    using B by (simp add: solves_def)
  also have "\<dots> \<longleftrightarrow> (\<forall>r < n. ?u r = b (swapped col p r))"
    using assms(1,2) by (rule reduced_eq_iff)
  also have "\<dots> \<longleftrightarrow> solves n k s x b"
    using swapped_all[OF assms(2,3), of "\<lambda>r. (\<Sum>c<k. lhs s r c * x c) = b r"] by (simp add: solves_def)
  finally show ?thesis .
qed

lemma eliminate_column_same:
  assumes ok: "sys_ok n k l s" and col: "col < n" and ck: "col < k" and u: "unit_cols n col s"
    and e: "eliminate_column col s = Inr s'"
  shows "sys_ok n k l s' \<and> unit_cols n (Suc col) s' \<and> same_system n k l s s'"
proof -
  from eliminate_column_Inr[OF ok col ck e] obtain p w where p: "col \<le> p" "p < n" "w * lhs s p col = 1" "sys_ok n k l s'"
    and A: "\<And>r c. r < n \<Longrightarrow> c < k \<Longrightarrow> lhs s' r c = reduced (\<lambda>r. lhs s (swapped col p r) col) col w (\<lambda>r. lhs s (swapped col p r) c) r"
    and B: "\<And>r j. r < n \<Longrightarrow> j < l \<Longrightarrow> rhs s' r j = reduced (\<lambda>r. lhs s (swapped col p r) col) col w (\<lambda>r. rhs s (swapped col p r) j) r"
    by blast
  have w: "w \<noteq> 0" using p(3) by auto
  have "solves n k s' x (\<lambda>r. rhs s' r j) = solves n k s x (\<lambda>r. rhs s r j)" if "j < l" for x j
    using w col p(2) A B[OF _ that] by (rule reduced_solves)
  moreover have "solves n k s' x (\<lambda>_. 0) = solves n k s x (\<lambda>_. 0)" for x
    using w col p(2) A by (rule reduced_solves) (simp_all add: reduced_zero)
  ultimately have "same_system n k l s s'" by (simp add: same_system_def)
  moreover have "lhs s' r c = of_bool (r = c)" if r: "r < n" and c: "c < Suc col" for r c
  proof (cases "c = col")
    case True
    with A[OF r ck] p(3) show ?thesis by (simp add: reduced_def swapped_def)
  next
    case False
    then have z: "c < col" "c < k" using c ck by simp_all
    then have "lhs s p c = 0" "lhs s r c = of_bool (r = c)" "lhs s col c = 0"
      using u p(1,2) r col by (auto simp: unit_cols_def)
    then show ?thesis using A[OF r z(2)] z p(1) by (simp add: reduced_def swapped_def)
  qed
  ultimately show ?thesis using p(4) by (simp add: unit_cols_def)
qed

lemma no_pivot_kernel:
  assumes u: "unit_cols n col s" and z: "\<And>r. col \<le> r \<Longrightarrow> r < n \<Longrightarrow> lhs s r col = 0" and ck: "col < k"
  shows "\<exists>x. x col \<noteq> 0 \<and> solves n k s x (\<lambda>_. 0)"
proof -
  let ?x = "\<lambda>c. if c < col then lhs s c col else of_bool (c = col)"
  have split: "{..<k} = {..<col} \<union> {col} \<union> {Suc col..<k}" using ck by auto
  have "(\<Sum>c<k. lhs s r c * ?x c) = 0" if r: "r < n" for r
  proof -
    have "(\<Sum>c<k. lhs s r c * ?x c) = (\<Sum>c<col. lhs s r c * lhs s c col) + lhs s r col"
      unfolding split by (subst sum.union_disjoint; auto)+
    also have "(\<Sum>c<col. lhs s r c * lhs s c col) = (\<Sum>c<col. if r = c then lhs s r col else 0)"
      using u r by (intro sum.cong) (auto simp: unit_cols_def)
    also have "\<dots> + lhs s r col = 0"
      using z[of r] r by (simp add: sum.delta)
    finally show ?thesis .
  qed
  then have "solves n k s ?x (\<lambda>_. 0)" by (simp add: solves_def)
  then show ?thesis by (intro exI[of _ ?x]) simp
qed

lemma eliminate_from_view:
  assumes "sys_ok n k l s" and "unit_cols n col s" and "col + todo = k" and "k \<le> n"
  shows "case eliminate_from todo col s of
      Inr s' \<Rightarrow> sys_ok n k l s' \<and> unit_cols n k s' \<and> same_system n k l s s'
    | Inl e \<Rightarrow> e = ErrRankDeficient \<and> (\<exists>x. (\<exists>c < k. x c \<noteq> 0) \<and> solves n k s x (\<lambda>_. 0))"
  using assms
proof (induction todo arbitrary: col s)
  case 0
  then show ?case by (simp add: same_system_def)
next
  case (Suc todo)
  then have col: "col < n" "col < k" by simp_all
  show ?case
  proof (cases "eliminate_column col s")
    case (Inl e)
    note z = eliminate_column_Inl[OF Suc.prems(1) col Inl]
    with no_pivot_kernel[OF Suc.prems(2) _ col(2)] Inl col show ?thesis by auto
  next
    case (Inr t)
    note t = eliminate_column_same[OF Suc.prems(1) col Suc.prems(2) Inr]
    with Suc.IH[of t "Suc col"] Suc.prems(3,4) Inr show ?thesis
      by (auto simp: same_system_def split: sum.splits)
  qed
qed

subsection \<open>What elimination decides\<close>

definition dot :: "bytes \<Rightarrow> bytes \<Rightarrow> byte" where
  "dot cs v = foldr gfAdd (map2 gfMul cs v) 0"

definition full_rank :: "nat \<Rightarrow> bytes list \<Rightarrow> bool" where
  "full_rank k rows \<longleftrightarrow> (\<forall>v. length v = k \<and> (\<forall>cs \<in> set rows. dot cs v = 0) \<longrightarrow> v = replicate k 0)"

lemma gf_dot: "length v = length cs \<Longrightarrow> gf (dot cs v) = (\<Sum>c<length cs. gf (cs ! c) * gf (v ! c))"
proof (induction cs arbitrary: v)
  case (Cons c cs)
  then obtain x u where "v = x # u" "length u = length cs" by (cases v) auto
  with Cons.IH[of u] show ?case by (simp add: dot_def gf_hom lessThan_Suc_eq_insert_0 sum.insert_if sum.reindex)
qed (simp add: dot_def gf_hom)

lemma start_system:
  assumes "matrix_ok m" and "gm_Rows m = n" and "gm_Cols m = k" and "length ps = n" and "\<And>r. r < n \<Longrightarrow> length (ps ! r) = l"
  shows "sys_ok n k l (m, ps)" "unit_cols n 0 (m, ps)"
  using assms by (simp_all add: sys_ok_def unit_cols_def)

lemma solves_unit: "unit_cols n k s \<Longrightarrow> k \<le> n \<Longrightarrow> solves n k s x b \<Longrightarrow> c < k \<Longrightarrow> x c = b c"
proof -
  assume u: "unit_cols n k s" and s: "solves n k s x b" and c: "c < k" "k \<le> n"
  then have "(\<Sum>i<k. lhs s c i * x i) = b c" by (simp add: solves_def)
  moreover have "(\<Sum>i<k. lhs s c i * x i) = (\<Sum>i<k. if c = i then x i else 0)"
    using u c by (intro sum.cong) (auto simp: unit_cols_def)
  ultimately show ?thesis using c by (simp add: sum.delta)
qed

text \<open>
  On a system of \<open>n\<close> rows with a solution, elimination returns that solution when the rows have
  full rank and reports a rank deficiency otherwise. It never returns anything else.
\<close>

lemma elimination_decides:
  assumes m: "matrix_ok m" "gm_Rows m = n" "gm_Cols m = k" and k: "0 < k" "k \<le> n"
    and ps: "length ps = n" "\<And>r. r < n \<Longrightarrow> length (ps ! r) = l"
    and xs: "length xs = k" "\<And>c. c < k \<Longrightarrow> length (xs ! c) = l"
    and sol: "\<And>j. j < l \<Longrightarrow> solves n k (m, ps) (\<lambda>c. gf (xs ! c ! j)) (\<lambda>r. gf (ps ! r ! j))"
  shows "GaussianEliminate m ps =
    (if \<forall>x. solves n k (m, ps) x (\<lambda>_. 0) \<longrightarrow> (\<forall>c < k. x c = 0) then Inr xs else Inl ErrRankDeficient)"
proof -
  have copy: "(NewGFMatrix n k)\<lparr>gm_Data := copy_into (replicate (n * k) 0) (gm_Data m)\<rparr> = m"
    using m by (cases m) (simp add: NewGFMatrix_def copy_into_def matrix_ok_def)
  have "ps \<noteq> []" using k ps(1) by auto
  then obtain p qs where q: "ps = p # qs" by (cases ps) auto
  have lens: "length p = l" using ps(2)[of 0] k q by simp
  have "length x = l" if x: "x \<in> set qs" for x
  proof -
    from x obtain i where "i < length qs" "x = qs ! i" by (auto simp: in_set_conv_nth)
    with ps(1) ps(2)[of "Suc i"] q show ?thesis by simp
  qed
  then have g: "GaussianEliminate m ps =
      (case eliminate_from k 0 (m, ps) of Inl e \<Rightarrow> Inl e | Inr s \<Rightarrow> Inr (take k (snd s)))"
    using m k ps(1) copy lens by (simp add: GaussianEliminate_def Let_def q list_all_iff)
  note v = eliminate_from_view[OF start_system[OF m ps] add_0 k(2)]
  show ?thesis
  proof (cases "eliminate_from k 0 (m, ps)")
    case (Inl e)
    with v g show ?thesis by auto
  next
    case (Inr s)
    with v have s: "sys_ok n k l s" "unit_cols n k s" "same_system n k l (m, ps) s" by simp_all
    have "take k (snd s) = xs"
    proof (rule nth_equalityI)
      show "length (take k (snd s)) = length xs" using s(1) k(2) xs(1) by (simp add: sys_ok_def)
      fix c assume "c < length (take k (snd s))"
      then have c: "c < k" by simp
      have "snd s ! c ! j = xs ! c ! j" if j: "j < l" for j
      proof -
        from sol[OF j] s(3) j have "solves n k s (\<lambda>c. gf (xs ! c ! j)) (\<lambda>r. rhs s r j)"
          by (simp add: same_system_def rhs_def)
        from solves_unit[OF s(2) k(2) this c] show ?thesis by (simp add: rhs_def gf_inject)
      qed
      then show "take k (snd s) ! c = xs ! c"
        using s(1) c k(2) xs(2) by (intro nth_equalityI) (simp_all add: sys_ok_def)
    qed
    moreover have "x c = 0" if "solves n k (m, ps) x (\<lambda>_. 0)" "c < k" for x c
      using that s(3) solves_unit[OF s(2) k(2), of x "\<lambda>_. 0" c] by (simp add: same_system_def)
    ultimately show ?thesis using g Inr by auto
  qed
qed

subsection \<open>Coded packets\<close>

definition RLNCVersion :: byte where "RLNCVersion = 0x01"
definition rlncHashLen :: nat where "rlncHashLen = 32"
definition rlncFixedHdrLen :: nat where "rlncFixedHdrLen = rlncHashLen + 1 + 2 + 1"
definition rlncMinPacketLen :: nat where "rlncMinPacketLen = rlncFixedHdrLen + 1 + 1"

lemmas rlnc_sizes = RLNCVersion_def rlncHashLen_def rlncFixedHdrLen_def rlncMinPacketLen_def

record RLNCCodedPacket =
  cp_ResourceHash :: bytes
  cp_Version :: byte
  cp_GenerationID :: u16
  cp_K :: byte
  cp_Coefficients :: bytes
  cp_Payload :: bytes

definition MarshalRLNCPacket :: "RLNCCodedPacket \<Rightarrow> bytes" where
  "MarshalRLNCPacket pkt =
     (let k = unat (cp_K pkt);
          buf = copy_into (replicate (k + length (cp_Payload pkt)) 0) (cp_Coefficients pkt) in
      cp_ResourceHash pkt @ [cp_Version pkt] @ le16 (cp_GenerationID pkt) @ [cp_K pkt] @
      take k buf @ cp_Payload pkt)"

definition UnmarshalRLNCPacket :: "bytes \<Rightarrow> rlnc_error + RLNCCodedPacket" where
  "UnmarshalRLNCPacket data =
     (if length data < rlncMinPacketLen then Inl ErrRLNCPacketTooShort
      else if data ! rlncHashLen \<noteq> RLNCVersion then Inl ErrRLNCBadVersion
      else let kb = data ! (rlncHashLen + 3) in
        if kb = 0 then Inl ErrRLNCBadK
        else let coeffEnd = rlncFixedHdrLen + unat kb in
          if length data < coeffEnd + 1 then Inl ErrRLNCPacketTooShort
          else Inr \<lparr>cp_ResourceHash = take rlncHashLen data, cp_Version = data ! rlncHashLen,
            cp_GenerationID = un_le16 (drop (rlncHashLen + 1) data), cp_K = kb,
            cp_Coefficients = slice rlncFixedHdrLen coeffEnd data, cp_Payload = drop coeffEnd data\<rparr>)"

definition coded_ok :: "RLNCCodedPacket \<Rightarrow> bool" where
  "coded_ok p \<longleftrightarrow> length (cp_ResourceHash p) = 32 \<and> cp_Version p = RLNCVersion \<and> cp_K p \<noteq> 0 \<and>
     length (cp_Coefficients p) = unat (cp_K p) \<and> cp_Payload p \<noteq> []"

lemma marshal_coded:
  "unat (cp_K p) \<le> length (cp_Coefficients p) \<Longrightarrow>
   MarshalRLNCPacket p = cp_ResourceHash p @ [cp_Version p] @ le16 (cp_GenerationID p) @ [cp_K p] @
     take (unat (cp_K p)) (cp_Coefficients p) @ cp_Payload p"
  by (simp add: MarshalRLNCPacket_def Let_def copy_into_def)

lemma unmarshal_coded_parts:
  assumes "length h = 32" and "payload \<noteq> []" and "length cs = unat kb"
  shows "UnmarshalRLNCPacket (h @ [RLNCVersion] @ le16 g @ [kb] @ cs @ payload) =
    (if kb = 0 then Inl (if length payload < 2 then ErrRLNCPacketTooShort else ErrRLNCBadK)
     else Inr \<lparr>cp_ResourceHash = h, cp_Version = RLNCVersion, cp_GenerationID = g, cp_K = kb,
       cp_Coefficients = cs, cp_Payload = payload\<rparr>)"
proof -
  obtain d where d: "d = h @ [RLNCVersion] @ le16 g @ [kb] @ cs @ payload" by blast
  have "d ! 32 = RLNCVersion" "d ! 35 = kb" using assms(1) by (simp_all add: d nth_append le16_def)
  moreover have "length d = 36 + unat kb + length payload" "0 < length payload" using assms by (simp_all add: d)
  moreover have "drop 33 d = le16 g @ [kb] @ cs @ payload" "take 32 d = h"
    "slice 36 (36 + unat kb) d = cs" "drop (36 + unat kb) d = payload"
    using assms by (simp_all add: d slice_def le16_def drop_Cons')
  moreover have "kb \<noteq> 0 \<Longrightarrow> 0 < unat kb" by (simp add: unat_gt_0)
  ultimately show ?thesis unfolding d[symmetric]
    by (cases "kb = 0") (auto simp: UnmarshalRLNCPacket_def rlnc_sizes(2-) Let_def)
qed

lemma coded_dec_enc: "coded_ok p \<Longrightarrow> UnmarshalRLNCPacket (MarshalRLNCPacket p) = Inr p"
  using unmarshal_coded_parts[of "cp_ResourceHash p" "cp_Payload p" "cp_Coefficients p" "cp_K p" "cp_GenerationID p"]
  by (simp add: coded_ok_def marshal_coded)

lemma coded_enc_dec: "UnmarshalRLNCPacket bs = Inr p \<Longrightarrow> coded_ok p \<and> MarshalRLNCPacket p = bs"
proof -
  assume u: "UnmarshalRLNCPacket bs = Inr p"
  let ?k = "unat (bs ! 35)"
  from u have l: "37 + ?k \<le> length bs" and v: "bs ! 32 = RLNCVersion" "bs ! 35 \<noteq> 0"
    and p: "p = \<lparr>cp_ResourceHash = take 32 bs, cp_Version = bs ! 32, cp_GenerationID = un_le16 (drop 33 bs),
      cp_K = bs ! 35, cp_Coefficients = slice 36 (36 + ?k) bs, cp_Payload = drop (36 + ?k) bs\<rparr>"
    by (auto simp: UnmarshalRLNCPacket_def rlnc_sizes(2-) Let_def split: if_splits)
  have ok: "coded_ok p" using l v by (simp add: p coded_ok_def)
  have "un_le16 (slice 33 35 bs) = un_le16 (drop 33 bs)" by (simp add: un_le16_def slice_def)
  with l le16_un_le16[of "slice 33 35 bs"] have "slice 33 35 bs = le16 (un_le16 (drop 33 bs))" by simp
  then have "take 36 bs = take 32 bs @ [bs ! 32] @ le16 (un_le16 (drop 33 bs)) @ [bs ! 35]"
    using take_Suc_conv_app_nth[of 32 bs] take_slice[of 33 35 bs] take_Suc_conv_app_nth[of 35 bs] l by simp
  then have "MarshalRLNCPacket p = bs"
    using ok l take_slice_drop[of 36 "36 + ?k" bs] by (simp add: marshal_coded coded_ok_def p)
  with ok show ?thesis ..
qed

interpretation coded_packet: strict_codec MarshalRLNCPacket UnmarshalRLNCPacket coded_ok "\<lambda>_. True"
  by unfold_locales (simp_all add: coded_dec_enc coded_enc_dec)

subsection \<open>Generations\<close>

record RLNCGeneration =
  gen_ID :: u16
  gen_K :: nat
  gen_PayloadSize :: nat
  gen_Received :: "RLNCCodedPacket list"
  gen_Decoded :: bool
  gen_DecodedData :: "bytes list"

definition NewRLNCGeneration :: "u16 \<Rightarrow> nat \<Rightarrow> nat \<Rightarrow> RLNCGeneration" where
  "NewRLNCGeneration gid k payloadSize =
     \<lparr>gen_ID = gid, gen_K = k, gen_PayloadSize = payloadSize, gen_Received = [], gen_Decoded = False,
      gen_DecodedData = []\<rparr>"

definition AddPacket :: "RLNCCodedPacket \<Rightarrow> RLNCGeneration \<Rightarrow> bool \<times> RLNCGeneration" where
  "AddPacket pkt g =
     (if gen_Decoded g then (True, g)
      else let g = g\<lparr>gen_Received := gen_Received g @ [pkt]\<rparr> in (gen_K g \<le> length (gen_Received g), g))"

definition coefficient_matrix :: "nat \<Rightarrow> RLNCCodedPacket list \<Rightarrow> GFMatrix" where
  "coefficient_matrix k pkts =
     fold (\<lambda>i m. fold (\<lambda>j m. Set m i j (cp_Coefficients (pkts ! i) ! j)) [0..<k] m) [0..<length pkts]
       (NewGFMatrix (length pkts) k)"

text \<open>Reading coefficient \<open>j < K\<close> of a packet that has fewer panics.\<close>

definition TryDecode :: "RLNCGeneration \<Rightarrow> (rlnc_error + bytes list) \<times> RLNCGeneration" where
  "TryDecode g =
     (if gen_Decoded g then (Inr (gen_DecodedData g), g)
      else if length (gen_Received g) < gen_K g then (Inl ErrRLNCNotDecodable, g)
      else if \<not> list_all (\<lambda>p. gen_K g \<le> length (cp_Coefficients p)) (gen_Received g) then (Inl RlncPanic, g)
      else (case GaussianEliminate (coefficient_matrix (gen_K g) (gen_Received g)) (map cp_Payload (gen_Received g)) of
          Inl RlncPanic \<Rightarrow> (Inl RlncPanic, g)
        | Inl _ \<Rightarrow> (Inl ErrRLNCNotDecodable, g)
        | Inr decoded \<Rightarrow> (Inr decoded, g\<lparr>gen_Decoded := True, gen_DecodedData := decoded\<rparr>)))"

definition max_length :: "bytes list \<Rightarrow> nat" where
  "max_length segments = fold (\<lambda>seg m. if m < length seg then length seg else m) segments 0"

definition pad_segments :: "bytes list \<Rightarrow> bytes list" where
  "pad_segments segments = map (copy_into (replicate (max_length segments) 0)) segments"

definition coded_count :: "nat \<Rightarrow> rat \<Rightarrow> nat" where
  "coded_count k redundancy =
     (let redundancy = (if redundancy < 1 then 1 else redundancy);
          n = nat \<lfloor>of_nat k * redundancy + 999999 / 1000000\<rfloor> in
      if n < k then k else n)"

definition draw_coefficients :: "nat \<Rightarrow> (nat \<Rightarrow> byte) \<Rightarrow> bytes" where
  "draw_coefficients k draw =
     (let coefficients = map draw [0..<k] in
      if list_all (\<lambda>c. c = 0) coefficients then coefficients[0 := 1] else coefficients)"

definition coded_payload :: "bytes \<Rightarrow> bytes list \<Rightarrow> nat \<Rightarrow> bytes" where
  "coded_payload coefficients padded payloadSize =
     fold (\<lambda>j payload.
         if coefficients ! j = 0 then payload
         else map2 (\<lambda>x y. gfAdd x (gfMul (coefficients ! j) y)) payload (padded ! j))
       [0..<length padded] (replicate payloadSize 0)"

definition EncodeGeneration ::
    "u16 \<Rightarrow> bytes \<Rightarrow> bytes list \<Rightarrow> rat \<Rightarrow> (nat \<Rightarrow> nat \<Rightarrow> byte) \<Rightarrow> RLNCCodedPacket list" where
  "EncodeGeneration genID resourceHash segments redundancy rnd =
     (let k = length segments in
      if k = 0 then []
      else map (\<lambda>i. let coefficients = draw_coefficients k (rnd i) in
          \<lparr>cp_ResourceHash = resourceHash, cp_Version = RLNCVersion, cp_GenerationID = genID,
           cp_K = of_nat k, cp_Coefficients = coefficients,
           cp_Payload = coded_payload coefficients (pad_segments segments) (max_length segments)\<rparr>)
        [0..<coded_count k redundancy])"

subsection \<open>From segments to coded packets and back\<close>

lemma max_length_fold: "m \<le> fold (\<lambda>seg m. if m < length seg then length seg else m) segs m \<and>
    (\<forall>s \<in> set segs. length s \<le> fold (\<lambda>seg m. if m < length seg then length seg else m) segs m)"
proof (induction segs arbitrary: m)
  case (Cons s segs)
  from Cons.IH[of "length s"] Cons.IH[of m] show ?case by auto
qed simp

lemma max_length: "s \<in> set segs \<Longrightarrow> length s \<le> max_length segs"
  using max_length_fold[of 0 segs] by (simp add: max_length_def)

lemma length_pad: "p \<in> set (pad_segments segs) \<Longrightarrow> length p = max_length segs"
  using max_length[of _ segs] by (auto simp: pad_segments_def copy_into_def)

lemma pad_segments_nth: "i < length segs \<Longrightarrow>
    pad_segments segs ! i = segs ! i @ replicate (max_length segs - length (segs ! i)) 0"
  using max_length[of "segs ! i" segs] by (simp add: pad_segments_def copy_into_def)

lemma length_draw [simp]: "length (draw_coefficients k draw) = k"
  by (simp add: draw_coefficients_def Let_def)

lemma coded_payload_fold:
  fixes cs :: bytes
  assumes "\<And>i. i < length padded \<Longrightarrow> length (padded ! i) = l" and "b \<le> length padded"
  defines "r \<equiv> fold (\<lambda>j payload.
         if cs ! j = 0 then payload else map2 (\<lambda>x y. gfAdd x (gfMul (cs ! j) y)) payload (padded ! j)) [0..<b] (replicate l 0)"
  shows "length r = l \<and> (\<forall>i < l. gf (r ! i) = (\<Sum>j<b. gf (cs ! j) * gf (padded ! j ! i)))"
  unfolding r_def using assms(2)
proof (induction b)
  case (Suc b)
  with assms(1)[of b] show ?case by (auto simp: gf_hom)
qed (simp add: gf_hom)

lemma coded_payload:
  assumes "\<And>p. p \<in> set padded \<Longrightarrow> length p = l"
  shows "length (coded_payload cs padded l) = l"
    "i < l \<Longrightarrow> gf (coded_payload cs padded l ! i) = (\<Sum>j<length padded. gf (cs ! j) * gf (padded ! j ! i))"
  using coded_payload_fold[of padded l "length padded" cs] assms by (simp_all add: coded_payload_def)

lemma set_rows_fold:
  fixes f :: "nat \<Rightarrow> nat \<Rightarrow> byte"
  assumes "matrix_ok m" and "b \<le> gm_Rows m" and "gm_Cols m = k"
  defines "m' \<equiv> fold (\<lambda>i m. fold (\<lambda>j m. Set m i j (f i j)) [0..<k] m) [0..<b] m"
  shows "matrix_ok m' \<and> gm_Rows m' = gm_Rows m \<and> gm_Cols m' = k \<and>
    (\<forall>r < gm_Rows m. \<forall>c < k. Get m' r c = (if r < b then f r c else Get m r c))"
  unfolding m'_def using assms(2)
proof (induction b)
  case (Suc b)
  let ?t = "fold (\<lambda>i m. fold (\<lambda>j m. Set m i j (f i j)) [0..<k] m) [0..<b] m"
  from Suc have t: "matrix_ok ?t" "b < gm_Rows ?t" "gm_Rows ?t = gm_Rows m" "k \<le> gm_Cols ?t" "gm_Cols ?t = k"
    "\<And>r c. r < gm_Rows m \<Longrightarrow> c < k \<Longrightarrow> Get ?t r c = (if r < b then f r c else Get m r c)"
    by simp_all
  from row_fold[OF t(1,2,2,4), of "\<lambda>c _ _. f b c"] t(3-) show ?case
    by (auto simp: less_Suc_eq)
qed (use assms in simp)

lemma coefficient_matrix:
  "matrix_ok (coefficient_matrix k pkts)" "gm_Rows (coefficient_matrix k pkts) = length pkts"
  "gm_Cols (coefficient_matrix k pkts) = k"
  "i < length pkts \<Longrightarrow> j < k \<Longrightarrow> Get (coefficient_matrix k pkts) i j = cp_Coefficients (pkts ! i) ! j"
  using set_rows_fold[of "NewGFMatrix (length pkts) k" "length pkts" k "\<lambda>i j. cp_Coefficients (pkts ! i) ! j"]
  by (simp_all add: coefficient_matrix_def NewGFMatrix_def matrix_ok_def)

lemma kernel_full_rank:
  assumes len: "\<And>p. p \<in> set pkts \<Longrightarrow> length (cp_Coefficients p) = k"
  shows "(\<forall>x. solves (length pkts) k (coefficient_matrix k pkts, ps) x (\<lambda>_. 0) \<longrightarrow> (\<forall>c < k. x c = 0)) \<longleftrightarrow>
    full_rank k (map cp_Coefficients pkts)" (is "?K \<longleftrightarrow> ?F")
proof -
  have row: "solves (length pkts) k (coefficient_matrix k pkts, ps) (\<lambda>c. gf (v ! c)) (\<lambda>_. 0) \<longleftrightarrow>
      (\<forall>p \<in> set pkts. dot (cp_Coefficients p) v = 0)" if v: "length v = k" for v
  proof -
    have "gf (dot (cp_Coefficients (pkts ! r)) v) = (\<Sum>c<k. lhs (coefficient_matrix k pkts, ps) r c * gf (v ! c))"
      if "r < length pkts" for r
      using gf_dot[of v "cp_Coefficients (pkts ! r)"] v len[OF nth_mem[OF that]] coefficient_matrix(4)[OF that]
      by (simp add: lhs_def)
    then have "(\<Sum>c<k. lhs (coefficient_matrix k pkts, ps) r c * gf (v ! c)) = 0 \<longleftrightarrow> dot (cp_Coefficients (pkts ! r)) v = 0"
      if "r < length pkts" for r
      using that gf_hom(5)[of "dot (cp_Coefficients (pkts ! r)) v"] by simp
    then show ?thesis by (auto simp: solves_def all_set_conv_all_nth)
  qed
  have lift: "solves n k s (\<lambda>c. gf (map (\<lambda>c. byte_of (x c)) [0..<k] ! c)) b = solves n k s x b" for n s x b
    by (simp add: solves_def byte_of_inverse)
  show ?thesis
  proof
    assume K: ?K
    show ?F unfolding full_rank_def
    proof (intro allI impI)
      fix v assume v: "length v = k \<and> (\<forall>cs \<in> set (map cp_Coefficients pkts). dot cs v = 0)"
      with row[of v] have "solves (length pkts) k (coefficient_matrix k pkts, ps) (\<lambda>c. gf (v ! c)) (\<lambda>_. 0)" by simp
      with K have "\<forall>c < k. gf (v ! c) = 0" by blast
      then have "\<forall>c < k. v ! c = 0" by (simp add: gf_hom)
      with v show "v = replicate k 0" by (intro nth_equalityI) auto
    qed
  next
    assume F: ?F
    show ?K
    proof (intro allI impI)
      fix x c assume s: "solves (length pkts) k (coefficient_matrix k pkts, ps) x (\<lambda>_. 0)" and c: "c < k"
      let ?v = "map (\<lambda>c. byte_of (x c)) [0..<k]"
      from s row[of ?v] F have "?v = replicate k 0" by (simp add: lift full_rank_def)
      then have "?v ! c = replicate k 0 ! c" by (rule arg_cong)
      with c have "byte_of (x c) = 0" by simp
      then show "x c = 0" by (metis byte_of_inverse gf_hom(3))
    qed
  qed
qed

lemma collect_packets:
  "\<not> gen_Decoded g \<Longrightarrow>
   fold (\<lambda>p g. snd (AddPacket p g)) pkts g = g\<lparr>gen_Received := gen_Received g @ pkts\<rparr>"
  by (induction pkts arbitrary: g) (simp_all add: AddPacket_def Let_def)

lemma encoded_packet:
  assumes "p \<in> set (EncodeGeneration gid h segs red rnd)"
  shows "cp_ResourceHash p = h" "cp_Version p = RLNCVersion" "cp_GenerationID p = gid" "cp_K p = of_nat (length segs)"
    "length (cp_Coefficients p) = length segs"
    "cp_Payload p = coded_payload (cp_Coefficients p) (pad_segments segs) (max_length segs)"
  using assms by (auto simp: EncodeGeneration_def Let_def split: if_splits)

lemma length_pad_segments [simp]: "length (pad_segments segs) = length segs"
  by (simp add: pad_segments_def)

lemma decode_encoded:
  assumes k: "segs \<noteq> []" "length segs \<le> length rcv" and rcv: "set rcv \<subseteq> set (EncodeGeneration gid h segs red rnd)"
  shows "GaussianEliminate (coefficient_matrix (length segs) rcv) (map cp_Payload rcv) =
    (if full_rank (length segs) (map cp_Coefficients rcv) then Inr (pad_segments segs) else Inl ErrRankDeficient)"
proof -
  let ?k = "length segs" and ?l = "max_length segs" and ?m = "coefficient_matrix (length segs) rcv"
  note e = encoded_packet[OF subsetD[OF rcv]]
  note pl = coded_payload[OF length_pad]
  have "solves (length rcv) ?k (?m, map cp_Payload rcv) (\<lambda>c. gf (pad_segments segs ! c ! j)) (\<lambda>r. gf (map cp_Payload rcv ! r ! j))"
    if "j < ?l" for j
    using that e(6)[OF nth_mem] pl(2)[OF _ that] by (auto simp: solves_def lhs_def coefficient_matrix(4))
  moreover have "length (pad_segments segs ! c) = ?l" if "c < ?k" for c
    using that by (intro length_pad nth_mem) simp
  moreover have "length (map cp_Payload rcv ! r) = ?l" if "r < length rcv" for r
    using that e(6)[OF nth_mem[OF that]] pl(1) by simp
  ultimately have "GaussianEliminate ?m (map cp_Payload rcv) =
      (if \<forall>x. solves (length rcv) ?k (?m, map cp_Payload rcv) x (\<lambda>_. 0) \<longrightarrow> (\<forall>c < ?k. x c = 0)
       then Inr (pad_segments segs) else Inl ErrRankDeficient)"
    using k by (intro elimination_decides[where l = ?l]) (simp_all add: coefficient_matrix)
  then show ?thesis using kernel_full_rank[of rcv ?k] e(5) by simp
qed

text \<open>
  C2. Network-coded transfer is exact: whatever random coefficients were drawn, a receiver that
  collected any packets of a generation of fewer than 256 segments, in any order and with repetitions,
  parses each as it was sent, and decodes the padded segments exactly when it has at least as many
  packets as there are segments and their coefficient vectors have full rank; otherwise decoding
  reports that it is not yet possible. No combination of packets decodes to anything else.
\<close>

theorem coded_generation_decodes:
  assumes "segs \<noteq> []" and "length segs < 256" and "length h = 32" and "0 < max_length segs"
    and "set rcv \<subseteq> set (EncodeGeneration gid h segs redundancy rnd)"
  shows "list_all (\<lambda>p. UnmarshalRLNCPacket (MarshalRLNCPacket p) = Inr p) rcv \<and>
    fst (TryDecode (fold (\<lambda>p g. snd (AddPacket p g)) rcv (NewRLNCGeneration gid (length segs) sz))) =
      (if length segs \<le> length rcv \<and> full_rank (length segs) (map cp_Coefficients rcv)
       then Inr (pad_segments segs) else Inl ErrRLNCNotDecodable)"
proof -
  note e = encoded_packet[OF subsetD[OF assms(5)]]
  have "unat (of_nat (length segs) :: byte) = length segs" using assms(2) by (simp add: unat_of_nat)
  moreover have "(of_nat (length segs) :: byte) \<noteq> 0" using assms(1) calculation by auto
  ultimately have "coded_ok p" if "p \<in> set rcv" for p
    using e[OF that] assms(3,4) coded_payload(1)[OF length_pad, where cs = "cp_Coefficients p"]
    by (auto simp: coded_ok_def simp flip: length_greater_0_conv)
  then have "list_all (\<lambda>p. UnmarshalRLNCPacket (MarshalRLNCPacket p) = Inr p) rcv"
    by (simp add: list_all_iff coded_packet.dec_enc)
  moreover have "\<not> gen_Decoded (NewRLNCGeneration gid (length segs) sz)" by (simp add: NewRLNCGeneration_def)
  ultimately show ?thesis
    using decode_encoded[OF assms(1) _ assms(5)] e(5)
    by (auto simp: collect_packets TryDecode_def NewRLNCGeneration_def list_all_iff)
qed


theorem coded_generation_decodes_witness:
  "let rnd = \<lambda>i j. of_bool (i = j); segs = [[7], [9, 8]];
       pkts = EncodeGeneration 3 (replicate 32 1) segs 1 rnd in
   map cp_Coefficients pkts = [[1, 0], [0, 1]] \<and>
   fst (TryDecode (fold (\<lambda>p g. snd (AddPacket p g)) (rev pkts) (NewRLNCGeneration 3 2 2))) = Inr [[7, 0], [9, 8]]"
proof -
  let ?rnd = "\<lambda>i j. of_bool (i = j) :: byte" and ?segs = "[[7], [9, 8]] :: bytes list"
  let ?pkts = "EncodeGeneration 3 (replicate 32 1) ?segs 1 ?rnd"
  have "\<lfloor>2999999 / 1000000 :: rat\<rfloor> = 2" by (rule floor_unique) simp_all
  then have "coded_count 2 1 = 2" by (simp add: coded_count_def)
  then have cs: "map cp_Coefficients ?pkts = [[1, 0], [0, 1]]"
    by (simp add: EncodeGeneration_def Let_def draw_coefficients_def upt_rec numeral_2_eq_2)
  have "full_rank 2 (map cp_Coefficients (rev ?pkts))"
    unfolding full_rank_def rev_map[symmetric] cs
    by (auto simp: dot_def gfAdd_def gfMul_one numeral_2_eq_2 length_Suc_conv)
  moreover have "length ?pkts = 2" using arg_cong[OF cs, of length] by simp
  moreover have "max_length ?segs = 2" "pad_segments ?segs = [[7, 0], [9, 8]]"
    by (simp_all add: max_length_def pad_segments_def copy_into_def numeral_2_eq_2)
  ultimately show ?thesis
    using cs coded_generation_decodes[of ?segs "replicate 32 1" "rev ?pkts" 3 1 ?rnd 2]
    by (simp add: Let_def numeral_2_eq_2)
qed

text \<open>
  C33. The number of segments travels in one byte. For a generation of 256 segments or more the
  receiver sees a smaller number: the packet it parses is never the one that was coded, and when the number of
  segments is a multiple of 256 every packet is rejected. Such a transfer cannot be decoded.
\<close>

theorem large_generation_truncated:
  assumes "256 \<le> length segs" and "length h = 32" and "2 \<le> max_length segs"
    and "p \<in> set (EncodeGeneration gid h segs redundancy rnd)"
  shows "case UnmarshalRLNCPacket (MarshalRLNCPacket p) of
      Inl e \<Rightarrow> e = ErrRLNCBadK \<and> length segs mod 256 = 0
    | Inr q \<Rightarrow> length (cp_Coefficients q) = length segs mod 256 \<and> length segs mod 256 \<noteq> 0 \<and>
        cp_Coefficients q = take (length segs mod 256) (cp_Coefficients p) \<and> cp_Payload q = cp_Payload p"
proof -
  note e = encoded_packet[OF assms(4)]
  have k: "unat (cp_K p) = length segs mod 256" by (simp add: e(4) unat_of_nat)
  then have z: "cp_K p = 0 \<longleftrightarrow> length segs mod 256 = 0" by (metis unat_eq_zero)
  have "length segs mod 256 < 256" by simp
  with assms(1) have le: "length segs mod 256 \<le> length segs" by linarith
  have "length (cp_Payload p) = max_length segs"
    using e(6) coded_payload(1)[OF length_pad, where cs = "cp_Coefficients p"] by simp
  with assms(3) have "2 \<le> length (cp_Payload p)" "cp_Payload p \<noteq> []" by auto
  then show ?thesis
    using unmarshal_coded_parts[of h "cp_Payload p" "take (length segs mod 256) (cp_Coefficients p)" "cp_K p" gid]
      assms(2) le k z e by (simp add: marshal_coded)
qed


theorem large_generation_truncated_witness:
  "\<exists>p \<in> set (EncodeGeneration 0 (replicate 32 1) (replicate 256 [5, 6]) 1 (\<lambda>_ _. 1)).
     UnmarshalRLNCPacket (MarshalRLNCPacket p) = Inl ErrRLNCBadK"
proof -
  let ?segs = "replicate 256 [5, 6] :: bytes list"
  let ?pkts = "EncodeGeneration 0 (replicate 32 1) ?segs 1 (\<lambda>_ _. 1)"
  have "256 \<le> length ?pkts" by (simp add: EncodeGeneration_def Let_def coded_count_def)
  then have p: "hd ?pkts \<in> set ?pkts" by (intro hd_in_set) auto
  have "2 \<le> max_length ?segs" using max_length[of "[5, 6]" ?segs] by simp
  with p large_generation_truncated[of ?segs "replicate 32 1" "hd ?pkts" 0 1 "\<lambda>_ _. 1"]
  have "UnmarshalRLNCPacket (MarshalRLNCPacket (hd ?pkts)) = Inl ErrRLNCBadK"
    by (simp split: sum.splits)
  with p show ?thesis ..
qed

end
