(* ===== verification/Resource.thy ===== *)
theory Resource
  imports Rlnc Relay
begin

section \<open>Resource transfer\<close>

text \<open>
  \<open>internal/reticulum/resource.go\<close>, the four messages and the segment bitmap, and
  \<open>internal/routing/resource.go\<close>, the transfer manager on both sides, with the part of
  \<open>internal/engine/processor.go\<close> that hands data packets to it. SHA-256 is an argument, as are the
  clock, the random draws of the coder and \<open>sendFn\<close>, of which only success or failure is
  observed. What a handler does besides changing its state is a list of effects: a packet given to
  \<open>sendFn\<close>, a call of \<open>onReceive\<close>, a resource put on the channel of its transfer. The channel has room
  for the one value that is ever sent, since delivery removes the transfer. Handlers run one at a time.
\<close>

unbundle bit_operations_syntax

subsection \<open>Messages\<close>

definition MaxResourceSize :: nat where "MaxResourceSize = 2 ^ 20"
definition ContextResource :: byte where "ContextResource = 0x01"
definition ContextResourceAdv :: byte where "ContextResourceAdv = 0x02"
definition ContextResourceReq :: byte where "ContextResourceReq = 0x03"
definition ContextResourcePRF :: byte where "ContextResourcePRF = 0x05"
definition ContextResourceRLNC :: byte where "ContextResourceRLNC = 0x0F"

lemmas resource_contexts = ContextResource_def ContextResourceAdv_def ContextResourceReq_def
  ContextResourcePRF_def ContextResourceRLNC_def ContextRequest_def ContextPathResponse_def

datatype resource_error = ErrResourceTooShort | ErrResourceTooBig | ResourceSendFailed

record ResourceAdvertisement =
  ad_ResourceHash :: bytes
  ad_TotalSize :: u32
  ad_SegmentSize :: u16
  ad_SegmentCount :: u16

definition MarshalResourceAdv :: "ResourceAdvertisement \<Rightarrow> bytes" where
  "MarshalResourceAdv adv = ad_ResourceHash adv @ le32 (ad_TotalSize adv) @ le16 (ad_SegmentSize adv) @
     le16 (ad_SegmentCount adv)"

definition UnmarshalResourceAdv :: "bytes \<Rightarrow> resource_error + ResourceAdvertisement" where
  "UnmarshalResourceAdv data =
     (if length data < FullHashLen + 4 + 2 + 2 then Inl ErrResourceTooShort
      else Inr \<lparr>ad_ResourceHash = take FullHashLen data, ad_TotalSize = un_le32 (drop FullHashLen data),
        ad_SegmentSize = un_le16 (drop (FullHashLen + 4) data),
        ad_SegmentCount = un_le16 (drop (FullHashLen + 6) data)\<rparr>)"

record ResourceRequest =
  rq_ResourceHash :: bytes
  rq_Bitmap :: bytes

definition MarshalResourceReq :: "ResourceRequest \<Rightarrow> bytes" where
  "MarshalResourceReq req = rq_ResourceHash req @ rq_Bitmap req"

definition UnmarshalResourceReq :: "bytes \<Rightarrow> resource_error + ResourceRequest" where
  "UnmarshalResourceReq data =
     (if length data < FullHashLen + 1 then Inl ErrResourceTooShort
      else Inr \<lparr>rq_ResourceHash = take FullHashLen data, rq_Bitmap = drop FullHashLen data\<rparr>)"

record ResourceSegment =
  sg_ResourceHash :: bytes
  sg_SegmentIndex :: u16
  sg_Data :: bytes

definition MarshalResourceSegment :: "ResourceSegment \<Rightarrow> bytes" where
  "MarshalResourceSegment seg = sg_ResourceHash seg @ le16 (sg_SegmentIndex seg) @ sg_Data seg"

definition UnmarshalResourceSegment :: "bytes \<Rightarrow> resource_error + ResourceSegment" where
  "UnmarshalResourceSegment data =
     (if length data < FullHashLen + 2 + 1 then Inl ErrResourceTooShort
      else Inr \<lparr>sg_ResourceHash = take FullHashLen data, sg_SegmentIndex = un_le16 (drop FullHashLen data),
        sg_Data = drop (FullHashLen + 2) data\<rparr>)"

record ResourceProof =
  rp_ResourceHash :: bytes

definition MarshalResourceProof :: "ResourceProof \<Rightarrow> bytes" where
  "MarshalResourceProof prf = rp_ResourceHash prf"

definition UnmarshalResourceProof :: "bytes \<Rightarrow> resource_error + ResourceProof" where
  "UnmarshalResourceProof data =
     (if length data < FullHashLen then Inl ErrResourceTooShort
      else Inr \<lparr>rp_ResourceHash = take FullHashLen data\<rparr>)"

definition ComputeSegmentCount :: "int \<Rightarrow> int \<Rightarrow> int" where
  "ComputeSegmentCount totalSize segmentSize =
     (if segmentSize \<le> 0 \<or> totalSize \<le> 0 then 0 else (totalSize + segmentSize - 1) div segmentSize)"

definition NewBitmap :: "nat \<Rightarrow> bytes" where
  "NewBitmap segmentCount =
     (let bm = replicate ((segmentCount + 7) div 8) 0xFF; remainder = segmentCount mod 8 in
      if remainder \<noteq> 0 then bm[length bm - 1 := push_bit remainder 1 - 1] else bm)"

definition BitmapGet :: "bytes \<Rightarrow> nat \<Rightarrow> bool" where
  "BitmapGet bitmap index =
     (let byteIdx = index div 8; bitIdx = index mod 8 in
      if byteIdx \<ge> length bitmap then False else bitmap ! byteIdx AND push_bit bitIdx 1 \<noteq> 0)"

definition BitmapClear :: "bytes \<Rightarrow> nat \<Rightarrow> bytes" where
  "BitmapClear bitmap index =
     (let byteIdx = index div 8; bitIdx = index mod 8 in
      if byteIdx < length bitmap then bitmap[byteIdx := bitmap ! byteIdx AND NOT (push_bit bitIdx 1)] else bitmap)"

definition BitmapAllClear :: "bytes \<Rightarrow> bool" where
  "BitmapAllClear bitmap = list_all (\<lambda>b. b = 0) bitmap"

subsection \<open>The transfer manager\<close>

definition DefaultSegmentSize :: int where "DefaultSegmentSize = 180"

record ResourceTransferConfig =
  rc_SegmentSize :: int
  rc_TransferTimeout :: duration
  rc_RetryInterval :: duration
  rc_MaxRetries :: int
  rc_RLNCEnabled :: bool
  rc_RLNCRedundancy :: rat

definition DefaultResourceTransferConfig :: ResourceTransferConfig where
  "DefaultResourceTransferConfig =
     \<lparr>rc_SegmentSize = DefaultSegmentSize, rc_TransferTimeout = 5 * 60 * 1000000000,
      rc_RetryInterval = 10 * 1000000000, rc_MaxRetries = 5, rc_RLNCEnabled = False, rc_RLNCRedundancy = 0\<rparr>"

record outboundTransfer =
  ot_hash :: bytes
  ot_data :: bytes
  ot_segSize :: nat
  ot_segCount :: nat
  ot_created :: instant

record inboundTransfer =
  it_hash :: bytes
  it_totalSize :: u32
  it_segSize :: u16
  it_segCount :: u16
  it_segments :: "(u16, bytes) table"
  it_bitmap :: bytes
  it_created :: instant
  it_iface :: string
  it_rlncGen :: "RLNCGeneration option"

record ResourceTransfer =
  rt_config :: ResourceTransferConfig
  rt_onReceive :: bool
  rt_outbound :: "(bytes, outboundTransfer) table"
  rt_inbound :: "(bytes, inboundTransfer) table"

datatype resource_effect =
    SendPacket string bytes
  | OnReceive bytes bytes string
  | Deliver bytes bytes

datatype resource_panic = CoefficientIndex | DivideByZero

definition NewResourceTransfer :: "ResourceTransferConfig \<Rightarrow> ResourceTransfer" where
  "NewResourceTransfer config =
     \<lparr>rt_config = (if rc_SegmentSize config \<le> 0 then config\<lparr>rc_SegmentSize := DefaultSegmentSize\<rparr> else config),
      rt_onReceive = False, rt_outbound = [], rt_inbound = []\<rparr>"

definition SetOnReceive :: "ResourceTransfer \<Rightarrow> ResourceTransfer" where
  "SetOnReceive rt = rt\<lparr>rt_onReceive := True\<rparr>"

definition resource_packet :: "byte \<Rightarrow> bytes \<Rightarrow> bytes" where
  "resource_packet ctx payload =
     MarshalHeader (empty_header\<lparr>h_HeaderType := HeaderType1, h_PacketType := PacketData, h_DestType := DestPlain,
       h_Context := ctx, h_Data := payload\<rparr>)"

definition Offer :: "(bytes \<Rightarrow> bytes) \<Rightarrow> (string \<Rightarrow> bytes \<Rightarrow> bool) \<Rightarrow> instant \<Rightarrow> bytes \<Rightarrow> string \<Rightarrow> ResourceTransfer \<Rightarrow>
    (resource_error + bytes) \<times> ResourceTransfer \<times> resource_effect list" where
  "Offer sha256 sendFn now data ifaceID rt =
     (if length data > MaxResourceSize then (Inl ErrResourceTooBig, rt, [])
      else
        let hash = sha256 data;
            segSize = rc_SegmentSize (rt_config rt);
            segCount = ComputeSegmentCount (int (length data)) segSize;
            ot = \<lparr>ot_hash = hash, ot_data = data, ot_segSize = nat segSize, ot_segCount = nat segCount, ot_created = now\<rparr>;
            adv = \<lparr>ad_ResourceHash = hash, ad_TotalSize = of_nat (length data), ad_SegmentSize = of_int segSize,
              ad_SegmentCount = of_int segCount\<rparr>;
            packet = resource_packet ContextResourceAdv (MarshalResourceAdv adv) in
        (if sendFn ifaceID packet then Inr hash else Inl ResourceSendFailed,
         rt\<lparr>rt_outbound := AList.update hash ot (rt_outbound rt)\<rparr>, [SendPacket ifaceID packet]))"

definition sendRequest :: "inboundTransfer \<Rightarrow> resource_effect list" where
  "sendRequest it =
     [SendPacket (it_iface it) (resource_packet ContextResourceReq
        (MarshalResourceReq \<lparr>rq_ResourceHash = it_hash it, rq_Bitmap = it_bitmap it\<rparr>))]"

text \<open>The first component tells whether a channel was returned.\<close>

definition HandleAdvertisement :: "instant \<Rightarrow> bytes \<Rightarrow> string \<Rightarrow> ResourceTransfer \<Rightarrow>
    bool \<times> ResourceTransfer \<times> resource_effect list" where
  "HandleAdvertisement now data sourceIface rt =
     (case UnmarshalResourceAdv data of
        Inl _ \<Rightarrow> (False, rt, [])
      | Inr adv \<Rightarrow>
          if unat (ad_TotalSize adv) > MaxResourceSize then (False, rt, [])
          else
            let it = \<lparr>it_hash = ad_ResourceHash adv, it_totalSize = ad_TotalSize adv, it_segSize = ad_SegmentSize adv,
                  it_segCount = ad_SegmentCount adv, it_segments = [],
                  it_bitmap = NewBitmap (unat (ad_SegmentCount adv)), it_created = now, it_iface = sourceIface,
                  it_rlncGen = None\<rparr> in
            (True, rt\<lparr>rt_inbound := AList.update (ad_ResourceHash adv) it (rt_inbound rt)\<rparr>, sendRequest it))"

fun send_until_failure :: "(string \<Rightarrow> bytes \<Rightarrow> bool) \<Rightarrow> string \<Rightarrow> bytes list \<Rightarrow> resource_effect list" where
  "send_until_failure sendFn iface [] = []"
| "send_until_failure sendFn iface (p # ps) =
     SendPacket iface p # (if sendFn iface p then send_until_failure sendFn iface ps else [])"

definition segment_data :: "outboundTransfer \<Rightarrow> nat \<Rightarrow> bytes" where
  "segment_data ot i =
     (let start = i * ot_segSize ot; stop = start + ot_segSize ot in
      slice start (if stop > length (ot_data ot) then length (ot_data ot) else stop) (ot_data ot))"

definition requested :: "outboundTransfer \<Rightarrow> bytes \<Rightarrow> (nat \<times> bytes) list" where
  "requested ot bitmap = map (\<lambda>i. (i, segment_data ot i)) (filter (BitmapGet bitmap) [0..<ot_segCount ot])"

definition HandleRequest :: "(string \<Rightarrow> bytes \<Rightarrow> bool) \<Rightarrow> (nat \<Rightarrow> nat \<Rightarrow> byte) \<Rightarrow> bytes \<Rightarrow> string \<Rightarrow>
    ResourceTransfer \<Rightarrow> resource_effect list" where
  "HandleRequest sendFn rnd data sourceIface rt =
     (case UnmarshalResourceReq data of
        Inl _ \<Rightarrow> []
      | Inr req \<Rightarrow>
          (case map_of (rt_outbound rt) (rq_ResourceHash req) of
             None \<Rightarrow> []
           | Some ot \<Rightarrow>
               let segs = requested ot (rq_Bitmap req) in
               if rc_RLNCEnabled (rt_config rt) \<and> length segs > 1
               then
                 let redundancy = rc_RLNCRedundancy (rt_config rt);
                     redundancy = (if redundancy < 1 then 12 / 10 else redundancy) in
                 send_until_failure sendFn sourceIface
                   (map (\<lambda>pkt. resource_packet ContextResourceRLNC (MarshalRLNCPacket pkt))
                     (EncodeGeneration 0 (ot_hash ot) (map snd segs) redundancy rnd))
               else
                 send_until_failure sendFn sourceIface
                   (map (\<lambda>(i, d). resource_packet ContextResource
                       (MarshalResourceSegment \<lparr>sg_ResourceHash = ot_hash ot, sg_SegmentIndex = of_nat i, sg_Data = d\<rparr>))
                     segs)))"

definition reassemble :: "inboundTransfer \<Rightarrow> bytes option" where
  "reassemble it =
     map_option concat (those (map (\<lambda>i. map_of (it_segments it) (of_nat i)) [0..<unat (it_segCount it)]))"

definition proof_packet :: "bytes \<Rightarrow> bytes" where
  "proof_packet hash = resource_packet ContextResourcePRF (MarshalResourceProof \<lparr>rp_ResourceHash = hash\<rparr>)"

definition HandleSegment :: "(bytes \<Rightarrow> bytes) \<Rightarrow> bytes \<Rightarrow> string \<Rightarrow> ResourceTransfer \<Rightarrow>
    ResourceTransfer \<times> resource_effect list" where
  "HandleSegment sha256 data sourceIface rt =
     (case UnmarshalResourceSegment data of
        Inl _ \<Rightarrow> (rt, [])
      | Inr seg \<Rightarrow>
          (case map_of (rt_inbound rt) (sg_ResourceHash seg) of
             None \<Rightarrow> (rt, [])
           | Some it \<Rightarrow>
               let it = it\<lparr>it_segments := AList.update (sg_SegmentIndex seg) (sg_Data seg) (it_segments it),
                     it_bitmap := BitmapClear (it_bitmap it) (unat (sg_SegmentIndex seg))\<rparr>;
                   rt = rt\<lparr>rt_inbound := AList.update (sg_ResourceHash seg) it (rt_inbound rt)\<rparr> in
               if \<not> BitmapAllClear (it_bitmap it) then (rt, [])
               else (case reassemble it of
                   None \<Rightarrow> (rt, [])
                 | Some result \<Rightarrow>
                     if sha256 result \<noteq> it_hash it then (rt, [])
                     else (rt\<lparr>rt_inbound := AList.delete (it_hash it) (rt_inbound rt)\<rparr>,
                       (if rt_onReceive rt then [OnReceive (hashHex (it_hash it)) result sourceIface] else []) @
                       [SendPacket sourceIface (proof_packet (it_hash it)), Deliver (it_hash it) result]))))"

definition HandleProof :: "bytes \<Rightarrow> ResourceTransfer \<Rightarrow> ResourceTransfer" where
  "HandleProof data rt =
     (case UnmarshalResourceProof data of
        Inl _ \<Rightarrow> rt
      | Inr prf \<Rightarrow> rt\<lparr>rt_outbound := AList.delete (rp_ResourceHash prf) (rt_outbound rt)\<rparr>)"

fun store_decoded :: "nat \<Rightarrow> bytes list \<Rightarrow> inboundTransfer \<Rightarrow> resource_panic + inboundTransfer" where
  "store_decoded i [] it = Inr it"
| "store_decoded i (segData # rest) it =
     (let idx = of_nat i :: u16 in
      if idx \<ge> it_segCount it then Inr it
      else if idx = it_segCount it - 1 \<and> it_segSize it = 0 then Inl DivideByZero
      else
        let remainder = unat (it_totalSize it) mod unat (it_segSize it);
            expectedSize = (if idx = it_segCount it - 1 \<and> remainder > 0 then remainder else unat (it_segSize it));
            segData = (if length segData > expectedSize then take expectedSize segData else segData) in
        store_decoded (Suc i) rest
          (it\<lparr>it_segments := AList.update idx segData (it_segments it), it_bitmap := BitmapClear (it_bitmap it) i\<rparr>))"

definition finish_coded :: "(bytes \<Rightarrow> bytes) \<Rightarrow> bytes \<Rightarrow> string \<Rightarrow> inboundTransfer \<Rightarrow> ResourceTransfer \<Rightarrow>
    ResourceTransfer \<times> resource_effect list" where
  "finish_coded sha256 hash sourceIface it rt =
     (let dropped = rt\<lparr>rt_inbound := AList.delete hash (rt_inbound rt)\<rparr> in
      if \<not> BitmapAllClear (it_bitmap it) then (rt, [])
      else (case reassemble it of
          None \<Rightarrow> (dropped, [])
        | Some result \<Rightarrow>
            if sha256 result \<noteq> it_hash it then (dropped, [])
            else (rt\<lparr>rt_inbound := AList.delete (it_hash it) (rt_inbound rt)\<rparr>,
              (if rt_onReceive rt then [OnReceive (hashHex (it_hash it)) result sourceIface] else []) @
              [SendPacket sourceIface (proof_packet (it_hash it))])))"

definition HandleCodedSegment :: "(bytes \<Rightarrow> bytes) \<Rightarrow> bytes \<Rightarrow> string \<Rightarrow> ResourceTransfer \<Rightarrow>
    resource_panic + (ResourceTransfer \<times> resource_effect list)" where
  "HandleCodedSegment sha256 data sourceIface rt =
     (case UnmarshalRLNCPacket data of
        Inl _ \<Rightarrow> Inr (rt, [])
      | Inr pkt \<Rightarrow>
          (case map_of (rt_inbound rt) (cp_ResourceHash pkt) of
             None \<Rightarrow> Inr (rt, [])
           | Some it \<Rightarrow>
               let gen = (case it_rlncGen it of
                       None \<Rightarrow> NewRLNCGeneration (cp_GenerationID pkt) (unat (cp_K pkt)) (length (cp_Payload pkt))
                     | Some gen \<Rightarrow> gen);
                   (ready, gen) = AddPacket pkt gen;
                   put = (\<lambda>it. rt\<lparr>rt_inbound := AList.update (cp_ResourceHash pkt) it (rt_inbound rt)\<rparr>) in
               if \<not> ready then Inr (put (it\<lparr>it_rlncGen := Some gen\<rparr>), [])
               else (case TryDecode gen of
                   (Inl RlncPanic, _) \<Rightarrow> Inl CoefficientIndex
                 | (Inl _, gen) \<Rightarrow> Inr (put (it\<lparr>it_rlncGen := Some gen\<rparr>), [])
                 | (Inr decoded, gen) \<Rightarrow>
                     (case store_decoded 0 decoded (it\<lparr>it_rlncGen := Some gen\<rparr>) of
                        Inl p \<Rightarrow> Inl p
                      | Inr it \<Rightarrow> Inr (finish_coded sha256 (cp_ResourceHash pkt) sourceIface it (put it))))))"

definition resource_prune :: "instant \<Rightarrow> ResourceTransfer \<Rightarrow> ResourceTransfer" where
  "resource_prune now rt =
     (let timeout = rc_TransferTimeout (rt_config rt) in
      rt\<lparr>rt_outbound := filter (\<lambda>(_, ot). \<not> now - ot_created ot > timeout) (rt_outbound rt),
         rt_inbound := filter (\<lambda>(_, it). \<not> now - it_created it > timeout) (rt_inbound rt)\<rparr>)"

definition Stats :: "ResourceTransfer \<Rightarrow> nat \<times> nat" where
  "Stats rt = (length (rt_outbound rt), length (rt_inbound rt))"

text \<open>
  The data-packet case of \<open>handleRoutingPacket\<close> for the resource contexts. A packet of any other kind
  leaves the transfer manager alone.
\<close>

definition handleResourcePacket :: "(bytes \<Rightarrow> bytes) \<Rightarrow> (string \<Rightarrow> bytes \<Rightarrow> bool) \<Rightarrow> (nat \<Rightarrow> nat \<Rightarrow> byte) \<Rightarrow>
    instant \<Rightarrow> bytes \<Rightarrow> string \<Rightarrow> ResourceTransfer \<Rightarrow> resource_panic + (ResourceTransfer \<times> resource_effect list)" where
  "handleResourcePacket sha256 sendFn rnd now payload sourceIface rt =
     (case UnmarshalHeader payload of
        Inl _ \<Rightarrow> Inr (rt, [])
      | Inr hdr \<Rightarrow>
          if h_PacketType hdr \<noteq> PacketData then Inr (rt, [])
          else if h_Context hdr = ContextResourceAdv then Inr (snd (HandleAdvertisement now (h_Data hdr) sourceIface rt))
          else if h_Context hdr = ContextResourceReq then Inr (rt, HandleRequest sendFn rnd (h_Data hdr) sourceIface rt)
          else if h_Context hdr = ContextResource then Inr (HandleSegment sha256 (h_Data hdr) sourceIface rt)
          else if h_Context hdr = ContextResourcePRF then Inr (HandleProof (h_Data hdr) rt, [])
          else if h_Context hdr = ContextResourceRLNC then HandleCodedSegment sha256 (h_Data hdr) sourceIface rt
          else Inr (rt, []))"

subsection \<open>The bitmap is a set of segments\<close>

text \<open>
  The interface the transfers rely on: a fresh record of \<open>n\<close> outstanding segments, clearing one, and the
  test for none. Its client lemma is the bookkeeping of a transfer in which segments arrive in any order.
\<close>

locale outstanding =
  fixes fresh :: "nat \<Rightarrow> 'b" and has :: "'b \<Rightarrow> nat \<Rightarrow> bool" and clear :: "'b \<Rightarrow> nat \<Rightarrow> 'b" and none :: "'b \<Rightarrow> bool"
  assumes has_fresh: "has (fresh n) i \<longleftrightarrow> i < n"
    and has_clear: "has (clear b i) j \<longleftrightarrow> has b j \<and> j \<noteq> i"
    and none_iff: "none b \<longleftrightarrow> (\<forall>i. \<not> has b i)"
begin

lemma has_clear_all: "has (fold (\<lambda>i b. clear b i) is b) j \<longleftrightarrow> has b j \<and> j \<notin> set is"
  by (induction "is" arbitrary: b) (auto simp: has_clear)

lemma none_clear_all: "none (fold (\<lambda>i b. clear b i) is (fresh n)) \<longleftrightarrow> {..<n} \<subseteq> set is"
  by (auto simp: none_iff has_clear_all has_fresh)

end

lemma and_bit_nonzero: "(b :: byte) AND push_bit n 1 \<noteq> 0 \<longleftrightarrow> bit b n"
proof -
  have "bit (b AND push_bit n 1) m \<longleftrightarrow> bit b n \<and> m = n \<and> n < 8" for m
    unfolding bit_and_iff bit_push_bit_iff by (auto simp: bit_1_iff)
  moreover have "bit b n \<Longrightarrow> n < 8" using bit_imp_le_length[of b n] by simp
  ultimately show ?thesis by (metis bit_0_eq bot_apply bot_bool_def bit_word_eqI)
qed

lemma BitmapGet_bit: "BitmapGet bm i \<longleftrightarrow> i div 8 < length bm \<and> bit (bm ! (i div 8)) (i mod 8)"
  using and_bit_nonzero[of "bm ! (i div 8)" "i mod 8"] by (auto simp: BitmapGet_def Let_def)

lemma low_ones: "bit (push_bit r 1 - 1 :: byte) n \<longleftrightarrow> n < r \<and> n < 8"
proof -
  have "push_bit r 1 - 1 = (mask r :: byte)" by (simp add: mask_eq_exp_minus_1 push_bit_of_1)
  then show ?thesis by (auto simp: bit_mask_iff)
qed

lemma BitmapGet_NewBitmap: "BitmapGet (NewBitmap n) i \<longleftrightarrow> i < n"
proof -
  define q r where "q = n div 8" and "r = n mod 8"
  then have n: "n = 8 * q + r" "r < 8" by simp_all
  define k b where "k = i div 8" and "b = i mod 8"
  then have i: "i = 8 * k + b" "b < 8" by simp_all
  have "(0xFF :: byte) = push_bit 8 1 - 1" by simp
  then have ff: "bit (0xFF :: byte) b" using low_ones[of 8 b] i(2) by simp
  have lt: "i < n \<longleftrightarrow> k < q \<or> (k = q \<and> b < r)" using n i by linarith
  show ?thesis
  proof (cases "r = 0")
    case True
    then have "NewBitmap n = replicate q 0xFF" using n by (simp add: NewBitmap_def Let_def flip: r_def)
    then show ?thesis using True ff lt i(2) by (auto simp: BitmapGet_bit simp flip: k_def b_def)
  next
    case False
    then have "(n + 7) div 8 = Suc q" using n by (intro div_nat_eqI) simp_all
    then have "NewBitmap n = (replicate (Suc q) 0xFF)[q := push_bit r 1 - 1]"
      using False by (simp add: NewBitmap_def Let_def flip: r_def)
    then show ?thesis using ff lt i(2) low_ones[of r b]
      by (auto simp: BitmapGet_bit nth_list_update less_Suc_eq simp del: replicate_Suc push_bit_of_1 simp flip: k_def b_def)
  qed
qed

lemma BitmapGet_BitmapClear: "BitmapGet (BitmapClear bm i) j \<longleftrightarrow> BitmapGet bm j \<and> j \<noteq> i"
proof -
  have "j \<noteq> i \<longleftrightarrow> j div 8 \<noteq> i div 8 \<or> j mod 8 \<noteq> i mod 8" by (metis div_mult_mod_eq)
  moreover have "bit (b AND NOT (push_bit n 1)) m \<longleftrightarrow> bit b m \<and> m \<noteq> n" if "m < 8" for b :: byte and n m
    using that unfolding bit_and_iff bit_not_iff bit_push_bit_iff by (auto simp: bit_1_iff)
  ultimately show ?thesis
    by (auto simp: BitmapGet_bit BitmapClear_def Let_def nth_list_update)
qed

lemma BitmapAllClear_iff: "BitmapAllClear bm \<longleftrightarrow> (\<forall>i. \<not> BitmapGet bm i)"
proof
  assume "BitmapAllClear bm"
  then show "\<forall>i. \<not> BitmapGet bm i" by (auto simp: BitmapAllClear_def BitmapGet_bit list_all_length)
next
  assume a: "\<forall>i. \<not> BitmapGet bm i"
  have "bm ! k = 0" if k: "k < length bm" for k
  proof (rule bit_word_eqI)
    fix n assume "n < LENGTH(8)"
    then show "bit (bm ! k) n = bit 0 n" using a[rule_format, of "8 * k + n"] k by (simp add: BitmapGet_bit)
  qed
  then show "BitmapAllClear bm" by (simp add: BitmapAllClear_def list_all_length)
qed

interpretation bitmap: outstanding NewBitmap BitmapGet BitmapClear BitmapAllClear
  by unfold_locales (rule BitmapGet_NewBitmap BitmapGet_BitmapClear BitmapAllClear_iff)+

subsection \<open>Packets and their dispatch\<close>

lemma resource_hdr_ok:
  "payload \<noteq> [] \<Longrightarrow> UnmarshalHeader (resource_packet ctx payload) =
     Inr (empty_header\<lparr>h_HeaderType := HeaderType1, h_PacketType := PacketData, h_DestType := DestPlain,
       h_Context := ctx, h_Data := payload\<rparr>)"
  unfolding resource_packet_def
  by (rule header.dec_enc) (simp add: header_ok_def empty_header_def rns_codes rns_sizes zero_hash_def)

lemma dispatch_resource:
  assumes "payload \<noteq> []"
  shows "handleResourcePacket sha sendFn rnd now (resource_packet ContextResourceAdv payload) iface rt =
      Inr (snd (HandleAdvertisement now payload iface rt))"
    "handleResourcePacket sha sendFn rnd now (resource_packet ContextResourceReq payload) iface rt =
      Inr (rt, HandleRequest sendFn rnd payload iface rt)"
    "handleResourcePacket sha sendFn rnd now (resource_packet ContextResource payload) iface rt =
      Inr (HandleSegment sha payload iface rt)"
    "handleResourcePacket sha sendFn rnd now (resource_packet ContextResourcePRF payload) iface rt =
      Inr (HandleProof payload rt, [])"
    "handleResourcePacket sha sendFn rnd now (resource_packet ContextResourceRLNC payload) iface rt =
      HandleCodedSegment sha payload iface rt"
  by (simp_all add: handleResourcePacket_def resource_hdr_ok assms resource_contexts)

lemma adv_roundtrip: "length (ad_ResourceHash adv) = 32 \<Longrightarrow> UnmarshalResourceAdv (MarshalResourceAdv adv) = Inr adv"
proof -
  assume h: "length (ad_ResourceHash adv) = 32"
  have "drop 36 (MarshalResourceAdv adv) = le16 (ad_SegmentSize adv) @ le16 (ad_SegmentCount adv)"
    "drop 38 (MarshalResourceAdv adv) = le16 (ad_SegmentCount adv) @ []"
    using h by (simp_all add: MarshalResourceAdv_def)
  moreover have "length (MarshalResourceAdv adv) = 40" using h by (simp add: MarshalResourceAdv_def)
  moreover have "take 32 (MarshalResourceAdv adv) = ad_ResourceHash adv"
    "drop 32 (MarshalResourceAdv adv) = le32 (ad_TotalSize adv) @ le16 (ad_SegmentSize adv) @ le16 (ad_SegmentCount adv)"
    using h by (simp_all add: MarshalResourceAdv_def)
  ultimately show ?thesis by (simp add: UnmarshalResourceAdv_def rns_sizes del: append_Nil2)
qed

lemma seg_roundtrip:
  "length (sg_ResourceHash seg) = 32 \<Longrightarrow> sg_Data seg \<noteq> [] \<Longrightarrow>
   UnmarshalResourceSegment (MarshalResourceSegment seg) = Inr seg"
  by (cases "sg_Data seg") (simp_all add: UnmarshalResourceSegment_def MarshalResourceSegment_def rns_sizes)

lemma req_roundtrip:
  "length (rq_ResourceHash req) = 32 \<Longrightarrow> rq_Bitmap req \<noteq> [] \<Longrightarrow>
   UnmarshalResourceReq (MarshalResourceReq req) = Inr req"
  by (cases "rq_Bitmap req") (simp_all add: UnmarshalResourceReq_def MarshalResourceReq_def rns_sizes)

lemma proof_roundtrip:
  "length (rp_ResourceHash prf) = 32 \<Longrightarrow> UnmarshalResourceProof (MarshalResourceProof prf) = Inr prf"
  by (simp add: UnmarshalResourceProof_def MarshalResourceProof_def rns_sizes)

subsection \<open>Cutting and joining\<close>

definition ot_ok :: "outboundTransfer \<Rightarrow> bool" where
  "ot_ok ot \<longleftrightarrow> length (ot_hash ot) = 32 \<and> ot_data ot \<noteq> [] \<and> 0 < ot_segSize ot \<and>
     ot_segCount ot = (length (ot_data ot) + ot_segSize ot - 1) div ot_segSize ot"

lemma segment_data_take:
  "segment_data ot i = take (ot_segSize ot) (drop (i * ot_segSize ot) (ot_data ot))"
  by (simp add: segment_data_def Let_def slice_def drop_take)

lemma concat_segments: "concat (map (segment_data ot) [0..<m]) = take (m * ot_segSize ot) (ot_data ot)"
proof (induction m)
  case (Suc m)
  then show ?case by (simp add: segment_data_take add.commute[of "ot_segSize ot"] take_add)
qed simp

lemma ceil_div:
  assumes "0 < (s :: nat)"
  shows "n \<le> (n + s - 1) div s * s" and "0 < n \<Longrightarrow> i < (n + s - 1) div s \<Longrightarrow> i * s < n"
proof -
  let ?q = "(n + s - 1) div s"
  have e: "n + s - 1 = ?q * s + (n + s - 1) mod s" by simp
  have l: "(n + s - 1) mod s < s" using assms by simp
  show "n \<le> ?q * s" using e l by linarith
  show "i * s < n" if "0 < n" "i < ?q"
  proof -
    have "Suc i * s \<le> ?q * s" using that(2) by (intro mult_le_mono1) simp
    then have "i * s + s \<le> n + s - 1" using e by (simp only: mult_Suc)
    then show ?thesis using assms that(1) by linarith
  qed
qed

lemma ot_segments:
  assumes "ot_ok ot"
  shows "concat (map (segment_data ot) [0..<ot_segCount ot]) = ot_data ot" "0 < ot_segCount ot"
    "i < ot_segCount ot \<Longrightarrow> segment_data ot i \<noteq> []"
proof -
  note o = assms[unfolded ot_ok_def]
  have s: "0 < ot_segSize ot" using o by simp
  show c: "concat (map (segment_data ot) [0..<ot_segCount ot]) = ot_data ot"
    using ceil_div(1)[OF s, of "length (ot_data ot)"] o by (simp add: concat_segments)
  show "0 < ot_segCount ot" using c o by (cases "ot_segCount ot") auto
  show "i < ot_segCount ot \<Longrightarrow> segment_data ot i \<noteq> []"
    using ceil_div(2)[OF s, of "length (ot_data ot)" i] o by (simp add: segment_data_take)
qed

subsection \<open>Segments in any order\<close>

definition seg_packet :: "outboundTransfer \<Rightarrow> nat \<Rightarrow> bytes" where
  "seg_packet ot i = resource_packet ContextResource
     (MarshalResourceSegment \<lparr>sg_ResourceHash = ot_hash ot, sg_SegmentIndex = of_nat i, sg_Data = segment_data ot i\<rparr>)"

definition collecting :: "outboundTransfer \<Rightarrow> nat set \<Rightarrow> inboundTransfer \<Rightarrow> bool" where
  "collecting ot R it \<longleftrightarrow> it_hash it = ot_hash ot \<and> it_segCount it = of_nat (ot_segCount ot) \<and>
     (\<forall>i. BitmapGet (it_bitmap it) i \<longleftrightarrow> i < ot_segCount ot \<and> i \<notin> R) \<and>
     (\<forall>i < ot_segCount ot. map_of (it_segments it) (of_nat i) = (if i \<in> R then Some (segment_data ot i) else None))"

definition completion :: "outboundTransfer \<Rightarrow> string \<Rightarrow> ResourceTransfer \<Rightarrow> resource_effect list" where
  "completion ot iface rt =
     (if rt_onReceive rt then [OnReceive (hashHex (ot_hash ot)) (ot_data ot) iface] else []) @
     [SendPacket iface (proof_packet (ot_hash ot)), Deliver (ot_hash ot) (ot_data ot)]"

fun receive_all :: "(bytes \<Rightarrow> bytes) \<Rightarrow> (string \<Rightarrow> bytes \<Rightarrow> bool) \<Rightarrow> (nat \<Rightarrow> nat \<Rightarrow> byte) \<Rightarrow> instant \<Rightarrow> string \<Rightarrow>
    bytes list \<Rightarrow> ResourceTransfer \<Rightarrow> resource_panic + (ResourceTransfer \<times> resource_effect list)" where
  "receive_all sha sendFn rnd now iface [] rt = Inr (rt, [])"
| "receive_all sha sendFn rnd now iface (p # ps) rt =
     (case handleResourcePacket sha sendFn rnd now p iface rt of
        Inl e \<Rightarrow> Inl e
      | Inr (rt', es) \<Rightarrow>
          (case receive_all sha sendFn rnd now iface ps rt' of
             Inl e \<Rightarrow> Inl e
           | Inr (rt'', es') \<Rightarrow> Inr (rt'', es @ es')))"

lemma unat_u16: "i < 65536 \<Longrightarrow> unat (of_nat i :: u16) = i"
  by (simp add: unat_of_nat)

lemma u16_inj: "i < 65536 \<Longrightarrow> j < 65536 \<Longrightarrow> (of_nat i :: u16) = of_nat j \<longleftrightarrow> i = j"
  by (metis unat_u16)

lemma reassemble_complete:
  assumes "ot_ok ot" and "ot_segCount ot < 65536" and "collecting ot R it" and "{..<ot_segCount ot} \<subseteq> R"
  shows "reassemble it = Some (ot_data ot)"
proof -
  have "map (\<lambda>i. map_of (it_segments it) (of_nat i)) [0..<ot_segCount ot] =
      map (\<lambda>i. Some (segment_data ot i)) [0..<ot_segCount ot]"
    using assms(3,4) by (auto simp: collecting_def)
  moreover have "those (map (\<lambda>i. Some (f i)) xs) = Some (map f xs)" for f :: "nat \<Rightarrow> bytes" and xs
    by (induction xs) simp_all
  ultimately have "those (map (\<lambda>i. map_of (it_segments it) (of_nat i)) [0..<ot_segCount ot]) =
      Some (map (segment_data ot) [0..<ot_segCount ot])" by (simp only:)
  moreover have "unat (it_segCount it) = ot_segCount ot" using assms(2,3) by (simp add: collecting_def unat_u16)
  ultimately show ?thesis
    using ot_segments(1)[OF assms(1)] by (simp add: reassemble_def)
qed

lemma collecting_step:
  assumes "collecting ot R it" and "i < ot_segCount ot" and "ot_segCount ot < 65536"
  shows "collecting ot (insert i R) (it\<lparr>it_segments := AList.update (of_nat i) (segment_data ot i) (it_segments it),
    it_bitmap := BitmapClear (it_bitmap it) i\<rparr>)"
  using assms by (auto simp: collecting_def bitmap.has_clear update_conv' u16_inj)

lemma HandleSegment_step:
  assumes ok: "ot_ok ot" "ot_segCount ot < 65536" "sha (ot_data ot) = ot_hash ot"
    and it: "map_of (rt_inbound rt) (ot_hash ot) = Some it" "collecting ot R it" and i: "i < ot_segCount ot"
  shows "\<exists>it'. collecting ot (insert i R) it' \<and>
    handleResourcePacket sha sendFn rnd now (seg_packet ot i) iface rt =
      (let rt' = rt\<lparr>rt_inbound := AList.update (ot_hash ot) it' (rt_inbound rt)\<rparr> in
       if {..<ot_segCount ot} \<subseteq> insert i R
       then Inr (rt'\<lparr>rt_inbound := AList.delete (ot_hash ot) (rt_inbound rt')\<rparr>, completion ot iface rt)
       else Inr (rt', []))"
proof -
  let ?seg = "\<lparr>sg_ResourceHash = ot_hash ot, sg_SegmentIndex = of_nat i, sg_Data = segment_data ot i\<rparr>"
  let ?it = "it\<lparr>it_segments := AList.update (of_nat i) (segment_data ot i) (it_segments it),
    it_bitmap := BitmapClear (it_bitmap it) i\<rparr>"
  have c: "collecting ot (insert i R) ?it" using collecting_step[OF it(2) i ok(2)] .
  then have a: "BitmapAllClear (it_bitmap ?it) \<longleftrightarrow> {..<ot_segCount ot} \<subseteq> insert i R"
    unfolding bitmap.none_iff collecting_def by auto
  have p: "UnmarshalResourceSegment (MarshalResourceSegment ?seg) = Inr ?seg"
    using ok(1) ot_segments(3)[OF ok(1) i] by (intro seg_roundtrip) (simp_all add: ot_ok_def)
  have "MarshalResourceSegment ?seg \<noteq> []" using ok(1) by (auto simp: MarshalResourceSegment_def ot_ok_def)
  then have "handleResourcePacket sha sendFn rnd now (seg_packet ot i) iface rt =
      Inr (HandleSegment sha (MarshalResourceSegment ?seg) iface rt)"
    unfolding seg_packet_def by (rule dispatch_resource(3))
  moreover have "it_hash it = ot_hash ot" using it(2) by (simp add: collecting_def)
  moreover have "unat (of_nat i :: u16) = i" using i ok(2) by (intro unat_u16) simp
  ultimately have "handleResourcePacket sha sendFn rnd now (seg_packet ot i) iface rt =
      (let rt' = rt\<lparr>rt_inbound := AList.update (ot_hash ot) ?it (rt_inbound rt)\<rparr> in
       if {..<ot_segCount ot} \<subseteq> insert i R
       then Inr (rt'\<lparr>rt_inbound := AList.delete (ot_hash ot) (rt_inbound rt')\<rparr>, completion ot iface rt)
       else Inr (rt', []))"
    using p a it(1) reassemble_complete[OF ok(1,2) c] ok(3)
    by (simp add: HandleSegment_def Let_def completion_def)
  with c show ?thesis by blast
qed

lemma seg_packet_unknown:
  assumes "ot_ok ot" and "i < ot_segCount ot" and "map_of (rt_inbound rt) (ot_hash ot) = None"
  shows "handleResourcePacket sha sendFn rnd now (seg_packet ot i) iface rt = Inr (rt, [])"
proof -
  let ?seg = "\<lparr>sg_ResourceHash = ot_hash ot, sg_SegmentIndex = of_nat i, sg_Data = segment_data ot i\<rparr>"
  have "UnmarshalResourceSegment (MarshalResourceSegment ?seg) = Inr ?seg"
    using assms(1) ot_segments(3)[OF assms(1,2)] by (intro seg_roundtrip) (simp_all add: ot_ok_def)
  moreover have "MarshalResourceSegment ?seg \<noteq> []" using assms(1) by (auto simp: MarshalResourceSegment_def ot_ok_def)
  ultimately show ?thesis
    unfolding seg_packet_def using assms(3) by (simp add: dispatch_resource(3) HandleSegment_def)
qed

lemma receive_unknown:
  assumes "ot_ok ot" and "map_of (rt_inbound rt) (ot_hash ot) = None" and "set is \<subseteq> {..<ot_segCount ot}"
  shows "receive_all sha sendFn rnd now iface (map (seg_packet ot) is) rt = Inr (rt, [])"
  using assms(3) by (induction "is") (simp_all add: seg_packet_unknown assms(1,2))

lemma receive_segments:
  assumes ok: "ot_ok ot" "ot_segCount ot < 65536" "sha (ot_data ot) = ot_hash ot"
    and it: "map_of (rt_inbound rt) (ot_hash ot) = Some it" "collecting ot R it" "\<not> {..<ot_segCount ot} \<subseteq> R"
    and "is": "set is \<subseteq> {..<ot_segCount ot}"
  shows "\<exists>rt'. receive_all sha sendFn rnd now iface (map (seg_packet ot) is) rt =
      Inr (rt', if {..<ot_segCount ot} \<subseteq> R \<union> set is then completion ot iface rt else []) \<and>
      ({..<ot_segCount ot} \<subseteq> R \<union> set is \<longrightarrow> map_of (rt_inbound rt') (ot_hash ot) = None)"
  using it "is"
proof (induction "is" arbitrary: rt it R)
  case (Cons i "is")
  then have i: "i < ot_segCount ot" by simp
  from HandleSegment_step[where sha = sha, OF ok Cons.prems(1,2) i, of sendFn rnd now iface] obtain it' where
    c: "collecting ot (insert i R) it'" and
    h: "handleResourcePacket sha sendFn rnd now (seg_packet ot i) iface rt =
      (let rt' = rt\<lparr>rt_inbound := AList.update (ot_hash ot) it' (rt_inbound rt)\<rparr> in
       if {..<ot_segCount ot} \<subseteq> insert i R
       then Inr (rt'\<lparr>rt_inbound := AList.delete (ot_hash ot) (rt_inbound rt')\<rparr>, completion ot iface rt)
       else Inr (rt', []))" by blast
  let ?rt = "rt\<lparr>rt_inbound := AList.update (ot_hash ot) it' (rt_inbound rt)\<rparr>"
  show ?case
  proof (cases "{..<ot_segCount ot} \<subseteq> insert i R")
    case True
    let ?rt' = "?rt\<lparr>rt_inbound := AList.delete (ot_hash ot) (rt_inbound ?rt)\<rparr>"
    have "map_of (rt_inbound ?rt') (ot_hash ot) = None" by (simp add: delete_conv')
    moreover from this have "receive_all sha sendFn rnd now iface (map (seg_packet ot) is) ?rt' = Inr (?rt', [])"
      using ok(1) Cons.prems(4) by (intro receive_unknown) auto
    moreover have "{..<ot_segCount ot} \<subseteq> R \<union> set (i # is)" using True by auto
    ultimately show ?thesis using h True by (simp add: Let_def)
  next
    case False
    have "map_of (rt_inbound ?rt) (ot_hash ot) = Some it'" by (simp add: update_conv')
    from Cons.IH[OF this c False] Cons.prems(4) obtain rt' where
      "receive_all sha sendFn rnd now iface (map (seg_packet ot) is) ?rt =
        Inr (rt', if {..<ot_segCount ot} \<subseteq> insert i R \<union> set is then completion ot iface ?rt else [])"
      "{..<ot_segCount ot} \<subseteq> insert i R \<union> set is \<longrightarrow> map_of (rt_inbound rt') (ot_hash ot) = None" by auto
    then show ?thesis using h False by (simp add: Let_def completion_def)
  qed
qed simp

subsection \<open>Offer, advertisement and request\<close>

definition offered :: "(bytes \<Rightarrow> bytes) \<Rightarrow> instant \<Rightarrow> bytes \<Rightarrow> int \<Rightarrow> outboundTransfer" where
  "offered sha now data s = \<lparr>ot_hash = sha data, ot_data = data, ot_segSize = nat s,
     ot_segCount = nat (ComputeSegmentCount (int (length data)) s), ot_created = now\<rparr>"

definition adv_packet :: "outboundTransfer \<Rightarrow> bytes" where
  "adv_packet ot = resource_packet ContextResourceAdv (MarshalResourceAdv
     \<lparr>ad_ResourceHash = ot_hash ot, ad_TotalSize = of_nat (length (ot_data ot)), ad_SegmentSize = of_nat (ot_segSize ot),
      ad_SegmentCount = of_nat (ot_segCount ot)\<rparr>)"

definition req_packet :: "outboundTransfer \<Rightarrow> bytes" where
  "req_packet ot = resource_packet ContextResourceReq
     (MarshalResourceReq \<lparr>rq_ResourceHash = ot_hash ot, rq_Bitmap = NewBitmap (ot_segCount ot)\<rparr>)"

lemma offered_ok:
  assumes "sha_ok sha" and "data \<noteq> []" and "0 < s"
  shows "ot_ok (offered sha t data s)"
proof -
  have "nat ((int (length data) + s - 1) div s) = (length data + nat s - 1) div nat s"
    using assms(2,3) by (simp add: nat_div_distrib nat_diff_distrib nat_add_distrib)
  then show ?thesis using assms by (simp add: ot_ok_def offered_def ComputeSegmentCount_def sha_ok_def)
qed

lemma Offer_sends:
  assumes "data \<noteq> []" and "length data \<le> MaxResourceSize" and "0 < rc_SegmentSize (rt_config rt)" and "sendFn iface (adv_packet (offered sha t data (rc_SegmentSize (rt_config rt))))"
  defines "ot \<equiv> offered sha t data (rc_SegmentSize (rt_config rt))"
  shows "Offer sha sendFn t data iface rt =
    (Inr (sha data), rt\<lparr>rt_outbound := AList.update (sha data) ot (rt_outbound rt)\<rparr>, [SendPacket iface (adv_packet ot)])"
proof -
  have c: "0 \<le> ComputeSegmentCount (int (length data)) (rc_SegmentSize (rt_config rt))"
    using assms(1,3) by (simp add: ComputeSegmentCount_def pos_imp_zdiv_nonneg_iff)
  then show ?thesis using assms(2-4)
    by (simp add: Offer_def Let_def ot_def offered_def adv_packet_def of_nat_nat)
qed

lemma advertisement_accepted:
  assumes ok: "ot_ok ot" "ot_segCount ot < 65536" "length (ot_data ot) \<le> MaxResourceSize" "ot_segSize ot < 65536"
  shows "\<exists>it. handleResourcePacket sha sendFn rnd now (adv_packet ot) iface rt =
      Inr (rt\<lparr>rt_inbound := AList.update (ot_hash ot) it (rt_inbound rt)\<rparr>, [SendPacket iface (req_packet ot)]) \<and>
    collecting ot {} it \<and> it_rlncGen it = None \<and> it_segSize it = of_nat (ot_segSize ot) \<and>
    it_totalSize it = of_nat (length (ot_data ot)) \<and> it_segments it = []"
proof -
  let ?adv = "\<lparr>ad_ResourceHash = ot_hash ot, ad_TotalSize = of_nat (length (ot_data ot)), ad_SegmentSize = of_nat (ot_segSize ot),
      ad_SegmentCount = of_nat (ot_segCount ot)\<rparr>"
  let ?it = "\<lparr>it_hash = ot_hash ot, it_totalSize = of_nat (length (ot_data ot)), it_segSize = of_nat (ot_segSize ot),
    it_segCount = of_nat (ot_segCount ot), it_segments = [], it_bitmap = NewBitmap (ot_segCount ot),
    it_created = now, it_iface = iface, it_rlncGen = None\<rparr>"
  have u: "UnmarshalResourceAdv (MarshalResourceAdv ?adv) = Inr ?adv"
    using ok(1) by (intro adv_roundtrip) (simp add: ot_ok_def)
  have "MarshalResourceAdv ?adv \<noteq> []" using ok(1) by (auto simp: MarshalResourceAdv_def ot_ok_def)
  then have "handleResourcePacket sha sendFn rnd now (adv_packet ot) iface rt =
      Inr (snd (HandleAdvertisement now (MarshalResourceAdv ?adv) iface rt))"
    unfolding adv_packet_def by (rule dispatch_resource(1))
  moreover have "length (ot_data ot) mod 4294967296 \<le> MaxResourceSize" using ok(3) by (simp add: MaxResourceSize_def)
  ultimately have "handleResourcePacket sha sendFn rnd now (adv_packet ot) iface rt =
      Inr (rt\<lparr>rt_inbound := AList.update (ot_hash ot) ?it (rt_inbound rt)\<rparr>, [SendPacket iface (req_packet ot)])"
    using u ok(2) by (simp add: HandleAdvertisement_def Let_def sendRequest_def req_packet_def unat_of_nat)
  moreover have "collecting ot {} ?it" by (simp add: collecting_def bitmap.has_fresh)
  ultimately show ?thesis by (intro exI[of _ ?it]) simp
qed

lemma send_all_ok: "(\<And>p. sendFn iface p) \<Longrightarrow> send_until_failure sendFn iface ps = map (SendPacket iface) ps"
  by (induction ps) simp_all

lemma NewBitmap_nonempty: "0 < n \<Longrightarrow> NewBitmap n \<noteq> []"
  using bitmap.has_fresh[of n 0] by (auto simp: BitmapGet_def)

lemma request_answered:
  assumes ok: "ot_ok ot" and o: "map_of (rt_outbound rt) (ot_hash ot) = Some ot" and s: "\<And>p. sendFn iface p"
  shows "handleResourcePacket sha sendFn rnd now (req_packet ot) iface rt = Inr (rt, map (SendPacket iface)
    (if rc_RLNCEnabled (rt_config rt) \<and> ot_segCount ot > 1
     then map (\<lambda>pkt. resource_packet ContextResourceRLNC (MarshalRLNCPacket pkt))
       (EncodeGeneration 0 (ot_hash ot) (map (segment_data ot) [0..<ot_segCount ot])
         (if rc_RLNCRedundancy (rt_config rt) < 1 then 12 / 10 else rc_RLNCRedundancy (rt_config rt)) rnd)
     else map (seg_packet ot) [0..<ot_segCount ot]))"
proof -
  let ?req = "\<lparr>rq_ResourceHash = ot_hash ot, rq_Bitmap = NewBitmap (ot_segCount ot)\<rparr>"
  have u: "UnmarshalResourceReq (MarshalResourceReq ?req) = Inr ?req"
    using ok ot_segments(2)[OF ok] by (intro req_roundtrip) (simp_all add: ot_ok_def NewBitmap_nonempty)
  have "MarshalResourceReq ?req \<noteq> []" using ok by (auto simp: MarshalResourceReq_def ot_ok_def)
  then have "handleResourcePacket sha sendFn rnd now (req_packet ot) iface rt =
      Inr (rt, HandleRequest sendFn rnd (MarshalResourceReq ?req) iface rt)"
    unfolding req_packet_def by (rule dispatch_resource(2))
  moreover have "requested ot (NewBitmap (ot_segCount ot)) = map (\<lambda>i. (i, segment_data ot i)) [0..<ot_segCount ot]"
    by (simp add: requested_def bitmap.has_fresh filter_True)
  ultimately show ?thesis
    using u o s by (simp add: HandleRequest_def Let_def send_all_ok comp_def seg_packet_def)
qed

subsection \<open>Coded segments\<close>

definition source_segments :: "outboundTransfer \<Rightarrow> bytes list" where
  "source_segments ot = map (segment_data ot) [0..<ot_segCount ot]"

definition coded_packets :: "outboundTransfer \<Rightarrow> rat \<Rightarrow> (nat \<Rightarrow> nat \<Rightarrow> byte) \<Rightarrow> RLNCCodedPacket list" where
  "coded_packets ot redundancy rnd = EncodeGeneration 0 (ot_hash ot) (source_segments ot) redundancy rnd"

definition sizes_known :: "outboundTransfer \<Rightarrow> inboundTransfer \<Rightarrow> bool" where
  "sizes_known ot it \<longleftrightarrow> it_segSize it = of_nat (ot_segSize ot) \<and> it_totalSize it = of_nat (length (ot_data ot))"

definition small_transfer :: "outboundTransfer \<Rightarrow> bool" where
  "small_transfer ot \<longleftrightarrow> ot_ok ot \<and> ot_segCount ot < 256 \<and> ot_segSize ot < 65536 \<and>
     length (ot_data ot) \<le> MaxResourceSize"

lemma last_segment:
  assumes "ot_ok ot" and "i < ot_segCount ot"
  shows "length (segment_data ot i) =
    (if i = ot_segCount ot - 1 \<and> length (ot_data ot) mod ot_segSize ot > 0 then length (ot_data ot) mod ot_segSize ot
     else ot_segSize ot)"
proof -
  let ?n = "ot_segCount ot" and ?s = "ot_segSize ot" and ?l = "length (ot_data ot)"
  have s: "0 < ?s" and n: "?n = (?l + ?s - 1) div ?s" and l: "0 < ?l" using assms(1) by (simp_all add: ot_ok_def)
  have len: "length (segment_data ot i) = min ?s (?l - i * ?s)" by (simp add: segment_data_take min.commute)
  show ?thesis
  proof (cases "i = ?n - 1")
    case True
    have "i * ?s < ?l" using ceil_div(2)[OF s l, of i] assms(2) n by simp
    moreover have "?l \<le> i * ?s + ?s" using ceil_div(1)[OF s, of ?l] True assms(2) unfolding n[symmetric]
      by (cases ?n) simp_all
    ultimately obtain t where t: "?l = i * ?s + t" "0 < t" "t \<le> ?s" by (metis add_le_cancel_left less_imp_add_positive)
    then have "?l mod ?s = (if t = ?s then 0 else t)" by simp
    with t True len show ?thesis by auto
  next
    case False
    then have "Suc i < ?n" using assms(2) by linarith
    then have "Suc i * ?s < ?l" using ceil_div(2)[OF s l, of "Suc i"] n by simp
    with False len show ?thesis by simp
  qed
qed

lemma padded_segment:
  "i < ot_segCount ot \<Longrightarrow> \<exists>z. pad_segments (source_segments ot) ! i = segment_data ot i @ z"
  by (simp add: source_segments_def pad_segments_nth)

lemma store_step:
  assumes ok: "small_transfer ot" and it: "collecting ot {..<i} it" "sizes_known ot it" and i: "i < ot_segCount ot"
  shows "store_decoded i ((segment_data ot i @ z) # ds) it =
    store_decoded (Suc i) ds (it\<lparr>it_segments := AList.update (of_nat i) (segment_data ot i) (it_segments it),
      it_bitmap := BitmapClear (it_bitmap it) i\<rparr>)"
proof -
  let ?n = "ot_segCount ot"
  have b: "?n < 65536" "i < 65536" "ot_ok ot" "ot_segSize ot < 65536" "0 < ot_segSize ot" "length (ot_data ot) < 4294967296"
    using ok i by (simp_all add: small_transfer_def ot_ok_def MaxResourceSize_def)
  have c: "it_segCount it = of_nat ?n" using it(1) by (simp add: collecting_def)
  have "\<not> it_segCount it \<le> of_nat i" using i b c by (simp add: word_le_nat_alt unat_u16)
  moreover have "of_nat i = it_segCount it - 1 \<longleftrightarrow> i = ?n - 1"
  proof -
    have "it_segCount it - 1 = of_nat (?n - 1)" using i c by (simp add: of_nat_diff)
    then show ?thesis using b by (simp add: u16_inj)
  qed
  moreover have "unat (it_segSize it) = ot_segSize ot" "unat (it_totalSize it) = length (ot_data ot)" "it_segSize it \<noteq> 0"
    using it(2) b by (auto simp: sizes_known_def unat_of_nat simp flip: unat_eq_0)
  ultimately show ?thesis using last_segment[OF b(3) i] i
    by (simp add: Let_def)
qed

lemma store_decoded_all:
  assumes ok: "small_transfer ot"
  shows "collecting ot {..<i} it \<Longrightarrow> sizes_known ot it \<Longrightarrow> i + m = ot_segCount ot \<Longrightarrow>
    \<exists>it'. store_decoded i (drop i (pad_segments (source_segments ot))) it = Inr it' \<and>
      collecting ot {..<ot_segCount ot} it'"
proof (induction m arbitrary: i it)
  case 0
  then show ?case by (simp add: source_segments_def)
next
  case (Suc m)
  then have i: "i < ot_segCount ot" by simp
  let ?it = "it\<lparr>it_segments := AList.update (of_nat i) (segment_data ot i) (it_segments it),
      it_bitmap := BitmapClear (it_bitmap it) i\<rparr>"
  have "collecting ot {..<Suc i} ?it"
    using collecting_step[OF Suc.prems(1) i] ok by (simp add: small_transfer_def lessThan_Suc)
  moreover have "sizes_known ot ?it" using Suc.prems(2) by (simp add: sizes_known_def)
  ultimately have IH: "\<exists>it'. store_decoded (Suc i) (drop (Suc i) (pad_segments (source_segments ot))) ?it = Inr it' \<and>
      collecting ot {..<ot_segCount ot} it'" using Suc.IH[of "Suc i" ?it] Suc.prems(3) by simp
  obtain z where "pad_segments (source_segments ot) ! i = segment_data ot i @ z" using padded_segment[OF i] by blast
  then have "drop i (pad_segments (source_segments ot)) =
      (segment_data ot i @ z) # drop (Suc i) (pad_segments (source_segments ot))"
    using i Cons_nth_drop_Suc[of i "pad_segments (source_segments ot)"] by (simp add: source_segments_def)
  with IH store_step[OF ok Suc.prems(1,2) i, of z "drop (Suc i) (pad_segments (source_segments ot))"] show ?case by simp
qed

definition coding :: "outboundTransfer \<Rightarrow> RLNCCodedPacket list \<Rightarrow> inboundTransfer \<Rightarrow> bool" where
  "coding ot R it \<longleftrightarrow> collecting ot {} it \<and> sizes_known ot it \<and>
     (case it_rlncGen it of
        None \<Rightarrow> R = []
      | Some g \<Rightarrow> gen_K g = ot_segCount ot \<and> gen_Received g = R \<and> \<not> gen_Decoded g)"

definition decodable :: "outboundTransfer \<Rightarrow> RLNCCodedPacket list \<Rightarrow> bool" where
  "decodable ot R \<longleftrightarrow> ot_segCount ot \<le> length R \<and> full_rank (ot_segCount ot) (map cp_Coefficients R)"

lemma decodable_mono: "decodable ot R \<Longrightarrow> decodable ot (R @ S)"
  unfolding decodable_def full_rank_def by auto

definition coded_completion :: "outboundTransfer \<Rightarrow> string \<Rightarrow> ResourceTransfer \<Rightarrow> resource_effect list" where
  "coded_completion ot iface rt =
     (if rt_onReceive rt then [OnReceive (hashHex (ot_hash ot)) (ot_data ot) iface] else []) @
     [SendPacket iface (proof_packet (ot_hash ot))]"

lemma source_segments: "length (source_segments ot) = ot_segCount ot"
  by (simp add: source_segments_def)

lemma coded_packet_facts:
  assumes ok: "small_transfer ot" and p: "p \<in> set (coded_packets ot red rnd)"
  shows "coded_ok p" "cp_ResourceHash p = ot_hash ot" "unat (cp_K p) = ot_segCount ot"
    "length (cp_Coefficients p) = ot_segCount ot"
proof -
  note e = encoded_packet[OF p[unfolded coded_packets_def], unfolded source_segments]
  have b: "ot_ok ot" "ot_segCount ot < 256" using ok by (simp_all add: small_transfer_def)
  note n = ot_segments(2,3)[OF b(1)]
  show k: "unat (cp_K p) = ot_segCount ot" using e(4) b(2) by (simp add: unat_of_nat)
  show "cp_ResourceHash p = ot_hash ot" "length (cp_Coefficients p) = ot_segCount ot" using e by simp_all
  have "segment_data ot 0 \<in> set (source_segments ot)" using n(1) by (simp add: source_segments_def)
  then have "length (segment_data ot 0) \<le> max_length (source_segments ot)" by (rule max_length)
  moreover have "0 < length (segment_data ot 0)" using n(2)[OF n(1)] by simp
  moreover have "length (cp_Payload p) = max_length (source_segments ot)"
    using e(6) coded_payload(1)[OF length_pad, where cs = "cp_Coefficients p"] by simp
  ultimately have "0 < length (cp_Payload p)" by linarith
  then have "cp_Payload p \<noteq> []" by simp
  then show "coded_ok p" using e k n(1) b(1) by (auto simp: coded_ok_def ot_ok_def)
qed

lemma TryDecode_coded:
  assumes ok: "small_transfer ot" and R: "set R \<subseteq> set (coded_packets ot red rnd)"
    and g: "gen_K g = ot_segCount ot" "gen_Received g = R" "\<not> gen_Decoded g"
  shows "TryDecode g = (if decodable ot R
    then (Inr (pad_segments (source_segments ot)), g\<lparr>gen_Decoded := True, gen_DecodedData := pad_segments (source_segments ot)\<rparr>)
    else (Inl ErrRLNCNotDecodable, g))"
proof (cases "ot_segCount ot \<le> length R")
  case True
  have "source_segments ot \<noteq> []" using ok ot_segments(2)[of ot] by (auto simp: small_transfer_def source_segments_def)
  with decode_encoded[OF _ _ R[unfolded coded_packets_def]] True
  have "GaussianEliminate (coefficient_matrix (ot_segCount ot) R) (map cp_Payload R) =
      (if full_rank (ot_segCount ot) (map cp_Coefficients R) then Inr (pad_segments (source_segments ot)) else Inl ErrRankDeficient)"
    by (simp add: source_segments)
  moreover have "list_all (\<lambda>p. ot_segCount ot \<le> length (cp_Coefficients p)) R"
    using coded_packet_facts(4)[OF ok] R by (auto simp: list_all_iff)
  ultimately show ?thesis using g True by (simp add: TryDecode_def decodable_def)
qed (use g in \<open>simp add: TryDecode_def decodable_def\<close>)

lemma HandleCodedSegment_step:
  assumes ok: "small_transfer ot" "sha (ot_data ot) = ot_hash ot"
    and it: "map_of (rt_inbound rt) (ot_hash ot) = Some it" "coding ot R it"
    and R: "set (R @ [p]) \<subseteq> set (coded_packets ot red rnd)"
  shows "\<exists>it'. HandleCodedSegment sha (MarshalRLNCPacket p) iface rt =
      (let rt' = rt\<lparr>rt_inbound := AList.update (ot_hash ot) it' (rt_inbound rt)\<rparr> in
       if decodable ot (R @ [p])
       then Inr (rt'\<lparr>rt_inbound := AList.delete (ot_hash ot) (rt_inbound rt')\<rparr>, coded_completion ot iface rt)
       else Inr (rt', [])) \<and> (\<not> decodable ot (R @ [p]) \<longrightarrow> coding ot (R @ [p]) it')"
proof -
  have p: "p \<in> set (coded_packets ot red rnd)" using R by simp
  note f = coded_packet_facts[OF ok(1) p]
  have c: "collecting ot {} it" "sizes_known ot it" using it(2) by (simp_all add: coding_def)
  let ?g0 = "case it_rlncGen it of None \<Rightarrow> NewRLNCGeneration (cp_GenerationID p) (unat (cp_K p)) (length (cp_Payload p))
    | Some g \<Rightarrow> g"
  have g0: "gen_K ?g0 = ot_segCount ot" "gen_Received ?g0 = R" "\<not> gen_Decoded ?g0"
    using it(2) f(3) by (auto simp: coding_def NewRLNCGeneration_def split: option.splits)
  obtain g where g: "g = ?g0\<lparr>gen_Received := R @ [p]\<rparr>" by blast
  have gf: "gen_K g = ot_segCount ot" "gen_Received g = R @ [p]" "\<not> gen_Decoded g" using g0 by (simp_all add: g)
  have add: "AddPacket p ?g0 = (ot_segCount ot \<le> length (R @ [p]), g)" using g0 by (simp add: AddPacket_def Let_def g)
  note h = HandleCodedSegment_def[of sha "MarshalRLNCPacket p" iface rt, unfolded coded_dec_enc[OF f(1)] sum.case f(2) it(1) option.case
      Let_def, unfolded add prod.case]
  note t = TryDecode_coded[OF ok(1) R gf]
  show ?thesis
  proof (cases "decodable ot (R @ [p])")
    case True
    let ?it = "it\<lparr>it_rlncGen := Some (snd (TryDecode g))\<rparr>"
    have "collecting ot {} ?it" "sizes_known ot ?it" using c by (simp_all add: collecting_def sizes_known_def)
    from store_decoded_all[OF ok(1), of 0 ?it "ot_segCount ot"] this obtain it' where
      s: "store_decoded 0 (pad_segments (source_segments ot)) ?it = Inr it'" "collecting ot {..<ot_segCount ot} it'" by auto
    have "reassemble it' = Some (ot_data ot)"
      using ok(1) s(2) by (intro reassemble_complete) (auto simp: small_transfer_def)
    moreover have "BitmapAllClear (it_bitmap it')" using s(2) by (simp add: bitmap.none_iff collecting_def)
    moreover have "it_hash it' = ot_hash ot" using s(2) by (simp add: collecting_def)
    moreover have "ot_segCount ot \<le> Suc (length R)" using True by (simp add: decodable_def)
    ultimately show ?thesis
      using True s(1) t ok(2) by (intro exI[of _ it']) (simp add: h finish_coded_def Let_def coded_completion_def)
  next
    case False
    let ?it = "it\<lparr>it_rlncGen := Some g\<rparr>"
    have "coding ot (R @ [p]) ?it" using c gf by (simp add: coding_def collecting_def sizes_known_def)
    then show ?thesis using False t by (intro exI[of _ ?it]) (auto simp: h Let_def)
  qed
qed

definition coded_wire :: "RLNCCodedPacket \<Rightarrow> bytes" where
  "coded_wire p = resource_packet ContextResourceRLNC (MarshalRLNCPacket p)"

lemma dispatch_coded:
  "coded_ok p \<Longrightarrow> handleResourcePacket sha sendFn rnd now (coded_wire p) iface rt =
     HandleCodedSegment sha (MarshalRLNCPacket p) iface rt"
  unfolding coded_wire_def by (rule dispatch_resource(5)) (auto simp: MarshalRLNCPacket_def Let_def)

lemma receive_coded_unknown:
  assumes ok: "small_transfer ot" and "map_of (rt_inbound rt) (ot_hash ot) = None"
  shows "set ps \<subseteq> set (coded_packets ot red rnd') \<Longrightarrow>
    receive_all sha sendFn rnd now iface (map coded_wire ps) rt = Inr (rt, [])"
proof (induction ps)
  case (Cons p ps)
  have p: "p \<in> set (coded_packets ot red rnd')" using Cons.prems by simp
  note f = coded_packet_facts[OF ok p]
  show ?case using Cons f(2) assms(2) by (simp add: dispatch_coded[OF f(1)] HandleCodedSegment_def coded_dec_enc[OF f(1)])
qed simp

lemma receive_coded:
  assumes ok: "small_transfer ot" "sha (ot_data ot) = ot_hash ot"
    and it: "map_of (rt_inbound rt) (ot_hash ot) = Some it" "coding ot R it" "\<not> decodable ot R"
    and ps: "set (R @ ps) \<subseteq> set (coded_packets ot red rnd')"
  shows "\<exists>rt'. receive_all sha sendFn rnd now iface (map coded_wire ps) rt =
      Inr (rt', if decodable ot (R @ ps) then coded_completion ot iface rt else []) \<and>
      (decodable ot (R @ ps) \<longrightarrow> map_of (rt_inbound rt') (ot_hash ot) = None)"
  using it ps
proof (induction ps arbitrary: rt it R)
  case (Cons p ps)
  then have p: "p \<in> set (coded_packets ot red rnd')" "set (R @ [p]) \<subseteq> set (coded_packets ot red rnd')" by auto
  note d = dispatch_coded[OF coded_packet_facts(1)[OF ok(1) p(1)], of sha sendFn rnd now iface rt]
  from HandleCodedSegment_step[where sha = sha, OF ok Cons.prems(1,2) p(2), of iface] obtain it' where
    h: "HandleCodedSegment sha (MarshalRLNCPacket p) iface rt =
      (let rt' = rt\<lparr>rt_inbound := AList.update (ot_hash ot) it' (rt_inbound rt)\<rparr> in
       if decodable ot (R @ [p])
       then Inr (rt'\<lparr>rt_inbound := AList.delete (ot_hash ot) (rt_inbound rt')\<rparr>, coded_completion ot iface rt)
       else Inr (rt', []))" and
    c: "\<not> decodable ot (R @ [p]) \<Longrightarrow> coding ot (R @ [p]) it'" by blast
  let ?rt = "rt\<lparr>rt_inbound := AList.update (ot_hash ot) it' (rt_inbound rt)\<rparr>"
  show ?case
  proof (cases "decodable ot (R @ [p])")
    case True
    let ?rt' = "?rt\<lparr>rt_inbound := AList.delete (ot_hash ot) (rt_inbound ?rt)\<rparr>"
    have "map_of (rt_inbound ?rt') (ot_hash ot) = None" by (simp add: delete_conv')
    moreover from receive_coded_unknown[OF ok(1) this] Cons.prems(4)
    have "receive_all sha sendFn rnd now iface (map coded_wire ps) ?rt' = Inr (?rt', [])" by auto
    moreover have "decodable ot (R @ p # ps)" using decodable_mono[OF True, of ps] by simp
    ultimately show ?thesis using h d True by (simp add: Let_def)
  next
    case False
    have "map_of (rt_inbound ?rt) (ot_hash ot) = Some it'" by (simp add: update_conv')
    from Cons.IH[OF this c[OF False] False] Cons.prems(4) obtain rt' where
      "receive_all sha sendFn rnd now iface (map coded_wire ps) ?rt =
        Inr (rt', if decodable ot (R @ p # ps) then coded_completion ot iface ?rt else [])"
      "decodable ot (R @ p # ps) \<longrightarrow> map_of (rt_inbound rt') (ot_hash ot) = None" by auto
    then show ?thesis using h d False by (simp add: Let_def coded_completion_def)
  qed
qed (use assms in simp)

subsection \<open>Properties\<close>

definition exchange_ok :: "(bytes \<Rightarrow> bytes) \<Rightarrow> (string \<Rightarrow> bytes \<Rightarrow> bool) \<Rightarrow> bytes \<Rightarrow> ResourceTransfer \<Rightarrow> nat \<Rightarrow> bool" where
  "exchange_ok sha sendFn data snd0 limit \<longleftrightarrow> sha_ok sha \<and> (\<forall>i p. sendFn i p) \<and> data \<noteq> [] \<and> length data \<le> MaxResourceSize \<and>
     0 < rc_SegmentSize (rt_config snd0) \<and> rc_SegmentSize (rt_config snd0) < 65536 \<and>
     ComputeSegmentCount (int (length data)) (rc_SegmentSize (rt_config snd0)) < int limit"

lemma exchange_start:
  fixes t0 :: instant
  assumes ok: "exchange_ok sha sendFn data snd0 limit" "limit \<le> 65536"
  defines "ot \<equiv> offered sha t0 data (rc_SegmentSize (rt_config snd0))"
  shows "ot_ok ot" "ot_segCount ot < limit" "ot_segSize ot < 65536" "length (ot_data ot) \<le> MaxResourceSize"
    "ot_hash ot = sha data" "ot_data ot = data"
    "Offer sha sendFn t0 data ia snd0 = (Inr (sha data),
      snd0\<lparr>rt_outbound := AList.update (sha data) ot (rt_outbound snd0)\<rparr>, [SendPacket ia (adv_packet ot)])"
proof -
  note o = ok(1)[unfolded exchange_ok_def]
  show "ot_ok ot" unfolding ot_def using o by (intro offered_ok) simp_all
  have "0 \<le> ComputeSegmentCount (int (length data)) (rc_SegmentSize (rt_config snd0))"
    using o by (simp add: ComputeSegmentCount_def pos_imp_zdiv_nonneg_iff)
  then show "ot_segCount ot < limit" "ot_segSize ot < 65536" "length (ot_data ot) \<le> MaxResourceSize"
    "ot_hash ot = sha data" "ot_data ot = data"
    using o by (auto simp: ot_def offered_def nat_less_iff)
  show "Offer sha sendFn t0 data ia snd0 = (Inr (sha data),
      snd0\<lparr>rt_outbound := AList.update (sha data) ot (rt_outbound snd0)\<rparr>, [SendPacket ia (adv_packet ot)])"
    unfolding ot_def using o by (intro Offer_sends) simp_all
qed

lemma proof_accepted:
  "length h = 32 \<Longrightarrow> \<exists>snd3. handleResourcePacket sha sendFn rnd t (proof_packet h) ia rt = Inr (snd3, []) \<and>
     map_of (rt_outbound snd3) h = None"
proof -
  assume h: "length h = 32"
  then have ne: "MarshalResourceProof \<lparr>rp_ResourceHash = h\<rparr> \<noteq> []" by (auto simp: MarshalResourceProof_def)
  have "HandleProof (MarshalResourceProof \<lparr>rp_ResourceHash = h\<rparr>) rt = rt\<lparr>rt_outbound := AList.delete h (rt_outbound rt)\<rparr>"
    using proof_roundtrip[of "\<lparr>rp_ResourceHash = h\<rparr>"] h by (simp add: HandleProof_def)
  then show ?thesis unfolding proof_packet_def dispatch_resource(4)[OF ne] by (simp add: delete_conv')
qed

lemma completion_inbound [simp]: "completion ot iface (rt\<lparr>rt_inbound := x\<rparr>) = completion ot iface rt"
  by (simp add: completion_def)

lemma resource_packet_inj: "resource_packet ctx a = resource_packet ctx b \<longleftrightarrow> a = b"
  by (simp add: resource_packet_def MarshalHeader_def PackFlags_def)

definition segment_ok :: "ResourceSegment \<Rightarrow> bool" where
  "segment_ok seg \<longleftrightarrow> length (sg_ResourceHash seg) = 32 \<and> sg_Data seg \<noteq> []"

interpretation segment: codec MarshalResourceSegment UnmarshalResourceSegment segment_ok
  by unfold_locales (simp add: segment_ok_def seg_roundtrip)

lemma seg_packet_inj:
  assumes ok: "ot_ok ot" and ij: "i < 65536" "j < 65536" "i < ot_segCount ot" "j < ot_segCount ot"
    and eq: "seg_packet ot i = seg_packet ot j"
  shows "i = j"
proof -
  let ?seg = "\<lambda>i. \<lparr>sg_ResourceHash = ot_hash ot, sg_SegmentIndex = of_nat i, sg_Data = segment_data ot i\<rparr>"
  have "segment_ok (?seg i)" "segment_ok (?seg j)"
    using ok ot_segments(3)[OF ok] ij(3,4) by (simp_all add: segment_ok_def ot_ok_def)
  moreover have "MarshalResourceSegment (?seg i) = MarshalResourceSegment (?seg j)"
    using eq unfolding seg_packet_def resource_packet_inj .
  ultimately have "?seg i = ?seg j" by (rule segment.enc_inj)
  then have "(of_nat i :: u16) = of_nat j" by (rule ResourceSegment.ext_inject[THEN iffD1, THEN conjunct2, THEN conjunct1])
  then show ?thesis using u16_inj[OF ij(1,2)] by (rule iffD1[rotated])
qed

lemma inj_image_subset: "inj_on f A \<Longrightarrow> B \<subseteq> A \<Longrightarrow> f ` A \<subseteq> f ` B \<longleftrightarrow> A \<subseteq> B"
  unfolding inj_on_def by blast

lemma delivered_iff:
  assumes ok: "ot_ok ot" "ot_segCount ot < 65536" "sha (ot_data ot) = ot_hash ot"
    and it: "collecting ot {} it" and ws: "set ws \<subseteq> set (map (seg_packet ot) [0..<ot_segCount ot])"
    and rt: "map_of (rt_inbound rt) (ot_hash ot) = Some it"
  shows "\<exists>rt'. receive_all sha sendFn rnd now iface ws rt =
      Inr (rt', if set (map (seg_packet ot) [0..<ot_segCount ot]) \<subseteq> set ws then completion ot iface rt else []) \<and>
      (set (map (seg_packet ot) [0..<ot_segCount ot]) \<subseteq> set ws \<longrightarrow> map_of (rt_inbound rt') (ot_hash ot) = None)"
proof -
  have "\<forall>w \<in> set ws. \<exists>i < ot_segCount ot. w = seg_packet ot i" using ws by fastforce
  then obtain f where f: "\<And>w. w \<in> set ws \<Longrightarrow> f w < ot_segCount ot \<and> w = seg_packet ot (f w)" by metis
  then have m: "map (seg_packet ot) (map f ws) = ws" by (simp add: map_idI)
  have "inj_on (seg_packet ot) {..<ot_segCount ot}"
    using seg_packet_inj[OF ok(1)] ok(2) by (auto intro!: inj_onI)
  moreover have sub: "set (map f ws) \<subseteq> {..<ot_segCount ot}" using f by auto
  ultimately have "seg_packet ot ` {..<ot_segCount ot} \<subseteq> seg_packet ot ` set (map f ws) \<longleftrightarrow> {..<ot_segCount ot} \<subseteq> set (map f ws)"
    by (rule inj_image_subset)
  moreover have "set (map (seg_packet ot) [0..<ot_segCount ot]) = seg_packet ot ` {..<ot_segCount ot}" by auto
  moreover have "seg_packet ot ` set (map f ws) = set ws" unfolding set_map[symmetric] m ..
  ultimately have eq: "set (map (seg_packet ot) [0..<ot_segCount ot]) \<subseteq> set ws \<longleftrightarrow> {..<ot_segCount ot} \<subseteq> set (map f ws)"
    by (simp only:)
  have "\<not> {..<ot_segCount ot} \<subseteq> {}" using ot_segments(2)[OF ok(1)] by auto
  from receive_segments[where sha = sha, OF ok rt it this sub, of sendFn rnd now iface]
  show ?thesis unfolding m eq Un_empty_left .
qed


definition sample_sha :: "bytes \<Rightarrow> bytes" where
  "sample_sha m = take 32 (m @ replicate 32 0)"

definition sample_node :: "bool \<Rightarrow> ResourceTransfer" where
  "sample_node coded = SetOnReceive (NewResourceTransfer
     \<lparr>rc_SegmentSize = 2, rc_TransferTimeout = 0, rc_RetryInterval = 0, rc_MaxRetries = 0, rc_RLNCEnabled = coded,
      rc_RLNCRedundancy = 0\<rparr>)"

lemma sample_exchange: "exchange_ok sample_sha (\<lambda>_ _. True) [7, 8, 9] (sample_node coded) 256"
  by (simp add: exchange_ok_def sample_node_def SetOnReceive_def NewResourceTransfer_def sha_ok_def sample_sha_def
      MaxResourceSize_def ComputeSegmentCount_def min_def)




subsection \<open>Histories\<close>

text \<open>
  Everything a transfer manager can live through: it starts empty, offers resources, is handed packets
  of any content, and prunes. The second component collects what it has done so far.
\<close>

inductive transfer_run :: "(bytes \<Rightarrow> bytes) \<Rightarrow> ResourceTransfer \<Rightarrow> resource_effect list \<Rightarrow> bool" for sha where
  start: "transfer_run sha (NewResourceTransfer config) []"
| callback: "transfer_run sha rt es \<Longrightarrow> transfer_run sha (SetOnReceive rt) es"
| offer: "transfer_run sha rt es \<Longrightarrow> Offer sha sendFn now data iface rt = (r, rt', es') \<Longrightarrow> transfer_run sha rt' (es @ es')"
| packet: "transfer_run sha rt es \<Longrightarrow> handleResourcePacket sha sendFn rnd now p iface rt = Inr (rt', es') \<Longrightarrow>
    transfer_run sha rt' (es @ es')"
| prune: "transfer_run sha rt es \<Longrightarrow> transfer_run sha (resource_prune now rt) es"

definition requested_before :: "resource_effect list \<Rightarrow> bytes \<Rightarrow> bool" where
  "requested_before es h \<longleftrightarrow> (\<exists>i bm. SendPacket i (resource_packet ContextResourceReq (h @ bm)) \<in> set es)"

definition inbound_ok :: "resource_effect list \<Rightarrow> (bytes, inboundTransfer) table \<Rightarrow> bool" where
  "inbound_ok es inb \<longleftrightarrow> (\<forall>(k, it) \<in> set inb. it_hash it = k \<and> requested_before es k)"

definition delivery_ok :: "(bytes \<Rightarrow> bytes) \<Rightarrow> resource_effect list \<Rightarrow> resource_effect \<Rightarrow> bool" where
  "delivery_ok sha es e = (case e of
      SendPacket i p \<Rightarrow> True
    | OnReceive h d i \<Rightarrow> h = hashHex (sha d) \<and> requested_before es (sha d)
    | Deliver h d \<Rightarrow> h = sha d \<and> requested_before es (sha d))"

lemma requested_before_append [simp]: "requested_before es h \<Longrightarrow> requested_before (es @ es') h"
  by (auto simp: requested_before_def)

lemma delivery_ok_append: "delivery_ok sha es e \<Longrightarrow> delivery_ok sha (es @ es') e"
  by (auto simp: delivery_ok_def split: resource_effect.splits)

lemma inbound_ok_append: "inbound_ok es inb \<Longrightarrow> inbound_ok (es @ es') inb"
  by (auto simp: inbound_ok_def)

lemma inbound_ok_lookup: "inbound_ok es inb \<Longrightarrow> map_of inb k = Some it \<Longrightarrow> it_hash it = k \<and> requested_before es k"
  by (auto simp: inbound_ok_def dest!: map_of_SomeD)

lemma set_update_subset: "set (AList.update k v t) \<subseteq> insert (k, v) (set t)"
  by (induction t) auto

lemma inbound_ok_update:
  "inbound_ok es inb \<Longrightarrow> it_hash it = k \<Longrightarrow> requested_before es k \<Longrightarrow> inbound_ok es (AList.update k it inb)"
  using set_update_subset[of k it inb] by (fastforce simp: inbound_ok_def)

lemma inbound_ok_delete: "inbound_ok es inb \<Longrightarrow> inbound_ok es (AList.delete k inb)"
  by (auto simp: inbound_ok_def AList.delete_eq)

lemma store_decoded_hash: "store_decoded i ds it = Inr it' \<Longrightarrow> it_hash it' = it_hash it"
  by (induction i ds it rule: store_decoded.induct) (auto simp: Let_def split: if_splits)

lemma HandleSegment_ok:
  assumes ok: "inbound_ok es (rt_inbound rt)" and h: "HandleSegment sha data iface rt = (rt', es')"
  shows "inbound_ok es (rt_inbound rt') \<and> (\<forall>e \<in> set es'. delivery_ok sha es e)"
proof (cases "UnmarshalResourceSegment data")
  case (Inr seg)
  show ?thesis
  proof (cases "map_of (rt_inbound rt) (sg_ResourceHash seg)")
    case (Some it)
    let ?it = "it\<lparr>it_segments := AList.update (sg_SegmentIndex seg) (sg_Data seg) (it_segments it),
      it_bitmap := BitmapClear (it_bitmap it) (unat (sg_SegmentIndex seg))\<rparr>"
    note l = inbound_ok_lookup[OF ok Some]
    then have "inbound_ok es (AList.update (sg_ResourceHash seg) ?it (rt_inbound rt))"
      by (intro inbound_ok_update ok) simp_all
    with l inbound_ok_delete[OF this] h Inr Some show ?thesis
      by (auto simp: HandleSegment_def Let_def delivery_ok_def split: if_splits option.splits)
  qed (use h Inr ok in \<open>simp add: HandleSegment_def\<close>)
qed (use h ok in \<open>simp add: HandleSegment_def\<close>)

lemma finish_coded_ok:
  assumes "inbound_ok es (rt_inbound rt)" and "it_hash it = h" and "requested_before es h"
    and "finish_coded sha h iface it rt = (rt', es')"
  shows "inbound_ok es (rt_inbound rt') \<and> (\<forall>e \<in> set es'. delivery_ok sha es e)"
  using assms inbound_ok_delete[OF assms(1), of h]
  by (auto simp: finish_coded_def Let_def delivery_ok_def split: if_splits option.splits)

lemma HandleCodedSegment_ok:
  assumes ok: "inbound_ok es (rt_inbound rt)" and h: "HandleCodedSegment sha data iface rt = Inr (rt', es')"
  shows "inbound_ok es (rt_inbound rt') \<and> (\<forall>e \<in> set es'. delivery_ok sha es e)"
proof (cases "UnmarshalRLNCPacket data")
  case (Inr pkt)
  show ?thesis
  proof (cases "map_of (rt_inbound rt) (cp_ResourceHash pkt)")
    case (Some it)
    note l = inbound_ok_lookup[OF ok Some]
    have put: "inbound_ok es (AList.update (cp_ResourceHash pkt) it' (rt_inbound rt))" if "it_hash it' = it_hash it" for it'
      using l that by (intro inbound_ok_update ok) simp_all
    have fin: "finish_coded sha (cp_ResourceHash pkt) iface it' (rt\<lparr>rt_inbound := AList.update (cp_ResourceHash pkt) it' (rt_inbound rt)\<rparr>)
        = (rt', es') \<Longrightarrow> store_decoded 0 ds (it\<lparr>it_rlncGen := g\<rparr>) = Inr it' \<Longrightarrow> ?thesis" for it' ds g
      using l put[of it'] store_decoded_hash[of 0 ds "it\<lparr>it_rlncGen := g\<rparr>" it']
      by (intro finish_coded_ok) (auto)
    from h Inr Some show ?thesis
      by (auto simp: HandleCodedSegment_def Let_def put dest: fin split: if_splits option.splits prod.splits sum.splits rlnc_error.splits)
  qed (use h Inr ok in \<open>simp add: HandleCodedSegment_def\<close>)
qed (use h ok in \<open>simp add: HandleCodedSegment_def\<close>)

lemma HandleAdvertisement_ok:
  assumes ok: "inbound_ok es (rt_inbound rt)" and h: "snd (HandleAdvertisement now data iface rt) = (rt', es')"
  shows "inbound_ok (es @ es') (rt_inbound rt') \<and> (\<forall>e \<in> set es'. delivery_ok sha es e)"
proof (cases "\<exists>adv. UnmarshalResourceAdv data = Inr adv \<and> unat (ad_TotalSize adv) \<le> MaxResourceSize")
  case True
  then obtain adv where a: "UnmarshalResourceAdv data = Inr adv" "\<not> MaxResourceSize < unat (ad_TotalSize adv)" by auto
  then obtain it where it: "rt_inbound rt' = AList.update (ad_ResourceHash adv) it (rt_inbound rt)" "es' = sendRequest it"
    "it_hash it = ad_ResourceHash adv"
    using h by (auto simp: HandleAdvertisement_def Let_def)
  then have "requested_before (es @ es') (ad_ResourceHash adv)"
    by (auto simp: requested_before_def sendRequest_def MarshalResourceReq_def)
  with it(1,3) inbound_ok_append[OF ok, of es'] have "inbound_ok (es @ es') (rt_inbound rt')"
    by (simp add: inbound_ok_update)
  with it(2) show ?thesis by (simp add: sendRequest_def delivery_ok_def)
next
  case False
  then show ?thesis using h ok
    by (auto simp: HandleAdvertisement_def Let_def split: sum.splits if_splits)
qed

lemma HandleRequest_ok: "e \<in> set (HandleRequest sendFn rnd data iface rt) \<Longrightarrow> delivery_ok sha es e"
proof -
  have "e \<in> set (send_until_failure sendFn iface ps) \<Longrightarrow> delivery_ok sha es e" for ps
    by (induction ps) (auto simp: delivery_ok_def split: if_splits)
  then show "e \<in> set (HandleRequest sendFn rnd data iface rt) \<Longrightarrow> delivery_ok sha es e"
    by (auto simp: HandleRequest_def Let_def split: sum.splits option.splits if_splits)
qed

lemma packet_ok:
  assumes ok: "inbound_ok es (rt_inbound rt)" and h: "handleResourcePacket sha sendFn rnd now p iface rt = Inr (rt', es')"
  shows "inbound_ok (es @ es') (rt_inbound rt') \<and> (\<forall>e \<in> set es'. delivery_ok sha es e)"
proof -
  have s: ?thesis if "HandleSegment sha d iface rt = (rt', es')" for d
    using HandleSegment_ok[OF ok that] inbound_ok_append by blast
  have c: ?thesis if "HandleCodedSegment sha d iface rt = Inr (rt', es')" for d
    using HandleCodedSegment_ok[OF ok that] inbound_ok_append by blast
  have a: ?thesis if "snd (HandleAdvertisement now d iface rt) = (rt', es')" for d
    using HandleAdvertisement_ok[OF ok that] by blast
  have p: "rt_inbound (HandleProof d rt) = rt_inbound rt" for d by (simp add: HandleProof_def split: sum.splits)
  show ?thesis
    using h ok unfolding handleResourcePacket_def
    by (auto simp: p inbound_ok_append HandleRequest_ok dest: s c a split: sum.splits if_splits)
qed

lemma transfer_run_ok:
  "transfer_run sha rt es \<Longrightarrow> inbound_ok es (rt_inbound rt) \<and> (\<forall>e \<in> set es. delivery_ok sha es e)"
proof (induction rule: transfer_run.induct)
  case (start config)
  then show ?case by (simp add: NewResourceTransfer_def inbound_ok_def)
next
  case (callback rt es)
  then show ?case by (simp add: SetOnReceive_def)
next
  case (offer rt es sendFn now data iface r rt' es')
  then have "rt_inbound rt' = rt_inbound rt" "\<forall>e \<in> set es'. delivery_ok sha es e"
    by (auto simp: Offer_def Let_def delivery_ok_def split: if_splits)
  with offer.IH show ?case by (auto simp: inbound_ok_append delivery_ok_append)
next
  case (packet rt es sendFn rnd now p iface rt' es')
  from packet_ok[OF conjunct1[OF packet.IH] packet.hyps(2)] packet.IH show ?case
    by (auto simp: delivery_ok_append)
next
  case (prune rt es now)
  then show ?case by (auto simp: resource_prune_def Let_def inbound_ok_def)
qed

text \<open>
  C3. Integrity against any peer: whatever packets a node is handed, coded or not, forged or not, every
  resource it delivers has exactly the hash under which it is delivered, and the node itself had requested
  that hash.
\<close>

theorem delivered_resources_authentic:
  assumes "transfer_run sha rt es"
  shows "(Deliver h d \<in> set es \<longrightarrow> sha d = h \<and> (\<exists>i bm. SendPacket i (resource_packet ContextResourceReq (h @ bm)) \<in> set es)) \<and>
    (OnReceive hh d iface \<in> set es \<longrightarrow> hashHex (sha d) = hh \<and>
      (\<exists>i bm. SendPacket i (resource_packet ContextResourceReq (sha d @ bm)) \<in> set es))"
  using transfer_run_ok[OF assms] by (auto simp: delivery_ok_def requested_before_def)

theorem delivered_resources_authentic_witness:
  "\<exists>rt es. transfer_run sample_sha rt es \<and> Deliver (sample_sha [5]) [5] \<in> set es \<and>
     (\<exists>i bm. SendPacket i (resource_packet ContextResourceReq (sample_sha [5] @ bm)) \<in> set es)"
proof -
  define ot where "ot = offered sample_sha 0 [5] 2"
  have s: "sha_ok sample_sha" by (simp add: sha_ok_def sample_sha_def min_def)
  have o: "ot_ok ot" unfolding ot_def by (rule offered_ok[OF s]) simp_all
  have f: "ot_segCount ot = 1" "ot_segSize ot = 2" "ot_data ot = [5]" "ot_hash ot = sample_sha [5]"
    by (simp_all add: ot_def offered_def ComputeSegmentCount_def)
  let ?rt0 = "NewResourceTransfer DefaultResourceTransferConfig"
  from advertisement_accepted[OF o, of sample_sha "\<lambda>_ _. True" "\<lambda>_ _. 0" 0 "''mesh_0''" ?rt0] f obtain it where
    a: "handleResourcePacket sample_sha (\<lambda>_ _. True) (\<lambda>_ _. 0) 0 (adv_packet ot) ''mesh_0'' ?rt0 =
      Inr (?rt0\<lparr>rt_inbound := AList.update (ot_hash ot) it (rt_inbound ?rt0)\<rparr>, [SendPacket ''mesh_0'' (req_packet ot)])"
    "collecting ot {} it" by (auto simp: MaxResourceSize_def)
  let ?rt1 = "?rt0\<lparr>rt_inbound := AList.update (ot_hash ot) it (rt_inbound ?rt0)\<rparr>"
  have run: "transfer_run sample_sha ?rt1 ([] @ [SendPacket ''mesh_0'' (req_packet ot)])"
    by (rule transfer_run.packet[OF transfer_run.start a(1)])
  have "map_of (rt_inbound ?rt1) (ot_hash ot) = Some it" by (simp add: update_conv')
  from HandleSegment_step[where sha = sample_sha and i = 0, OF o _ _ this a(2), of "\<lambda>_ _. True" "\<lambda>_ _. 0" 0 "''mesh_0''"] f
  have "\<exists>rt2. handleResourcePacket sample_sha (\<lambda>_ _. True) (\<lambda>_ _. 0) 0 (seg_packet ot 0) ''mesh_0'' ?rt1 =
      Inr (rt2, completion ot ''mesh_0'' ?rt1)" by (simp add: Let_def lessThan_Suc) blast
  then obtain rt2 where h: "handleResourcePacket sample_sha (\<lambda>_ _. True) (\<lambda>_ _. 0) 0 (seg_packet ot 0) ''mesh_0'' ?rt1 =
      Inr (rt2, completion ot ''mesh_0'' ?rt1)" by blast
  from transfer_run.packet[OF run h]
  have r: "transfer_run sample_sha rt2 (([] @ [SendPacket ''mesh_0'' (req_packet ot)]) @ completion ot ''mesh_0'' ?rt1)" .
  have d: "Deliver (sample_sha [5]) [5] \<in> set (([] @ [SendPacket ''mesh_0'' (req_packet ot)]) @ completion ot ''mesh_0'' ?rt1)"
    by (simp add: completion_def f)
  from delivered_resources_authentic[OF r, of "sample_sha [5]" "[5]"] d r show ?thesis by blast
qed

definition bad_adv :: "u16 \<Rightarrow> u16 \<Rightarrow> bytes" where
  "bad_adv segSize n = resource_packet ContextResourceAdv (MarshalResourceAdv
     \<lparr>ad_ResourceHash = replicate 32 0, ad_TotalSize = 1, ad_SegmentSize = segSize, ad_SegmentCount = n\<rparr>)"

definition bad_coded :: "bytes \<Rightarrow> bytes" where
  "bad_coded cs = coded_wire
     \<lparr>cp_ResourceHash = replicate 32 0, cp_Version = RLNCVersion, cp_GenerationID = 0, cp_K = of_nat (length cs),
      cp_Coefficients = cs, cp_Payload = [0]\<rparr>"

lemma bad_adv_accepted:
  "\<exists>it es. handleResourcePacket sha sendFn rnd now (bad_adv segSize n) iface rt =
      Inr (rt\<lparr>rt_inbound := AList.update (replicate 32 0) it (rt_inbound rt)\<rparr>, es) \<and>
    it_segSize it = segSize \<and> it_segCount it = n \<and> it_rlncGen it = None"
proof -
  let ?adv = "\<lparr>ad_ResourceHash = replicate 32 0, ad_TotalSize = 1, ad_SegmentSize = segSize, ad_SegmentCount = n\<rparr>"
  have "UnmarshalResourceAdv (MarshalResourceAdv ?adv) = Inr ?adv" by (rule adv_roundtrip) simp
  moreover have "MarshalResourceAdv ?adv \<noteq> []" by (simp add: MarshalResourceAdv_def)
  ultimately show ?thesis
    by (auto simp: bad_adv_def dispatch_resource(1) HandleAdvertisement_def MaxResourceSize_def Let_def)
qed

lemma one_by_one:
  assumes "cp_Coefficients p = [1]" and "cp_Payload p = [0]"
  shows "GaussianEliminate (coefficient_matrix 1 [p]) [[0]] = Inr [[0]]"
proof -
  have l: "lhs (coefficient_matrix 1 [p], [[0]]) 0 0 = 1"
    using coefficient_matrix(4)[of 0 "[p]" 0 1] assms by (simp add: lhs_def gf_hom)
  then have "\<forall>x. solves 1 1 (coefficient_matrix 1 [p], [[0]]) x (\<lambda>_. 0) \<longrightarrow> (\<forall>c < 1. x c = 0)"
    by (simp add: solves_def)
  with l show ?thesis
    by (subst elimination_decides[where n = 1 and k = 1 and l = 1 and xs = "[[0]]"])
      (simp_all add: coefficient_matrix solves_def gf_hom)
qed

text \<open>
  C34. Two short sequences of packets from any peer stop the program, whatever state it is in: an
  advertisement with segment size zero followed by one coded packet divides by zero; and a coded packet that
  declares fewer segments than the first one of its transfer indexes past its own coefficients.
\<close>

theorem coded_packets_panic:
  "receive_all sha sendFn rnd now iface [bad_adv 0 1, bad_coded [1]] rt = Inl DivideByZero \<and>
   receive_all sha sendFn rnd now iface [bad_adv 1 2, bad_coded [1, 0], bad_coded [1]] rt = Inl CoefficientIndex"
proof
  let ?p = "\<lambda>cs. \<lparr>cp_ResourceHash = replicate 32 0, cp_Version = RLNCVersion, cp_GenerationID = 0, cp_K = of_nat (length cs),
      cp_Coefficients = cs, cp_Payload = [0]\<rparr>"
  have ok: "coded_ok (?p [1])" "coded_ok (?p [1, 0])" by (simp_all add: coded_ok_def)
  note d = ok[THEN dispatch_coded, simplified] ok[THEN coded_dec_enc, simplified]
  from bad_adv_accepted[of sha sendFn rnd now 0 1 iface rt] obtain it es where
    a: "handleResourcePacket sha sendFn rnd now (bad_adv 0 1) iface rt =
      Inr (rt\<lparr>rt_inbound := AList.update (replicate 32 0) it (rt_inbound rt)\<rparr>, es)"
    "it_segSize it = 0" "it_segCount it = 1" "it_rlncGen it = None" by blast
  then show "receive_all sha sendFn rnd now iface [bad_adv 0 1, bad_coded [1]] rt = Inl DivideByZero"
    using one_by_one[of "?p [1]"]
    by (simp add: bad_coded_def d HandleCodedSegment_def update_conv' Let_def NewRLNCGeneration_def AddPacket_def TryDecode_def)
  from bad_adv_accepted[of sha sendFn rnd now 1 2 iface rt] obtain it es where
    b: "handleResourcePacket sha sendFn rnd now (bad_adv 1 2) iface rt =
      Inr (rt\<lparr>rt_inbound := AList.update (replicate 32 0) it (rt_inbound rt)\<rparr>, es)"
    "it_segSize it = 1" "it_segCount it = 2" "it_rlncGen it = None" by blast
  then show "receive_all sha sendFn rnd now iface [bad_adv 1 2, bad_coded [1, 0], bad_coded [1]] rt = Inl CoefficientIndex"
    by (simp add: bad_coded_def d HandleCodedSegment_def update_conv' Let_def NewRLNCGeneration_def AddPacket_def TryDecode_def)
qed

end
