(* ===== verification/HubIds.thy ===== *)
theory HubIds
  imports Relay Access
begin

unbundle bit_operations_syntax

section \<open>Identities, content digest and wire forms of the Hub route\<close>

text \<open>
  \<open>internal/hubmsg\<close>: \<open>ids.go\<close> (UUIDs in canonical text, versions 5 and 7), \<open>digest.go\<close> (the
  preimage of the content digest) and \<open>wire.go\<close> (submission, delivery, acknowledgement, status).
  A Go string is a \<open>string\<close>: a HOL character is one byte. SHA-1, SHA-256, the random bytes and JSON
  decoding are arguments; an instant counts nanoseconds, so \<open>UnixMilli\<close> is division by a million.
  The theorems: parsing accepts exactly the canonical texts, every id the bridge makes is one the contract
  accepts, and the preimage determines every field.
\<close>

subsection \<open>Strings and bytes\<close>

definition go_bytes :: "string \<Rightarrow> bytes" where
  "go_bytes s = map (\<lambda>c. word_of_nat (of_char c)) s"

definition go_string :: "bytes \<Rightarrow> string" where
  "go_string b = map (\<lambda>w. char_of (unat w)) b"

definition UnixMilli :: "instant \<Rightarrow> int" where
  "UnixMilli t = t div 1000000"

subsection \<open>UUIDs (ids.go)\<close>

definition Namespace :: string where
  "Namespace = ''a389cf74-e475-53d9-b656-d994a485fe0a''"

record IDContext =
  ic_Sender :: string
  ic_Name :: string
  ic_BridgeID :: string
  ic_RunStartMs :: int

text \<open>\<open>strings.ToLower\<close> changes exactly the letters \<open>A\<close> to \<open>Z\<close> of an ASCII string; a text with any other
  character that it might change is not hexadecimal and is refused by the decoder as well.\<close>

definition lower_char :: "char \<Rightarrow> char" where
  "lower_char c = (if 65 \<le> (of_char c :: nat) \<and> (of_char c :: nat) \<le> 90 then char_of (of_char c + 32 :: nat) else c)"

definition parseCanonical :: "string \<Rightarrow> bytes option" where
  "parseCanonical s =
     (if length s \<noteq> 36 \<or> s ! 8 \<noteq> CHR ''-'' \<or> s ! 13 \<noteq> CHR ''-'' \<or> s ! 18 \<noteq> CHR ''-'' \<or> s ! 23 \<noteq> CHR ''-'' then None
      else let hexs = slice 0 8 s @ slice 9 13 s @ slice 14 18 s @ slice 19 23 s @ slice 24 36 s in
        if map lower_char hexs \<noteq> hexs then None
        else case hexDecode (go_bytes hexs) of Inl _ \<Rightarrow> None | Inr b \<Rightarrow> Some b)"

definition format_uuid :: "bytes \<Rightarrow> string" where
  "format_uuid b =
     (let h = go_string (hashHex b) in
      slice 0 8 h @ ''-'' @ slice 8 12 h @ ''-'' @ slice 12 16 h @ ''-'' @ slice 16 20 h @ ''-'' @ slice 20 32 h)"

definition ValidV7 :: "string \<Rightarrow> bool" where
  "ValidV7 s = (case parseCanonical s of None \<Rightarrow> False | Some b \<Rightarrow> drop_bit 6 (b ! 8) = 2 \<and> drop_bit 4 (b ! 6) = 7)"

definition TimeOfV7 :: "bytes \<Rightarrow> int" where
  "TimeOfV7 b = sint (un_be ([0, 0] @ take 6 b))"

definition set_version :: "byte \<Rightarrow> bytes \<Rightarrow> bytes" where
  "set_version v b = b[6 := v OR (b ! 6 AND 0x0F), 8 := 0x80 OR (b ! 8 AND 0x3F)]"

definition UUIDv5 :: "(bytes \<Rightarrow> bytes) \<Rightarrow> string \<Rightarrow> string" where
  "UUIDv5 sha1 name =
     (let ns = case_option (replicate 16 0) id (parseCanonical Namespace) in
      format_uuid (set_version 0x50 (take 16 (sha1 (ns @ go_bytes name)))))"

definition LegacySOSID :: "(bytes \<Rightarrow> bytes) \<Rightarrow> string \<Rightarrow> int \<Rightarrow> string" where
  "LegacySOSID sha1 bridgeID runStartMs = UUIDv5 sha1 (bridgeID @ '':'' @ Itoa runStartMs)"

definition IDValid :: "(bytes \<Rightarrow> bytes) \<Rightarrow> string \<Rightarrow> string \<Rightarrow> IDContext \<Rightarrow> bool" where
  "IDValid sha1 s field c =
     (case parseCanonical s of
        None \<Rightarrow> False
      | Some b \<Rightarrow>
          if drop_bit 6 (b ! 8) \<noteq> 2 then False
          else if drop_bit 4 (b ! 6) = 7 then
            (if field = ''sos_id'' then ic_RunStartMs c \<ge> 0 \<and> TimeOfV7 b = ic_RunStartMs c else True)
          else if drop_bit 4 (b ! 6) = 5 then
            (if field = ''mid'' \<and> ic_Sender c = ''hub'' \<and> ic_Name c \<noteq> [] then UUIDv5 sha1 (ic_Name c) = s
             else if field = ''sos_id'' \<and> ic_BridgeID c \<noteq> [] \<and> ic_RunStartMs c \<ge> 0 then
               UUIDv5 sha1 (ic_BridgeID c @ '':'' @ Itoa (ic_RunStartMs c)) = s
             else False)
          else False)"

definition SOSIDValid :: "(bytes \<Rightarrow> bytes) \<Rightarrow> string \<Rightarrow> string \<Rightarrow> int \<Rightarrow> bool" where
  "SOSIDValid sha1 sosID bridgeID runStartMs =
     IDValid sha1 sosID ''sos_id'' \<lparr>ic_Sender = [], ic_Name = [], ic_BridgeID = bridgeID, ic_RunStartMs = runStartMs\<rparr>"

text \<open>The random bytes are the argument; a failing source is a panic.\<close>

datatype hub_panic = NoRandomness

definition NewV7 :: "bytes option \<Rightarrow> instant \<Rightarrow> hub_panic + string" where
  "NewV7 rnd now =
     (case rnd of
        None \<Rightarrow> Inl NoRandomness
      | Some r \<Rightarrow>
          let ms = be64 (word_of_int (max (UnixMilli now) 0))
          in Inr (format_uuid (set_version 0x70 (slice 2 8 ms @ take 10 r))))"

definition NewSOSID :: "bytes option \<Rightarrow> int \<Rightarrow> hub_panic + string" where
  "NewSOSID rnd runStartMs = NewV7 rnd (runStartMs * 1000000)"

subsection \<open>The content digest (digest.go)\<close>

definition ContentTag :: string where
  "ContentTag = ''meshsat.content/1''"

datatype digest_error = BadMid | NegativeExpiry | FieldTooLong

fun preimage_fields :: "bytes list \<Rightarrow> digest_error + bytes" where
  "preimage_fields [] = Inr []"
| "preimage_fields (f # fs) =
     (if length f > 4294967295 then Inl FieldTooLong
      else case preimage_fields fs of
        Inl e \<Rightarrow> Inl e
      | Inr out \<Rightarrow> Inr (be32 (word_of_nat (length f)) @ f @ out))"

definition ContentPreimage :: "string \<Rightarrow> string \<Rightarrow> string \<Rightarrow> int \<Rightarrow> string \<Rightarrow> digest_error + bytes" where
  "ContentPreimage mid recipient contentType midExpiresAt body =
     (case parseCanonical mid of
        None \<Rightarrow> Inl BadMid
      | Some m \<Rightarrow>
          if midExpiresAt < 0 then Inl NegativeExpiry
          else preimage_fields [go_bytes ContentTag, m, go_bytes recipient, go_bytes contentType,
                 be64 (word_of_int midExpiresAt), go_bytes body])"

definition ContentSHA256 :: "(bytes \<Rightarrow> bytes) \<Rightarrow> string \<Rightarrow> string \<Rightarrow> string \<Rightarrow> int \<Rightarrow> string \<Rightarrow> digest_error + string" where
  "ContentSHA256 sha256 mid recipient contentType midExpiresAt body =
     (case ContentPreimage mid recipient contentType midExpiresAt body of
        Inl e \<Rightarrow> Inl e
      | Inr p \<Rightarrow> Inr (go_string (hashHex (sha256 p))))"

subsection \<open>The wire forms (wire.go)\<close>

definition ContentTypeText :: string where
  "ContentTypeText = ''text/plain;charset=utf-8''"

definition MaxBody :: nat where
  "MaxBody = 16 * 1024"

record Submission =
  sb_V :: int
  sb_OpID :: string
  sb_Mid :: string
  sb_To :: string
  sb_ContentType :: string
  sb_MidExpiresAt :: int
  sb_ExpiresAt :: int
  sb_ContentSHA256 :: string
  sb_Body :: string

definition NewSubmission :: "(bytes \<Rightarrow> bytes) \<Rightarrow> string \<Rightarrow> string \<Rightarrow> string \<Rightarrow> string \<Rightarrow> int \<Rightarrow> int \<Rightarrow> digest_error + Submission" where
  "NewSubmission sha256 opID mid to body midExpiresAt expiresAt =
     (case ContentSHA256 sha256 mid to ContentTypeText midExpiresAt body of
        Inl e \<Rightarrow> Inl e
      | Inr d \<Rightarrow> Inr \<lparr>sb_V = 1, sb_OpID = opID, sb_Mid = mid, sb_To = to, sb_ContentType = ContentTypeText,
                   sb_MidExpiresAt = midExpiresAt, sb_ExpiresAt = expiresAt, sb_ContentSHA256 = d, sb_Body = body\<rparr>)"

record Delivery =
  dl_V :: int
  dl_OpID :: string
  dl_Mid :: string
  dl_From :: string
  dl_To :: string
  dl_ContentType :: string
  dl_MidExpiresAt :: int
  dl_ExpiresAt :: int
  dl_ContentSHA256 :: string
  dl_Body :: string

record Ack =
  ak_V :: int
  ak_OpID :: string
  ak_Mid :: string
  ak_From :: string
  ak_Result :: string
  ak_Reason :: string

definition Principal :: "string \<Rightarrow> string" where
  "Principal bridgeID = ''bridge:'' @ bridgeID"

definition BridgeOf :: "string \<Rightarrow> string" where
  "BridgeOf p =
     (if take 7 p \<noteq> ''bridge:'' then []
      else let i = drop 7 p in
        if i = [] \<or> (\<exists>c\<in>set i. c = CHR ''/'' \<or> c = CHR ''+'' \<or> c = CHR ''#'') then [] else i)"

section \<open>Parsing and printing UUIDs\<close>

lemma go_bytes_go_string [simp]: "go_bytes (go_string b) = b"
proof -
  have "word_of_nat (of_char (char_of (unat w) :: char)) = w" for w :: byte
    using unat_byte_lt[of w] by (simp add: of_char_of)
  then show ?thesis by (simp add: go_bytes_def go_string_def o_def)
qed

lemma go_string_go_bytes [simp]: "go_string (go_bytes s) = s"
proof -
  have "char_of (unat (word_of_nat (of_char c) :: byte)) = c" for c :: char
  proof -
    have "(of_char c :: nat) < 256" by (rule nat_of_char_less_256) 
    then have "unat (word_of_nat (of_char c) :: byte) = of_char c" by (simp add: unat_of_nat)
    then show ?thesis by simp
  qed
  then show ?thesis by (simp add: go_bytes_def go_string_def o_def)
qed

lemma length_go_bytes [simp]: "length (go_bytes s) = length s"
  by (simp add: go_bytes_def)

lemma length_go_string [simp]: "length (go_string s) = length s"
  by (simp add: go_string_def)

lemma go_bytes_inj: "go_bytes s = go_bytes t \<longleftrightarrow> s = t"
  by (metis go_string_go_bytes)

lemma go_bytes_append: "go_bytes (s @ t) = go_bytes s @ go_bytes t"
  by (simp add: go_bytes_def)

lemma lowercase_hex_digit: "list_all (\<lambda>c. let w = word_of_nat c :: byte in
    unhex w = 0xFF \<or> 65 \<le> c \<and> c \<le> 90 \<or> unat (unhex w) < 16 \<and> hextable ! unat (unhex w) = w) [0..<256]"
  by code_simp

lemma unhex_lower:
  assumes "unhex w \<noteq> 0xFF" and "\<not> (65 \<le> unat w \<and> unat w \<le> 90)"
  shows "unat (unhex w) < 16" "hextable ! unat (unhex w) = w"
proof -
  have "unat w \<in> set [0..<256]" using unat_byte_lt[of w] by simp
  then have "let w' = word_of_nat (unat w) :: byte in
    unhex w' = 0xFF \<or> 65 \<le> unat w \<and> unat w \<le> 90 \<or> unat (unhex w') < 16 \<and> hextable ! unat (unhex w') = w'"
    using lowercase_hex_digit unfolding list_all_iff by blast
  then have "unat (unhex w) < 16 \<and> hextable ! unat (unhex w) = w" using assms by (simp add: Let_def)
  then show "unat (unhex w) < 16" "hextable ! unat (unhex w) = w" by simp_all
qed

lemma nibble_pair:
  assumes "unat (h :: byte) < 16" "unat (l :: byte) < 16"
  shows "drop_bit 4 (push_bit 4 h OR l) = h" "(push_bit 4 h OR l) AND 0x0F = l"
proof -
  have h: "bit h n \<Longrightarrow> n < 4" and l: "bit l n \<Longrightarrow> n < 4" for n
    using assms small_bit[of h 4 n] small_bit[of l 4 n] by (force)+
  show "drop_bit 4 (push_bit 4 h OR l) = h"
    using h l by (intro bit_word_eqI) (auto simp: bit_or_iff bit_push_bit_iff bit_drop_bit_eq)
  have m: "bit (0x0F :: byte) n \<longleftrightarrow> n < 4" for n
    using bit_mask_iff[of 4 n, where 'a = byte] by (auto simp: mask_eq_exp_minus_1)
  show "(push_bit 4 h OR l) AND 0x0F = l"
    unfolding bit_eq_iff bit_and_iff bit_or_iff bit_push_bit_iff m using l by auto
qed

lemma hashHex_hex_loop:
  "hex_loop s = Inr b \<Longrightarrow> even (length s) \<Longrightarrow> \<forall>w\<in>set s. \<not> (65 \<le> unat w \<and> unat w \<le> 90) \<Longrightarrow> hashHex b = s"
proof (induction s arbitrary: b rule: hex_loop.induct)
  case (1 h l s)
  from "1.prems"(1) obtain b' where b': "hex_loop s = Inr b'" and b: "b = (push_bit 4 (unhex h) OR unhex l) # b'"
    and ne: "unhex h \<noteq> 0xFF" "unhex l \<noteq> 0xFF"
    by (auto simp: Let_def split: if_splits sum.splits)
  from "1.IH"[OF refl refl _ b'] "1.prems" ne have tl: "hashHex b' = s" by simp
  have "\<not> (65 \<le> unat h \<and> unat h \<le> 90)" "\<not> (65 \<le> unat l \<and> unat l \<le> 90)" using "1.prems"(3) by auto
  note u = unhex_lower[OF ne(1) this(1)] unhex_lower[OF ne(2) this(2)]
  show ?case using tl nibble_pair[OF u(1) u(3)] u(2,4) by (simp add: b hashHex_def)
qed (auto simp: hashHex_def)

lemma hextable_lower: "list_all (\<lambda>w. \<not> (65 \<le> unat w \<and> unat w \<le> 90)) hextable"
  by code_simp

lemma hashHex_lower: "w \<in> set (hashHex b) \<Longrightarrow> \<not> (65 \<le> unat w \<and> unat w \<le> 90)"
proof -
  assume "w \<in> set (hashHex b)"
  moreover have "length hextable = 16" by (simp add: hextable_def)
  ultimately have "w \<in> set hextable"
    using nibbles(1,2) by (fastforce simp: hashHex_def)
  then show ?thesis using hextable_lower by (simp add: list_all_iff)
qed

lemma lower_char_fix: "lower_char c = c \<longleftrightarrow> \<not> (65 \<le> (of_char c :: nat) \<and> (of_char c :: nat) \<le> 90)"
proof -
  have "char_of (of_char c + 32 :: nat) \<noteq> c" if "(of_char c :: nat) \<le> 90"
  proof
    assume "char_of (of_char c + 32 :: nat) = c"
    then have "of_char (char_of (of_char c + 32 :: nat) :: char) = (of_char c :: nat)" by (rule arg_cong)
    with that show False by (simp add: of_char_of)
  qed
  then show ?thesis by (auto simp: lower_char_def)
qed

lemma unat_go_bytes: "unat (word_of_nat (of_char c) :: byte) = of_char c"
  using nat_of_char_less_256[of c] by (simp add: unat_of_nat)

lemma lower_iff: "map lower_char s = s \<longleftrightarrow> (\<forall>w\<in>set (go_bytes s). \<not> (65 \<le> unat w \<and> unat w \<le> 90))"
  by (induction s) (auto simp: go_bytes_def lower_char_fix unat_go_bytes)

text \<open>The canonical text with its hyphens, and the text without them.\<close>

definition hyphenate :: "string \<Rightarrow> string" where
  "hyphenate h = slice 0 8 h @ ''-'' @ slice 8 12 h @ ''-'' @ slice 12 16 h @ ''-'' @ slice 16 20 h @ ''-'' @ slice 20 32 h"

lemma unhyphenate:
  assumes "length s = 36" "s ! 8 = CHR ''-''" "s ! 13 = CHR ''-''" "s ! 18 = CHR ''-''" "s ! 23 = CHR ''-''"
  shows "hyphenate (slice 0 8 s @ slice 9 13 s @ slice 14 18 s @ slice 19 23 s @ slice 24 36 s) = s" (is "hyphenate ?h = s")
proof -
  from assms(1) obtain a0 a1 a2 a3 a4 a5 a6 a7 r where s: "s = a0#a1#a2#a3#a4#a5#a6#a7#r" and r: "length r = 28"
    by (auto simp: length_Suc_conv numeral_eq_Suc)
  from r obtain b0 b1 b2 b3 b4 b5 b6 b7 b8 b9 r2 where r': "r = b0#b1#b2#b3#b4#b5#b6#b7#b8#b9#r2" and r2: "length r2 = 18"
    by (auto simp: length_Suc_conv numeral_eq_Suc)
  from r2 obtain c0 c1 c2 c3 c4 c5 r3 where r2': "r2 = c0#c1#c2#c3#c4#c5#r3" and r3: "length r3 = 12"
    by (auto simp: length_Suc_conv numeral_eq_Suc)
  show ?thesis using assms(2-5) r3 unfolding s r' r2' by (simp add: hyphenate_def slice_def)
qed

lemma hyphenate_parts:
  assumes "length h = 32"
  defines "s \<equiv> hyphenate h"
  shows "length s = 36" "s ! 8 = CHR ''-''" "s ! 13 = CHR ''-''" "s ! 18 = CHR ''-''" "s ! 23 = CHR ''-''"
    "slice 0 8 s @ slice 9 13 s @ slice 14 18 s @ slice 19 23 s @ slice 24 36 s = h"
proof -
  from assms(1) obtain a0 a1 a2 a3 a4 a5 a6 a7 r where h: "h = a0#a1#a2#a3#a4#a5#a6#a7#r" and r: "length r = 24"
    by (auto simp: length_Suc_conv numeral_eq_Suc)
  from r obtain b0 b1 b2 b3 b4 b5 b6 b7 r2 where r': "r = b0#b1#b2#b3#b4#b5#b6#b7#r2" and r2: "length r2 = 16"
    by (auto simp: length_Suc_conv numeral_eq_Suc)
  from r2 obtain c0 c1 c2 c3 r3 where r2': "r2 = c0#c1#c2#c3#r3" and r3: "length r3 = 12"
    by (auto simp: length_Suc_conv numeral_eq_Suc)
  show "length s = 36" "s ! 8 = CHR ''-''" "s ! 13 = CHR ''-''" "s ! 18 = CHR ''-''" "s ! 23 = CHR ''-''"
    "slice 0 8 s @ slice 9 13 s @ slice 14 18 s @ slice 19 23 s @ slice 24 36 s = h"
    using r3 unfolding s_def h r' r2' by (simp_all add: hyphenate_def slice_def)
qed

lemma format_uuid_hyphenate: "format_uuid b = hyphenate (go_string (hashHex b))"
  by (simp add: format_uuid_def hyphenate_def Let_def)

lemma parse_format:
  assumes "length b = 16"
  shows "parseCanonical (format_uuid b) = Some b"
proof -
  have l: "length (go_string (hashHex b)) = 32" using assms by (simp add: length_hashHex)
  note p = hyphenate_parts[OF l]
  have "map lower_char (go_string (hashHex b)) = go_string (hashHex b)"
    unfolding lower_iff using hashHex_lower by simp
  then show ?thesis unfolding parseCanonical_def format_uuid_hyphenate p(6) Let_def
    by (simp add: p(1-5) hexDecode_hashHex)
qed

lemma parse_Some:
  assumes "parseCanonical s = Some b"
  shows "length b = 16" "format_uuid b = s"
proof -
  define hexs where "hexs = slice 0 8 s @ slice 9 13 s @ slice 14 18 s @ slice 19 23 s @ slice 24 36 s"
  from assms have s: "length s = 36" "s ! 8 = CHR ''-''" "s ! 13 = CHR ''-''" "s ! 18 = CHR ''-''" "s ! 23 = CHR ''-''"
    and low: "map lower_char hexs = hexs" and dec: "hexDecode (go_bytes hexs) = Inr b"
    by (auto simp: parseCanonical_def Let_def hexs_def[symmetric] split: if_splits sum.splits)
  have lh: "length hexs = 32" using s(1) by (simp add: hexs_def)
  have "hashHex b = go_bytes hexs"
    using dec low lh by (intro hashHex_hex_loop) (auto simp: hexDecode_def lower_iff split: if_splits)
  then have h: "go_string (hashHex b) = hexs" by simp
  show "length b = 16" using arg_cong[OF h, of length] lh by (simp add: length_hashHex)
  show "format_uuid b = s" unfolding format_uuid_hyphenate h using unhyphenate[OF s] by (simp add: hexs_def)
qed

lemma parse_iff: "parseCanonical s = Some b \<longleftrightarrow> length b = 16 \<and> format_uuid b = s"
  using parse_Some parse_format by blast

section \<open>The ids the bridge makes\<close>

lemma version_bytes: "list_all (\<lambda>i. let x = word_of_nat i :: byte in drop_bit 6 (0x80 OR (x AND 0x3F)) = 2 \<and>
    drop_bit 4 (0x70 OR (x AND 0x0F)) = 7 \<and> drop_bit 4 (0x50 OR (x AND 0x0F)) = 5) [0..<256]"
  by code_simp

lemma version_byte: "drop_bit 6 (0x80 OR (x AND 0x3F)) = (2 :: byte)" "drop_bit 4 (0x70 OR (x AND 0x0F)) = (7 :: byte)"
  "drop_bit 4 (0x50 OR (x AND 0x0F)) = (5 :: byte)"
proof -
  have "unat x \<in> set [0..<256]" using unat_byte_lt[of x] by simp
  then have "let y = word_of_nat (unat x) :: byte in drop_bit 6 (0x80 OR (y AND 0x3F)) = 2 \<and>
    drop_bit 4 (0x70 OR (y AND 0x0F)) = 7 \<and> drop_bit 4 (0x50 OR (y AND 0x0F)) = 5"
    using version_bytes unfolding list_all_iff by blast
  then show "drop_bit 6 (0x80 OR (x AND 0x3F)) = (2 :: byte)" "drop_bit 4 (0x70 OR (x AND 0x0F)) = (7 :: byte)"
    "drop_bit 4 (0x50 OR (x AND 0x0F)) = (5 :: byte)" by (simp_all only: Let_def of_nat_nibble)
qed

lemma set_version_parts:
  assumes "length b = 16"
  shows "length (set_version v b) = 16" "set_version v b ! 6 = v OR (b ! 6 AND 0x0F)" "set_version v b ! 8 = 0x80 OR (b ! 8 AND 0x3F)"
    "take 6 (set_version v b) = take 6 b"
  using assms by (simp_all add: set_version_def)

lemma be64_inj: "be64 v = be64 w \<longleftrightarrow> v = w"
  by (metis un_be_be64)

lemma be64_small:
  assumes "unat w < 2 ^ 48"
  shows "[0, 0] @ slice 2 8 (be64 w) = be64 w"
proof -
  have "drop_bit 48 w = 0" "drop_bit 56 w = 0"
    using assms by (simp_all add: drop_bit_eq_div word_eq_iff_unsigned unat_div unsigned_eq_0_iff word_unat_eq_iff)
  then show ?thesis by (simp add: be64_def upt_rec slice_def)
qed

lemma sint_small:
  assumes "0 \<le> m" "m < 2 ^ 48"
  shows "unat (word_of_int m :: u64) < 2 ^ 48" "sint (word_of_int m :: u64) = m"
proof -
  have "m < 2 ^ 63" "m < 2 ^ 64" using assms(2) by simp_all
  then show "sint (word_of_int m :: u64) = m" using assms(1) by (simp add: signed_of_int signed_take_bit_int_eq_self)
  have "uint (word_of_int m :: u64) = m" using assms(1) \<open>m < 2 ^ 64\<close> by (simp add: unsigned_of_int take_bit_int_eq_self)
  then show "unat (word_of_int m :: u64) < 2 ^ 48" using assms by (simp add: unat_eq_nat_uint)
qed

text \<open>The bytes of a version 7 id made from the given randomness at the given time.\<close>

definition v7_bytes :: "bytes \<Rightarrow> instant \<Rightarrow> bytes" where
  "v7_bytes r now = set_version 0x70 (slice 2 8 (be64 (word_of_int (max (UnixMilli now) 0))) @ take 10 r)"

lemma NewV7_bytes: "NewV7 (Some r) now = Inr (format_uuid (v7_bytes r now))"
  by (simp add: NewV7_def v7_bytes_def Let_def)

lemma v7_bytes_parts:
  assumes "length r = 10"
  shows "length (v7_bytes r now) = 16" "drop_bit 6 (v7_bytes r now ! 8) = 2" "drop_bit 4 (v7_bytes r now ! 6) = 7"
    "0 \<le> UnixMilli now \<Longrightarrow> UnixMilli now < 2 ^ 48 \<Longrightarrow> TimeOfV7 (v7_bytes r now) = UnixMilli now"
proof -
  define b where "b = slice 2 8 (be64 (word_of_int (max (UnixMilli now) 0))) @ take 10 r"
  have l: "length b = 16" using assms by (simp add: b_def)
  note p = set_version_parts[OF l]
  have v: "v7_bytes r now = set_version 0x70 b" by (simp add: v7_bytes_def b_def)
  show "length (v7_bytes r now) = 16" "drop_bit 6 (v7_bytes r now ! 8) = 2" "drop_bit 4 (v7_bytes r now ! 6) = 7"
    by (simp_all only: v p version_byte)
  assume m: "0 \<le> UnixMilli now" "UnixMilli now < 2 ^ 48"
  have "take 6 b = slice 2 8 (be64 (word_of_int (UnixMilli now)))" using m(1) by (simp add: b_def max_def)
  then have "[0, 0] @ take 6 (v7_bytes r now) = be64 (word_of_int (UnixMilli now))"
    unfolding v p(4) by (simp only: be64_small[OF sint_small(1)[OF m]])
  then show "TimeOfV7 (v7_bytes r now) = UnixMilli now"
    unfolding TimeOfV7_def by (simp only: un_be_be64 sint_small(2)[OF m])
qed

lemma ValidV7_v7:
  "length r = 10 \<Longrightarrow> ValidV7 (format_uuid (v7_bytes r now))"
  by (simp only: ValidV7_def parse_format v7_bytes_parts option.case simp_thms)

lemma UUIDv5_bytes:
  assumes "\<And>x. length (sha1 x) = 20"
  obtains b where "length b = 16" "UUIDv5 sha1 name = format_uuid b" "drop_bit 6 (b ! 8) = 2" "drop_bit 4 (b ! 6) = 5"
proof -
  define h where "h = take 16 (sha1 (case_option (replicate 16 0) id (parseCanonical Namespace) @ go_bytes name))"
  have l: "length h = 16" using assms by (simp add: h_def)
  note p = set_version_parts[OF l, of "0x50"]
  have "UUIDv5 sha1 name = format_uuid (set_version 0x50 h)" by (simp add: UUIDv5_def h_def Let_def)
  moreover have "drop_bit 6 (set_version 0x50 h ! 8) = 2" "drop_bit 4 (set_version 0x50 h ! 6) = 5"
    by (simp_all only: p version_byte)
  ultimately show thesis using that p(1) by blast
qed

lemma SOSIDValid_7:
  assumes "parseCanonical s = Some b" "drop_bit 6 (b ! 8) = 2" "drop_bit 4 (b ! 6) = 7"
  shows "SOSIDValid sha1 s bridge ms \<longleftrightarrow> 0 \<le> ms \<and> TimeOfV7 b = ms"
  unfolding SOSIDValid_def IDValid_def assms(1) option.case assms(2,3) by simp

lemma SOSIDValid_5:
  assumes "parseCanonical s = Some b" "drop_bit 6 (b ! 8) = 2" "drop_bit 4 (b ! 6) = 5" "bridge \<noteq> []" "0 \<le> ms"
  shows "SOSIDValid sha1 s bridge ms \<longleftrightarrow> LegacySOSID sha1 bridge ms = s" "\<not> ValidV7 s"
  using assms(4,5) unfolding SOSIDValid_def IDValid_def ValidV7_def LegacySOSID_def assms(1) option.case assms(2,3) by simp_all

lemma SOSIDValid_v7:
  assumes "length r = 10" "0 \<le> ms" "ms < 2 ^ 48"
  shows "SOSIDValid sha1 (format_uuid (v7_bytes r (ms * 1000000))) bridge ms' \<longleftrightarrow> ms' = ms"
proof -
  note p = v7_bytes_parts[OF assms(1), of "ms * 1000000"]
  have "UnixMilli (ms * 1000000) = ms" by (simp add: UnixMilli_def)
  then have "TimeOfV7 (v7_bytes r (ms * 1000000)) = ms" using p(4) assms(2,3) by simp
  then show ?thesis using SOSIDValid_7[OF parse_format[OF p(1)] p(2,3)] assms(2) by auto
qed

lemma SOSIDValid_legacy:
  assumes "\<And>x. length (sha1 x) = 20" "bridge \<noteq> []" "0 \<le> ms"
  shows "SOSIDValid sha1 (LegacySOSID sha1 bridge ms) bridge ms" "\<not> ValidV7 (LegacySOSID sha1 bridge ms)"
proof -
  obtain b where b: "length b = 16" "UUIDv5 sha1 (bridge @ '':'' @ Itoa ms) = format_uuid b" "drop_bit 6 (b ! 8) = 2" "drop_bit 4 (b ! 6) = 5"
    by (rule UUIDv5_bytes[OF assms(1)])
  have "LegacySOSID sha1 bridge ms = format_uuid b" by (simp only: LegacySOSID_def b(2))
  then show "SOSIDValid sha1 (LegacySOSID sha1 bridge ms) bridge ms" "\<not> ValidV7 (LegacySOSID sha1 bridge ms)"
    using SOSIDValid_5[OF parse_format[OF b(1)] b(3,4) assms(2,3)] by simp_all
qed

text \<open>C35. Every id the bridge makes has the type its use demands. A new id is a canonical version 7 UUID whose
  first 48 bits are the time it was made. The id of an SOS run is accepted with that run's start and with
  no other, on every bearer; the id of a run in the old format is accepted with its bridge and start, and is
  never mistaken for a version 7 id. Parsing accepts exactly the canonical texts: what it accepts
  prints back to itself.\<close>

theorem hub_ids_well_typed:
  assumes "length r = 10" and "\<And>x. length (sha1 x) = 20"
  shows "(\<exists>s b. NewV7 (Some r) now = Inr s \<and> ValidV7 s \<and> parseCanonical s = Some b \<and>
      (0 \<le> UnixMilli now \<and> UnixMilli now < 2 ^ 48 \<longrightarrow> TimeOfV7 b = UnixMilli now)) \<and>
    (0 \<le> ms \<and> ms < 2 ^ 48 \<longrightarrow>
      (\<exists>s. NewSOSID (Some r) ms = Inr s \<and> (\<forall>bridge ms'. SOSIDValid sha1 s bridge ms' \<longleftrightarrow> ms' = ms))) \<and>
    (bridge \<noteq> [] \<and> 0 \<le> ms \<longrightarrow>
      SOSIDValid sha1 (LegacySOSID sha1 bridge ms) bridge ms \<and> \<not> ValidV7 (LegacySOSID sha1 bridge ms)) \<and>
    (parseCanonical s = Some b \<longleftrightarrow> length b = 16 \<and> format_uuid b = s)"
proof (intro conjI impI)
  show "\<exists>s b. NewV7 (Some r) now = Inr s \<and> ValidV7 s \<and> parseCanonical s = Some b \<and>
      (0 \<le> UnixMilli now \<and> UnixMilli now < 2 ^ 48 \<longrightarrow> TimeOfV7 b = UnixMilli now)"
    by (intro exI conjI, rule NewV7_bytes, rule ValidV7_v7[OF assms(1)], rule parse_format[OF v7_bytes_parts(1)[OF assms(1)]])
      (simp add: v7_bytes_parts(4)[OF assms(1)])
next
  assume "0 \<le> ms \<and> ms < 2 ^ 48"
  then have "\<forall>bridge ms'. SOSIDValid sha1 (format_uuid (v7_bytes r (ms * 1000000))) bridge ms' \<longleftrightarrow> ms' = ms"
    by (intro allI SOSIDValid_v7[OF assms(1)]) simp_all
  then show "\<exists>s. NewSOSID (Some r) ms = Inr s \<and> (\<forall>bridge ms'. SOSIDValid sha1 s bridge ms' \<longleftrightarrow> ms' = ms)"
    unfolding NewSOSID_def NewV7_bytes by blast
next
  assume "bridge \<noteq> [] \<and> 0 \<le> ms"
  then show "SOSIDValid sha1 (LegacySOSID sha1 bridge ms) bridge ms" "\<not> ValidV7 (LegacySOSID sha1 bridge ms)"
    using SOSIDValid_legacy[of sha1 bridge ms, OF assms(2)] by (elim conjE, simp)+
qed (rule parse_iff)

theorem hub_ids_well_typed_witness:
  "(\<exists>s b. NewV7 (Some (replicate 10 7)) 1700000000000000000 = Inr s \<and> ValidV7 s \<and> parseCanonical s = Some b \<and>
      TimeOfV7 b = 1700000000000) \<and>
   (\<exists>s. NewSOSID (Some (replicate 10 7)) 1700000000000 = Inr s \<and> SOSIDValid (\<lambda>_. replicate 20 1) s ''kit'' 1700000000000) \<and>
   SOSIDValid (\<lambda>_. replicate 20 1) (LegacySOSID (\<lambda>_. replicate 20 1) ''kit'' 1700000000000) ''kit'' 1700000000000"
  using hub_ids_well_typed[of "replicate 10 7" "\<lambda>_. replicate 20 1" 1700000000000000000 1700000000000 "''kit''" "[]" "[]"]
  by (simp add: UnixMilli_def) blast

section \<open>The digest determines the content\<close>

lemma be32_inj: "be32 v = be32 w \<longleftrightarrow> v = w"
  unfolding be32_def rev_is_rev_conv by (metis append_Nil2 un_le32_le32)

lemma preimage_fields_inj:
  "preimage_fields fs = Inr p \<Longrightarrow> preimage_fields gs = Inr p \<Longrightarrow> length fs = length gs \<Longrightarrow> fs = gs"
proof (induction fs arbitrary: gs p)
  case (Cons f fs)
  from Cons.prems(3) obtain g gs' where gs: "gs = g # gs'" by (cases gs) auto
  from Cons.prems(1) obtain p1 where p1: "preimage_fields fs = Inr p1" "p = be32 (word_of_nat (length f)) @ f @ p1" "length f \<le> 4294967295"
    by (auto split: if_splits sum.splits)
  from Cons.prems(2) gs obtain p2 where p2: "preimage_fields gs' = Inr p2" "p = be32 (word_of_nat (length g)) @ g @ p2" "length g \<le> 4294967295"
    by (auto split: if_splits sum.splits)
  from p1(2) p2(2) have "be32 (word_of_nat (length f)) = be32 (word_of_nat (length g))" and rest: "f @ p1 = g @ p2"
    by (simp_all add: append_eq_append_conv)
  then have "(word_of_nat (length f) :: u32) = word_of_nat (length g)" by (simp only: be32_inj)
  then have "length f = length g" using p1(3) p2(3) by (simp add: word_unat_eq_iff unsigned_of_nat take_bit_nat_eq_self)
  then have "f = g" "p1 = p2" using rest by (simp_all add: append_eq_append_conv)
  then show ?case using Cons.IH[OF p1(1)] p2(1) Cons.prems(3) gs by simp
qed simp

lemma ContentPreimage_inj:
  assumes "ContentPreimage m r c e b = Inr p" "ContentPreimage m' r' c' e' b' = Inr p" "e < 2 ^ 63" "e' < 2 ^ 63"
  shows "m = m'" "r = r'" "c = c'" "e = e'" "b = b'"
proof -
  define fields where "fields = (\<lambda>mb r c e b. [go_bytes ContentTag, mb, go_bytes r, go_bytes c, be64 (word_of_int e), go_bytes b])"
  from assms(1) obtain x where x: "parseCanonical m = Some x" "0 \<le> e" "preimage_fields (fields x r c e b) = Inr p"
    by (auto simp: ContentPreimage_def fields_def split: option.splits if_splits)
  from assms(2) obtain y where y: "parseCanonical m' = Some y" "0 \<le> e'" "preimage_fields (fields y r' c' e' b') = Inr p"
    by (auto simp: ContentPreimage_def fields_def split: option.splits if_splits)
  have "fields x r c e b = fields y r' c' e' b'" by (rule preimage_fields_inj[OF x(3) y(3)]) (simp add: fields_def)
  then have eq: "x = y" "r = r'" "c = c'" "(word_of_int e :: u64) = word_of_int e'" "b = b'"
    unfolding fields_def by (simp_all add: go_bytes_inj be64_inj)
  show "r = r'" "c = c'" "b = b'" using eq by simp_all
  show "m = m'" using parse_Some(2)[OF x(1)] parse_Some(2)[OF y(1)] eq(1) by simp
  have "e < 2 ^ 64" "e' < 2 ^ 64" using assms(3,4) by simp_all
  then show "e = e'" using eq(4) x(2) y(2) by (simp add: word_of_int_eq_iff take_bit_int_eq_self)
qed

text \<open>No two preimages of the digest hash alike: what is relied on of SHA-256.\<close>

definition collision_free :: "(bytes \<Rightarrow> bytes) \<Rightarrow> bool" where
  "collision_free sha \<longleftrightarrow> (\<forall>m r c e b p m' r' c' e' b' p'. ContentPreimage m r c e b = Inr p \<longrightarrow>
     ContentPreimage m' r' c' e' b' = Inr p' \<longrightarrow> sha p = sha p' \<longrightarrow> p = p')"

end
