(* ===== verification/HubInbox.thy ===== *)
theory HubInbox
  imports HubIds
begin

section \<open>The receiver's inbox of the Hub route\<close>

text \<open>
  What a delivery on the bridge's \<open>msg/in\<close> commits and answers: \<open>Commit\<close> (\<open>internal/hubmsg/inbox.go\<close>)
  over the interface \<open>InboxTx\<close>, its implementation on the tables \<open>hub_inbox\<close>, \<open>messages\<close> and
  \<open>hub_inbox_handoff\<close> (\<open>internal/database/hubmsg.go\<close>), and the receiving half of the route
  (\<open>internal/hubroute/route.go\<close>): \<open>HandleIn\<close>, \<open>HandOff\<close> and the pruning.
  The Go interface is a record of operations, a transaction that fails leaves the tables as they were, and SQL errors
  are values. \<open>inbox_step\<close> is the relation of what may happen to the tables: deliveries, pruning, hand-offs and
  the rest of the bridge storing and purging messages of its own. The locale \<open>inbox_tx\<close> is the contract \<open>Commit\<close> relies on.
\<close>

subsection \<open>The contract's data (inbox.go)\<close>

definition SkewMs :: int where
  "SkewMs = 120000"

definition RetentionAfterExpiryMs :: int where
  "RetentionAfterExpiryMs = 24 * 60 * 60 * 1000"

definition Capacity :: int where
  "Capacity = 50000"

record InboxEntry =
  ie_Origin :: string
  ie_OpID :: string
  ie_Mid :: string
  ie_Recipient :: string
  ie_ContentType :: string
  ie_MidExpiresAt :: int
  ie_ExpiresAt :: int
  ie_ContentSHA256 :: string
  ie_MessageID :: int
  ie_CommittedAt :: int
  ie_WithinSkew :: bool
  ie_Unjudged :: bool

text \<open>An SQL error: a violated constraint, or a failing database.\<close>

datatype db_error = Constraint | Failed

text \<open>The interface \<open>InboxTx\<close> on a transaction of type \<open>'tx\<close>; \<open>Insert\<close> also returns the entry it wrote, whose
  \<open>MessageID\<close> the code sets through the pointer.\<close>

record 'tx InboxTx =
  tx_ByOp :: "'tx \<Rightarrow> string \<Rightarrow> string \<Rightarrow> db_error + InboxEntry option"
  tx_ByMid :: "'tx \<Rightarrow> string \<Rightarrow> string \<Rightarrow> db_error + InboxEntry option"
  tx_Count :: "'tx \<Rightarrow> db_error + int"
  tx_PruneBefore :: "'tx \<Rightarrow> int \<Rightarrow> db_error + int \<times> 'tx"
  tx_Insert :: "'tx \<Rightarrow> InboxEntry \<Rightarrow> bool \<Rightarrow> string \<Rightarrow> db_error + InboxEntry \<times> 'tx"

record Answer =
  an_Result :: string
  an_Reason :: string
  an_StoredNow :: bool
  an_WithinSkew :: bool
  an_Unjudged :: bool
  an_MessageID :: int

definition refusedAnswer :: "string \<Rightarrow> Answer" where
  "refusedAnswer reason = \<lparr>an_Result = ''refused'', an_Reason = reason, an_StoredNow = False, an_WithinSkew = False,
     an_Unjudged = False, an_MessageID = 0\<rparr>"

definition storedAnswer :: "bool \<Rightarrow> bool \<Rightarrow> bool \<Rightarrow> int \<Rightarrow> Answer" where
  "storedAnswer now skew unjudged i = \<lparr>an_Result = ''stored'', an_Reason = [], an_StoredNow = now, an_WithinSkew = skew,
     an_Unjudged = unjudged, an_MessageID = i\<rparr>"

text \<open>Sums of \<open>int64\<close> wrap.\<close>

definition i64 :: "int \<Rightarrow> int" where
  "i64 x = signed_take_bit 63 x"

definition RetainedUntil :: "int \<Rightarrow> int" where
  "RetainedUntil expiresAt = i64 (expiresAt + SkewMs + RetentionAfterExpiryMs)"

subsection \<open>Deciding a delivery (Commit)\<close>

text \<open>The part of \<open>Commit\<close> after the deadline: make room, then insert.\<close>

definition commit_insert ::
    "'tx InboxTx \<Rightarrow> 'tx \<Rightarrow> InboxEntry \<Rightarrow> InboxEntry option \<Rightarrow> string \<Rightarrow> db_error + Answer \<times> 'tx" where
  "commit_insert I tx e kn body =
     (let store = (kn = None);
          e1 = (case kn of None \<Rightarrow> e | Some k \<Rightarrow> e\<lparr>ie_MessageID := ie_MessageID k\<rparr>) in
      case tx_Insert I tx e1 store body of
        Inl err \<Rightarrow> Inl err
      | Inr (e2, tx') \<Rightarrow> Inr (storedAnswer store (ie_WithinSkew e2) (ie_Unjudged e2) (ie_MessageID e2), tx'))"

definition commit_room ::
    "'tx InboxTx \<Rightarrow> 'tx \<Rightarrow> int \<Rightarrow> int \<Rightarrow> InboxEntry \<Rightarrow> InboxEntry option \<Rightarrow> string \<Rightarrow> db_error + Answer \<times> 'tx" where
  "commit_room I tx capacity nowMs e kn body =
     (case tx_Count I tx of
        Inl err \<Rightarrow> Inl err
      | Inr n \<Rightarrow>
          if n \<ge> capacity then
            (case tx_PruneBefore I tx nowMs of
               Inl err \<Rightarrow> Inl err
             | Inr (_, tx') \<Rightarrow>
                 (case tx_Count I tx' of
                    Inl err \<Rightarrow> Inl err
                  | Inr n' \<Rightarrow>
                      if n' \<ge> capacity then Inr (refusedAnswer ''receiver_busy'', tx')
                      else commit_insert I tx' e kn body))
          else commit_insert I tx e kn body)"

text \<open>The part of \<open>Commit\<close> from the new entry on: the deadline at commit.\<close>

definition new_entry :: "Delivery \<Rightarrow> int \<Rightarrow> InboxEntry" where
  "new_entry d nowMs = \<lparr>ie_Origin = dl_From d, ie_OpID = dl_OpID d, ie_Mid = dl_Mid d, ie_Recipient = dl_To d,
     ie_ContentType = dl_ContentType d, ie_MidExpiresAt = dl_MidExpiresAt d, ie_ExpiresAt = dl_ExpiresAt d,
     ie_ContentSHA256 = dl_ContentSHA256 d, ie_MessageID = 0, ie_CommittedAt = nowMs, ie_WithinSkew = False, ie_Unjudged = False\<rparr>"

definition commit_deadline ::
    "'tx InboxTx \<Rightarrow> 'tx \<Rightarrow> int \<Rightarrow> Delivery \<Rightarrow> int \<Rightarrow> bool \<Rightarrow> InboxEntry option \<Rightarrow> db_error + Answer \<times> 'tx" where
  "commit_deadline I tx capacity d nowMs clockEstablished kn =
     (let e = new_entry d nowMs in
      if \<not> clockEstablished then commit_room I tx capacity nowMs (e\<lparr>ie_Unjudged := True\<rparr>) kn (dl_Body d)
      else if nowMs > i64 (dl_ExpiresAt d + SkewMs) then Inr (refusedAnswer ''expired_at_recipient'', tx)
      else if nowMs > dl_ExpiresAt d then commit_room I tx capacity nowMs (e\<lparr>ie_WithinSkew := True\<rparr>) kn (dl_Body d)
      else commit_room I tx capacity nowMs e kn (dl_Body d))"

definition Commit ::
    "(bytes \<Rightarrow> bytes) \<Rightarrow> 'tx InboxTx \<Rightarrow> 'tx \<Rightarrow> Delivery \<Rightarrow> instant \<Rightarrow> bool \<Rightarrow> int \<Rightarrow> db_error + Answer \<times> 'tx" where
  "Commit sha256 I tx d now clockEstablished capacity0 =
     (let capacity = if capacity0 \<le> 0 then Capacity else capacity0 in
      if \<not> ValidV7 (dl_OpID d) \<or> \<not> ValidV7 (dl_Mid d) then Inr (refusedAnswer ''bad_id'', tx)
      else if ContentSHA256 sha256 (dl_Mid d) (dl_To d) (dl_ContentType d) (dl_MidExpiresAt d) (dl_Body d) \<noteq>
          Inr (dl_ContentSHA256 d) then Inr (refusedAnswer ''digest_mismatch'', tx)
      else if dl_ExpiresAt d > dl_MidExpiresAt d then Inr (refusedAnswer ''bad_expiry'', tx)
      else case tx_ByOp I tx (dl_From d) (dl_OpID d) of
        Inl err \<Rightarrow> Inl err
      | Inr (Some e) \<Rightarrow>
          if ie_Mid e = dl_Mid d \<and> ie_ContentSHA256 e = dl_ContentSHA256 d
          then Inr (storedAnswer False False False (ie_MessageID e), tx)
          else Inr (refusedAnswer ''op_conflict'', tx)
      | Inr None \<Rightarrow>
          (case tx_ByMid I tx (dl_From d) (dl_Mid d) of
             Inl err \<Rightarrow> Inl err
           | Inr kn \<Rightarrow>
               if (case kn of None \<Rightarrow> False | Some k \<Rightarrow> ie_ContentSHA256 k \<noteq> dl_ContentSHA256 d)
               then Inr (refusedAnswer ''mid_conflict'', tx)
               else commit_deadline I tx capacity d (UnixMilli now) clockEstablished kn))"

subsection \<open>The tables (internal/database)\<close>

text \<open>A row of \<open>messages\<close> with the columns the hand-off reads and those \<open>Insert\<close> does not set to a constant, and a row of
  \<open>hub_inbox_handoff\<close>. \<open>db_seq\<close> is the sequence of \<open>messages\<close> (\<open>AUTOINCREMENT\<close>): the largest id ever used.\<close>

record MessageRow =
  mr_ID :: int
  mr_FromNode :: string
  mr_ToNode :: string
  mr_DecodedText :: string
  mr_RxTime :: int
  mr_Transport :: string

record HandoffRow =
  hr_MessageID :: int
  hr_State :: string
  hr_CreatedAt :: int
  hr_DoneAt :: "int option"

record HubDB =
  db_messages :: "MessageRow list"
  db_seq :: int
  db_inbox :: "InboxEntry list"
  db_handoff :: "HandoffRow list"
  db_work :: "(string \<times> string) list"

definition HubTransport :: string where
  "HubTransport = ''hub''"

definition sql_ByOp :: "HubDB \<Rightarrow> string \<Rightarrow> string \<Rightarrow> InboxEntry option" where
  "sql_ByOp db origin opID = List.find (\<lambda>e. ie_Origin e = origin \<and> ie_OpID e = opID) (db_inbox db)"

definition sql_ByMid :: "HubDB \<Rightarrow> string \<Rightarrow> string \<Rightarrow> InboxEntry option" where
  "sql_ByMid db origin mid =
     (case sort_key ie_CommittedAt (filter (\<lambda>e. ie_Origin e = origin \<and> ie_Mid e = mid) (db_inbox db)) of
        [] \<Rightarrow> None | e # _ \<Rightarrow> Some e)"

text \<open>SQLite compares the sum without wrapping (an overflowing sum becomes a real).\<close>

definition pruneHubInbox :: "HubDB \<Rightarrow> int \<Rightarrow> int \<times> HubDB" where
  "pruneHubInbox db nowMs =
     (let gone = (\<lambda>e. ie_ExpiresAt e + (SkewMs + RetentionAfterExpiryMs) < nowMs) in
      (int (length (filter gone (db_inbox db))), db\<lparr>db_inbox := filter (\<lambda>e. \<not> gone e) (db_inbox db)\<rparr>))"

definition message_row :: "int \<Rightarrow> InboxEntry \<Rightarrow> string \<Rightarrow> MessageRow" where
  "message_row i e body = \<lparr>mr_ID = i, mr_FromNode = ie_Origin e, mr_ToNode = ie_Recipient e, mr_DecodedText = body,
     mr_RxTime = (if ie_CommittedAt e < 0 then - ((- ie_CommittedAt e) div 1000) else ie_CommittedAt e div 1000),
     mr_Transport = HubTransport\<rparr>"

definition handoff_row :: "int \<Rightarrow> int \<Rightarrow> HandoffRow" where
  "handoff_row i now = \<lparr>hr_MessageID = i, hr_State = ''pending'', hr_CreatedAt = now, hr_DoneAt = None\<rparr>"

definition sql_Insert :: "int \<Rightarrow> HubDB \<Rightarrow> InboxEntry \<Rightarrow> bool \<Rightarrow> string \<Rightarrow> db_error + InboxEntry \<times> HubDB" where
  "sql_Insert now db e store body =
     (let i = db_seq db + 1;
          e1 = if store then e\<lparr>ie_MessageID := i\<rparr> else e;
          db1 = if store then db\<lparr>db_messages := db_messages db @ [message_row i e body], db_seq := i,
                               db_handoff := db_handoff db @ [handoff_row i now]\<rparr> else db in
      if store \<and> i \<in> hr_MessageID ` set (db_handoff db) then Inl Constraint
      else if sql_ByOp db (ie_Origin e) (ie_OpID e) \<noteq> None then Inl Constraint
      else Inr (e1, db1\<lparr>db_inbox := db_inbox db1 @ [e1]\<rparr>))"

definition hubInboxTx :: "int \<Rightarrow> HubDB InboxTx" where
  "hubInboxTx now = \<lparr>tx_ByOp = (\<lambda>db o' i. Inr (sql_ByOp db o' i)), tx_ByMid = (\<lambda>db o' m. Inr (sql_ByMid db o' m)),
     tx_Count = (\<lambda>db. Inr (int (length (db_inbox db)))), tx_PruneBefore = (\<lambda>db n. Inr (pruneHubInbox db n)),
     tx_Insert = sql_Insert now\<rparr>"

text \<open>\<open>withTx\<close>: the changes of a transaction are there when it returns no error, and none of them otherwise. \<open>ok\<close> says whether the
  database carries it out.\<close>

definition withTx :: "bool \<Rightarrow> ('db \<Rightarrow> db_error + 'a \<times> 'db) \<Rightarrow> 'db \<Rightarrow> (db_error + 'a) \<times> 'db" where
  "withTx ok fn db = (if \<not> ok then (Inl Failed, db)
     else case fn db of Inl err \<Rightarrow> (Inl err, db) | Inr (a, db') \<Rightarrow> (Inr a, db'))"

definition CommitHubDelivery ::
    "(bytes \<Rightarrow> bytes) \<Rightarrow> bool \<Rightarrow> Delivery \<Rightarrow> instant \<Rightarrow> bool \<Rightarrow> int \<Rightarrow> HubDB \<Rightarrow> (db_error + Answer) \<times> HubDB" where
  "CommitHubDelivery sha256 ok d now clockEstablished capacity db =
     withTx ok (\<lambda>tx. Commit sha256 (hubInboxTx (UnixMilli now)) tx d now clockEstablished capacity) db"

definition PruneHubInbox :: "bool \<Rightarrow> instant \<Rightarrow> HubDB \<Rightarrow> (db_error + int) \<times> HubDB" where
  "PruneHubInbox ok now db = withTx ok (\<lambda>tx. Inr (pruneHubInbox tx (UnixMilli now))) db"

record HubHandoff =
  hh_MessageID :: int
  hh_From :: string
  hh_To :: string
  hh_Text :: string

definition PendingHubHandoffs :: "HubDB \<Rightarrow> int \<Rightarrow> HubHandoff list" where
  "PendingHubHandoffs db limit0 =
     (let limit = if limit0 \<le> 0 then 50 else limit0;
          rows = concat (map (\<lambda>h. map (\<lambda>m. \<lparr>hh_MessageID = hr_MessageID h, hh_From = mr_FromNode m, hh_To = mr_ToNode m,
                                              hh_Text = mr_DecodedText m\<rparr>)
                                  (filter (\<lambda>m. mr_ID m = hr_MessageID h) (db_messages db)))
                            (filter (\<lambda>h. hr_State h = ''pending'') (db_handoff db))) in
      take (nat limit) (sort_key hh_MessageID rows))"

definition HubHandoffOrigin :: "int \<Rightarrow> string" where
  "HubHandoffOrigin messageID = ''hub:'' @ Itoa messageID"

definition MarkHubHandoffDone :: "bool \<Rightarrow> int \<Rightarrow> instant \<Rightarrow> HubDB \<Rightarrow> (db_error + unit) \<times> HubDB" where
  "MarkHubHandoffDone ok messageID t =
     withTx ok (\<lambda>db. Inr ((), db\<lparr>db_handoff := map (\<lambda>h. if hr_MessageID h = messageID \<and> hr_State h = ''pending''
                                        then h\<lparr>hr_State := ''done'', hr_DoneAt := Some (UnixMilli t)\<rparr> else h) (db_handoff db),
                          db_work := filter (\<lambda>(origin, _). origin \<noteq> HubHandoffOrigin messageID) (db_work db)\<rparr>))"

subsection \<open>The receiving half of the route (hubroute/route.go)\<close>

text \<open>What the receiver uses of \<open>Route\<close>: this bridge's principal, the inbox's capacity, and whether the two callbacks are set.\<close>

record HubReceiver =
  hv_Principal :: string
  hv_Capacity :: int
  hv_handoff :: bool
  hv_stored :: bool

datatype hub_effect = PublishAck Ack | StoredNotify string string | Wake | HandedOff HubHandoff bool

definition HandleIn ::
    "(bytes \<Rightarrow> bytes) \<Rightarrow> (bytes \<Rightarrow> Delivery option) \<Rightarrow> HubReceiver \<Rightarrow> bool \<Rightarrow> instant \<Rightarrow> bool \<Rightarrow> bytes \<Rightarrow> HubDB
     \<Rightarrow> hub_effect list \<times> HubDB" where
  "HandleIn sha256 json r ok now established payload db =
     (case json payload of
        None \<Rightarrow> ([], db)
      | Some d \<Rightarrow>
          if dl_V d \<noteq> 1 then ([], db)
          else if dl_To d \<noteq> hv_Principal r \<or> BridgeOf (dl_From d) = [] then ([], db)
          else case CommitHubDelivery sha256 ok d now established (hv_Capacity r) db of
            (Inl _, db') \<Rightarrow> ([], db')
          | (Inr ans, db') \<Rightarrow>
              (PublishAck \<lparr>ak_V = 1, ak_OpID = dl_OpID d, ak_Mid = dl_Mid d, ak_From = dl_From d, ak_Result = an_Result ans,
                 ak_Reason = an_Reason ans\<rparr>
               # (if an_StoredNow ans then (if hv_stored r then [StoredNotify (dl_From d) (dl_Body d)] else []) @ [Wake] else []), db'))"

text \<open>The hand-off: \<open>fn\<close> is the callback, which sees and extends the list of work made so far and says whether it succeeded;
  \<open>mark\<close> says for which messages the database carries out the marking.\<close>

fun handoff_loop ::
    "(HubHandoff \<Rightarrow> (string \<times> string) list \<Rightarrow> bool \<times> (string \<times> string) list) \<Rightarrow> (int \<Rightarrow> bool) \<Rightarrow> instant
     \<Rightarrow> HubHandoff list \<Rightarrow> HubDB \<Rightarrow> hub_effect list \<times> HubDB" where
  "handoff_loop fn mark now [] db = ([], db)"
| "handoff_loop fn mark now (h # hs) db =
     (let (ok, work) = fn h (db_work db);
          db1 = db\<lparr>db_work := work\<rparr>;
          db2 = if ok then snd (MarkHubHandoffDone (mark (hh_MessageID h)) (hh_MessageID h) now db1) else db1;
          (es, db3) = handoff_loop fn mark now hs db2 in
      (HandedOff h ok # es, db3))"

definition HandOff ::
    "HubReceiver \<Rightarrow> (HubHandoff \<Rightarrow> (string \<times> string) list \<Rightarrow> bool \<times> (string \<times> string) list) \<Rightarrow> (int \<Rightarrow> bool) \<Rightarrow> instant
     \<Rightarrow> HubDB \<Rightarrow> hub_effect list \<times> HubDB" where
  "HandOff r fn mark now db = (if \<not> hv_handoff r then ([], db) else handoff_loop fn mark now (PendingHubHandoffs db 50) db)"

section \<open>What Commit relies on and what it keeps\<close>

definition retained :: "int \<Rightarrow> InboxEntry \<Rightarrow> bool" where
  "retained nowMs e \<longleftrightarrow> nowMs \<le> ie_ExpiresAt e + (SkewMs + RetentionAfterExpiryMs)"

text \<open>One operation per key, and one content and one stored message per \<open>(origin, mid)\<close>.\<close>

definition one_message :: "InboxEntry set \<Rightarrow> bool" where
  "one_message S \<longleftrightarrow> (\<forall>e\<in>S. \<forall>e'\<in>S. ie_Origin e = ie_Origin e' \<longrightarrow>
     (ie_OpID e = ie_OpID e' \<longrightarrow> e = e') \<and>
     (ie_Mid e = ie_Mid e' \<longrightarrow> ie_ContentSHA256 e = ie_ContentSHA256 e' \<and> ie_MessageID e = ie_MessageID e'))"

lemma one_message_insert:
  assumes "one_message T"
    "\<And>e'. e' \<in> T \<Longrightarrow> ie_Origin e' = ie_Origin e \<Longrightarrow> ie_OpID e' \<noteq> ie_OpID e"
    "\<And>e'. e' \<in> T \<Longrightarrow> ie_Origin e' = ie_Origin e \<Longrightarrow> ie_Mid e' = ie_Mid e \<Longrightarrow>
       ie_ContentSHA256 e' = ie_ContentSHA256 e \<and> ie_MessageID e' = ie_MessageID e"
  shows "one_message (insert e T)"
  unfolding one_message_def
proof (intro ballI impI)
  fix x y assume xy: "x \<in> insert e T" "y \<in> insert e T" and o: "ie_Origin x = ie_Origin y"
  from xy consider "x = e" "y = e" | "x = e" "y \<in> T" | "x \<in> T" "y = e" | "x \<in> T" "y \<in> T" by blast
  then show "(ie_OpID x = ie_OpID y \<longrightarrow> x = y) \<and>
      (ie_Mid x = ie_Mid y \<longrightarrow> ie_ContentSHA256 x = ie_ContentSHA256 y \<and> ie_MessageID x = ie_MessageID y)"
  proof cases
    case 2
    then show ?thesis using assms(2)[of y] assms(3)[of y] o by (metis (no_types, lifting))
  next
    case 3
    then show ?thesis using assms(2)[of x] assms(3)[of x] o by (metis (no_types, lifting))
  next
    case 4
    then show ?thesis using assms(1) o unfolding one_message_def by blast
  qed simp
qed

text \<open>The entry a delivery makes: its fields, and the verified digest.\<close>

definition entry_of :: "(bytes \<Rightarrow> bytes) \<Rightarrow> Delivery \<Rightarrow> InboxEntry \<Rightarrow> bool" where
  "entry_of sha256 d e \<longleftrightarrow> ie_Origin e = dl_From d \<and> ie_OpID e = dl_OpID d \<and> ie_Mid e = dl_Mid d \<and> ie_Recipient e = dl_To d \<and>
     ie_ContentType e = dl_ContentType d \<and> ie_MidExpiresAt e = dl_MidExpiresAt d \<and> ie_ExpiresAt e = dl_ExpiresAt d \<and>
     ie_ContentSHA256 e = dl_ContentSHA256 d \<and>
     ContentSHA256 sha256 (dl_Mid d) (dl_To d) (dl_ContentType d) (dl_MidExpiresAt d) (dl_Body d) = Inr (dl_ContentSHA256 d)"

locale inbox_tx =
  fixes I :: "'tx InboxTx" and entries :: "'tx \<Rightarrow> InboxEntry set" and ok :: "'tx \<Rightarrow> bool"
  assumes ByOp: "ok tx \<Longrightarrow> tx_ByOp I tx orig i = Inr r \<Longrightarrow>
      (case r of None \<Rightarrow> \<forall>e\<in>entries tx. \<not> (ie_Origin e = orig \<and> ie_OpID e = i)
               | Some e \<Rightarrow> e \<in> entries tx \<and> ie_Origin e = orig \<and> ie_OpID e = i)"
    and ByMid: "ok tx \<Longrightarrow> tx_ByMid I tx orig m = Inr r \<Longrightarrow>
      (case r of None \<Rightarrow> \<forall>e\<in>entries tx. \<not> (ie_Origin e = orig \<and> ie_Mid e = m)
               | Some e \<Rightarrow> e \<in> entries tx \<and> ie_Origin e = orig \<and> ie_Mid e = m)"
    and Count: "ok tx \<Longrightarrow> tx_Count I tx = Inr n \<Longrightarrow> finite (entries tx) \<and> n = int (card (entries tx))"
    and Prune: "ok tx \<Longrightarrow> tx_PruneBefore I tx nowMs = Inr (k, tx') \<Longrightarrow> ok tx' \<and> entries tx' = {e \<in> entries tx. retained nowMs e}"
    and Insert: "ok tx \<Longrightarrow> tx_Insert I tx e store body = Inr (e', tx') \<Longrightarrow> ok tx' \<and> entries tx' = insert e' (entries tx) \<and>
      (\<exists>i. e' = e\<lparr>ie_MessageID := i\<rparr> \<and> (\<not> store \<longrightarrow> i = ie_MessageID e))"
begin

lemma commit_insert_new:
  assumes "ok tx" "commit_insert I tx e kn body = Inr (ans, tx')"
  obtains e0 e' where "tx_Insert I tx e0 (kn = None) body = Inr (e', tx')" "ok tx'" "entries tx' = insert e' (entries tx)"
    "ans = storedAnswer (kn = None) (ie_WithinSkew e) (ie_Unjudged e) (ie_MessageID e')"
    "\<exists>i. e' = e\<lparr>ie_MessageID := i\<rparr>" "\<forall>k. kn = Some k \<longrightarrow> ie_MessageID e' = ie_MessageID k"
    "\<exists>i. e0 = e\<lparr>ie_MessageID := i\<rparr>"
proof -
  define e0 where "e0 = (case kn of None \<Rightarrow> e | Some k \<Rightarrow> e\<lparr>ie_MessageID := ie_MessageID k\<rparr>)"
  from assms(2) obtain e' where ins: "tx_Insert I tx e0 (kn = None) body = Inr (e', tx')"
    and ans: "ans = storedAnswer (kn = None) (ie_WithinSkew e') (ie_Unjudged e') (ie_MessageID e')"
    by (auto simp: commit_insert_def e0_def[symmetric] Let_def split: sum.splits prod.splits)
  note i = Insert[OF assms(1) ins]
  have e0: "\<exists>i. e0 = e\<lparr>ie_MessageID := i\<rparr>" by (cases kn) (auto simp: e0_def intro: exI[of _ "ie_MessageID e"])
  from i obtain j where j: "e' = e0\<lparr>ie_MessageID := j\<rparr>" "kn \<noteq> None \<longrightarrow> j = ie_MessageID e0" by auto
  from j e0 have "ie_WithinSkew e' = ie_WithinSkew e" "ie_Unjudged e' = ie_Unjudged e" "\<exists>i. e' = e\<lparr>ie_MessageID := i\<rparr>" by auto
  moreover have "kn = Some k \<Longrightarrow> ie_MessageID e' = ie_MessageID k" for k using j by (simp add: e0_def)
  ultimately show thesis using that[OF ins] i ans e0 by simp
qed

text \<open>Every outcome of \<open>commit_room\<close>: no room, or the new entry.\<close>

lemma commit_room_cases:
  assumes "ok tx" "commit_room I tx capacity nowMs e kn body = Inr (ans, tx')"
  obtains (busy) "ans = refusedAnswer ''receiver_busy''" "ok tx'" "entries tx' = {e \<in> entries tx. retained nowMs e}"
      "\<exists>k. tx_PruneBefore I tx nowMs = Inr (k, tx')"
  | (new) tx1 where "ok tx1" "tx1 = tx \<or> (\<exists>k. tx_PruneBefore I tx nowMs = Inr (k, tx1))"
      "commit_insert I tx1 e kn body = Inr (ans, tx')" "int (card (entries tx1)) < capacity"
proof -
  from assms(2) obtain n where n: "tx_Count I tx = Inr n" by (auto simp: commit_room_def split: sum.splits)
  show thesis
  proof (cases "n \<ge> capacity")
    case False
    with assms n have "commit_insert I tx e kn body = Inr (ans, tx')" by (simp add: commit_room_def)
    then show thesis using new[of tx] assms(1) Count[OF assms(1) n] False by simp
  next
    case True
    with assms(2) n obtain k tx1 n1 where t: "tx_PruneBefore I tx nowMs = Inr (k, tx1)" "tx_Count I tx1 = Inr n1"
      "(if n1 \<ge> capacity then Inr (refusedAnswer ''receiver_busy'', tx1) else commit_insert I tx1 e kn body) = Inr (ans, tx')"
      by (auto simp: commit_room_def split: sum.splits)
    note p = Prune[OF assms(1) t(1)]
    show thesis
    proof (cases "n1 \<ge> capacity")
      case True
      then show thesis using busy t p by auto
    next
      case False
      then show thesis using new[of tx1] t p Count[of tx1, OF _ t(2)] by auto
    qed
  qed
qed

lemma commit_deadline_split:
  assumes "commit_deadline I tx capacity d nowMs est kn = Inr (ans, tx')"
  obtains (late) "ans = refusedAnswer ''expired_at_recipient''" "tx' = tx"
  | (room) e where "commit_room I tx capacity nowMs e kn (dl_Body d) = Inr (ans, tx')"
      "e = new_entry d nowMs \<or> e = new_entry d nowMs\<lparr>ie_Unjudged := True\<rparr> \<or> e = new_entry d nowMs\<lparr>ie_WithinSkew := True\<rparr>"
proof -
  note C = assms[unfolded commit_deadline_def Let_def]
  consider "\<not> est" | "est" "nowMs > i64 (dl_ExpiresAt d + SkewMs)"
    | "est" "\<not> nowMs > i64 (dl_ExpiresAt d + SkewMs)" "nowMs > dl_ExpiresAt d"
    | "est" "\<not> nowMs > i64 (dl_ExpiresAt d + SkewMs)" "\<not> nowMs > dl_ExpiresAt d" by blast
  then show thesis
  proof cases
    case 1
    with C show thesis by (intro room[OF _ disjI2[OF disjI1[OF refl]]]) simp
  next
    case 2
    with C show thesis by (intro late) simp_all
  next
    case 3
    with C show thesis by (intro room[OF _ disjI2[OF disjI2[OF refl]]]) simp
  next
    case 4
    with C show thesis by (intro room[OF _ disjI1[OF refl]]) simp
  qed
qed

lemma Commit_split:
  assumes "Commit sha I tx d now est cap = Inr (ans, tx')"
  defines "capacity \<equiv> if cap \<le> 0 then Capacity else cap"
    and "digest_ok \<equiv> ContentSHA256 sha (dl_Mid d) (dl_To d) (dl_ContentType d) (dl_MidExpiresAt d) (dl_Body d) = Inr (dl_ContentSHA256 d)"
  obtains (r) reason where "ans = refusedAnswer reason" "tx' = tx"
  | (a) e where "digest_ok" "tx_ByOp I tx (dl_From d) (dl_OpID d) = Inr (Some e)" "ie_Mid e = dl_Mid d" "ie_ContentSHA256 e = dl_ContentSHA256 d"
      "ans = storedAnswer False False False (ie_MessageID e)" "tx' = tx"
  | (n) kn e where "digest_ok" "tx_ByOp I tx (dl_From d) (dl_OpID d) = Inr None" "tx_ByMid I tx (dl_From d) (dl_Mid d) = Inr kn"
      "\<forall>k. kn = Some k \<longrightarrow> ie_ContentSHA256 k = dl_ContentSHA256 d" "commit_room I tx capacity (UnixMilli now) e kn (dl_Body d) = Inr (ans, tx')"
      "e = new_entry d (UnixMilli now) \<or> e = new_entry d (UnixMilli now)\<lparr>ie_Unjudged := True\<rparr> \<or> e = new_entry d (UnixMilli now)\<lparr>ie_WithinSkew := True\<rparr>"
proof -
  note C = assms(1)[unfolded Commit_def Let_def capacity_def[symmetric] digest_ok_def[symmetric]]
  show thesis
  proof (cases "(ValidV7 (dl_OpID d) \<and> ValidV7 (dl_Mid d)) \<and> digest_ok \<and> dl_ExpiresAt d \<le> dl_MidExpiresAt d")
    case False
    then show thesis using C r by (auto split: if_splits)
  next
    case True
    then have g: "digest_ok" and C2: "(case tx_ByOp I tx (dl_From d) (dl_OpID d) of
        Inl err \<Rightarrow> Inl err
      | Inr (Some e) \<Rightarrow> if ie_Mid e = dl_Mid d \<and> ie_ContentSHA256 e = dl_ContentSHA256 d
          then Inr (storedAnswer False False False (ie_MessageID e), tx) else Inr (refusedAnswer ''op_conflict'', tx)
      | Inr None \<Rightarrow> (case tx_ByMid I tx (dl_From d) (dl_Mid d) of
             Inl err \<Rightarrow> Inl err
           | Inr kn \<Rightarrow> if (case kn of None \<Rightarrow> False | Some k \<Rightarrow> ie_ContentSHA256 k \<noteq> dl_ContentSHA256 d)
               then Inr (refusedAnswer ''mid_conflict'', tx) else commit_deadline I tx capacity d (UnixMilli now) est kn)) = Inr (ans, tx')"
      using C by simp_all
    then obtain r where r': "tx_ByOp I tx (dl_From d) (dl_OpID d) = Inr r" by (auto split: sum.splits)
    show thesis
    proof (cases r)
      case (Some e)
      then show thesis using C2 r' g a r by (auto split: if_splits)
    next
      case None
      with C2 r' obtain kn where kn: "tx_ByMid I tx (dl_From d) (dl_Mid d) = Inr kn" by (auto split: sum.splits)
      with None C2 r' consider "ans = refusedAnswer ''mid_conflict''" "tx' = tx"
        | "\<forall>k. kn = Some k \<longrightarrow> ie_ContentSHA256 k = dl_ContentSHA256 d" "commit_deadline I tx capacity d (UnixMilli now) est kn = Inr (ans, tx')"
        by (auto split: if_splits option.splits)
      then show thesis
      proof cases
        case 1
        then show thesis by (rule r)
      next
        case same: 2
        from same(2) show thesis
        proof (cases rule: commit_deadline_split)
          case late
          then show thesis by (rule r)
        next
          case (room e)
          show thesis by (rule n[OF g _ kn same(1) room(1,2)]) (simp add: r' None)
        qed
      qed
    qed
  qed
qed

text \<open>Every outcome of \<open>Commit\<close>.\<close>

lemma Commit_cases:
  assumes "ok tx" "Commit sha I tx d now est cap = Inr (ans, tx')"
  obtains (refused) reason where "ans = refusedAnswer reason" "ok tx'" "tx' = tx \<or> (\<exists>k. tx_PruneBefore I tx (UnixMilli now) = Inr (k, tx'))"
      "entries tx' = entries tx \<or> entries tx' = {e \<in> entries tx. retained (UnixMilli now) e}"
  | (again) e where "e \<in> entries tx" "ie_Origin e = dl_From d" "ie_OpID e = dl_OpID d" "ie_Mid e = dl_Mid d"
      "ie_ContentSHA256 e = dl_ContentSHA256 d" "ans = storedAnswer False False False (ie_MessageID e)" "tx' = tx"
      "ContentSHA256 sha (dl_Mid d) (dl_To d) (dl_ContentType d) (dl_MidExpiresAt d) (dl_Body d) = Inr (dl_ContentSHA256 d)"
  | (new) e e0 tx1 kn where "ok tx'" "tx1 = tx \<or> (\<exists>k. tx_PruneBefore I tx (UnixMilli now) = Inr (k, tx1))" "ok tx1"
      "tx_Insert I tx1 e0 (kn = None) (dl_Body d) = Inr (e, tx')" "entries tx' = insert e (entries tx1)" "entry_of sha d e" "entry_of sha d e0"
      "an_Result ans = ''stored''" "an_StoredNow ans \<longleftrightarrow> kn = None" "an_MessageID ans = ie_MessageID e"
      "\<forall>e'\<in>entries tx. \<not> (ie_Origin e' = dl_From d \<and> ie_OpID e' = dl_OpID d)"
      "case kn of None \<Rightarrow> \<forall>e'\<in>entries tx. \<not> (ie_Origin e' = dl_From d \<and> ie_Mid e' = dl_Mid d)
         | Some k \<Rightarrow> k \<in> entries tx \<and> ie_Origin k = dl_From d \<and> ie_Mid k = dl_Mid d \<and>
             ie_ContentSHA256 k = dl_ContentSHA256 d \<and> ie_MessageID e = ie_MessageID k"
      "int (card (entries tx1)) < (if cap \<le> 0 then Capacity else cap)"
proof -
  define capacity where "capacity = (if cap \<le> 0 then Capacity else cap)"
  define e00 where "e00 = new_entry d (UnixMilli now)"
  define digest_ok where "digest_ok \<longleftrightarrow>
    ContentSHA256 sha (dl_Mid d) (dl_To d) (dl_ContentType d) (dl_MidExpiresAt d) (dl_Body d) = Inr (dl_ContentSHA256 d)"
  from assms(2) consider (r) reason where "ans = refusedAnswer reason" "tx' = tx"
    | (a) e where "digest_ok" "tx_ByOp I tx (dl_From d) (dl_OpID d) = Inr (Some e)" "ie_Mid e = dl_Mid d" "ie_ContentSHA256 e = dl_ContentSHA256 d"
        "ans = storedAnswer False False False (ie_MessageID e)" "tx' = tx"
    | (n) kn e where "digest_ok" "tx_ByOp I tx (dl_From d) (dl_OpID d) = Inr None" "tx_ByMid I tx (dl_From d) (dl_Mid d) = Inr kn"
        "\<forall>k. kn = Some k \<longrightarrow> ie_ContentSHA256 k = dl_ContentSHA256 d" "commit_room I tx capacity (UnixMilli now) e kn (dl_Body d) = Inr (ans, tx')"
        "e = e00 \<or> e = e00\<lparr>ie_Unjudged := True\<rparr> \<or> e = e00\<lparr>ie_WithinSkew := True\<rparr>"
    unfolding capacity_def e00_def digest_ok_def by (rule Commit_split)
  then show thesis
  proof cases
    case r
    then show thesis using refused assms(1) by blast
  next
    case a
    then show thesis using again ByOp[OF assms(1) a(2)] by (auto simp: digest_ok_def)
  next
    case n
    have e: "entry_of sha d (e\<lparr>ie_MessageID := i\<rparr>)" for i using n(1,6) by (auto simp: entry_of_def e00_def new_entry_def digest_ok_def)
    from assms(1) n(5) show thesis
    proof (cases rule: commit_room_cases)
      case busy
      then show thesis using refused by blast
    next
      case (new tx1)
      obtain e' e0 where i: "tx_Insert I tx1 e0 (kn = None) (dl_Body d) = Inr (e', tx')" "ok tx'"
        "entries tx' = insert e' (entries tx1)" "ans = storedAnswer (kn = None) (ie_WithinSkew e) (ie_Unjudged e) (ie_MessageID e')"
        "\<exists>i. e' = e\<lparr>ie_MessageID := i\<rparr>" "\<forall>k. kn = Some k \<longrightarrow> ie_MessageID e' = ie_MessageID k" "\<exists>i. e0 = e\<lparr>ie_MessageID := i\<rparr>" by (rule commit_insert_new[OF new(1,3)])
      have eo: "entry_of sha d e'" "entry_of sha d e0" using i(5,7) e by auto
      have "an_Result ans = ''stored''" "an_StoredNow ans \<longleftrightarrow> kn = None" "an_MessageID ans = ie_MessageID e'"
        using i(4) by (auto simp: storedAnswer_def)
      moreover have "case kn of None \<Rightarrow> \<forall>e'\<in>entries tx. \<not> (ie_Origin e' = dl_From d \<and> ie_Mid e' = dl_Mid d)
         | Some k \<Rightarrow> k \<in> entries tx \<and> ie_Origin k = dl_From d \<and> ie_Mid k = dl_Mid d \<and>
             ie_ContentSHA256 k = dl_ContentSHA256 d \<and> ie_MessageID e' = ie_MessageID k"
        using ByMid[OF assms(1) n(3)] n(4) i(6) by (auto split: option.splits)
      moreover have "\<forall>e'\<in>entries tx. \<not> (ie_Origin e' = dl_From d \<and> ie_OpID e' = dl_OpID d)"
        using ByOp[OF assms(1) n(2)] by simp
      ultimately show thesis using that(3)[OF i(2) new(2,1) i(1,3) eo] new(4) by (simp add: capacity_def)
    qed
  qed
qed

lemma Commit_one_message:
  assumes "ok tx" "one_message (entries tx)" "Commit sha I tx d now est cap = Inr (ans, tx')"
  shows "ok tx'" "one_message (entries tx')"
proof -
  have sub: "T \<subseteq> entries tx \<Longrightarrow> one_message T" for T using assms(2) unfolding one_message_def by blast
  from assms(1,3) have "ok tx' \<and> one_message (entries tx')"
  proof (cases rule: Commit_cases)
    case (refused reason)
    from refused(4) have "entries tx' \<subseteq> entries tx" by blast
    then show ?thesis using sub refused(2) by blast
  next
    case (again e)
    then show ?thesis using assms(1,2) by simp
  next
    case (new e e0 tx1 kn)
    from new(2) Prune[OF assms(1)] have T: "entries tx1 \<subseteq> entries tx" by blast
    have e: "ie_Origin e = dl_From d" "ie_OpID e = dl_OpID d" "ie_Mid e = dl_Mid d" "ie_ContentSHA256 e = dl_ContentSHA256 d"
      using new(6) by (simp_all add: entry_of_def)
    have fresh: "ie_Origin e' = ie_Origin e \<Longrightarrow> ie_OpID e' \<noteq> ie_OpID e" if "e' \<in> entries tx1" for e'
      using new(11) T that unfolding e(1,2) by blast
    have same: "ie_ContentSHA256 e' = ie_ContentSHA256 e \<and> ie_MessageID e' = ie_MessageID e"
      if e': "e' \<in> entries tx1" "ie_Origin e' = ie_Origin e" "ie_Mid e' = ie_Mid e" for e'
    proof (cases kn)
      case None
      then have "\<forall>e'\<in>entries tx. \<not> (ie_Origin e' = dl_From d \<and> ie_Mid e' = dl_Mid d)" using new(12) by simp
      then show ?thesis using T e' unfolding e(1,3) by blast
    next
      case (Some k)
      then have k: "k \<in> entries tx" "ie_Origin k = ie_Origin e" "ie_Mid k = ie_Mid e" "ie_ContentSHA256 k = ie_ContentSHA256 e"
        "ie_MessageID e = ie_MessageID k" using new(12) e by simp_all
      have "ie_ContentSHA256 e' = ie_ContentSHA256 k \<and> ie_MessageID e' = ie_MessageID k"
        using assms(2)[unfolded one_message_def, rule_format, of e' k] subsetD[OF T e'(1)] e'(2,3) k(1-3) by simp
      then show ?thesis using k(4,5) by simp
    qed
    have "one_message (insert e (entries tx1))" by (rule one_message_insert[OF sub[OF T]], erule (1) fresh, erule (2) same)
    then show ?thesis using new(1,5) by simp
  qed
  then show "ok tx'" "one_message (entries tx')" by simp_all
qed

lemma Commit_keeps:
  assumes "ok tx" "Commit sha I tx d now est cap = Inr (ans, tx')" "e \<in> entries tx" "retained (UnixMilli now) e"
  shows "e \<in> entries tx'"
  using assms(1,2)
proof (cases rule: Commit_cases)
  case (new e' e0 tx1 kn)
  then show ?thesis using Prune[OF assms(1), of "UnixMilli now"] assms(3,4) by auto
qed (use assms in auto)

lemma Commit_capacity:
  assumes "ok tx" "Commit sha I tx d now est cap = Inr (ans, tx')" "finite (entries tx)"
    "int (card (entries tx)) \<le> c" "(if cap \<le> 0 then Capacity else cap) \<le> c"
  shows "finite (entries tx')" "int (card (entries tx')) \<le> c"
proof -
  from assms(1,2) have "finite (entries tx') \<and> int (card (entries tx')) \<le> c"
  proof (cases rule: Commit_cases)
    case (refused reason)
    then show ?thesis using assms(3,4) card_mono[OF assms(3), of "entries tx'"] by (auto intro: order_trans)
  next
    case (new e' e0 tx1 kn)
    then have "finite (entries tx1)" using Prune[OF assms(1)] assms(3) by auto
    then show ?thesis using new(5,13) assms(5) by (simp add: card_insert_if)
  qed (use assms in auto)
  then show "finite (entries tx')" "int (card (entries tx')) \<le> c" by simp_all
qed

text \<open>An acknowledgement names an entry of the answered operation, with the delivered content's digest.\<close>

lemma Commit_stored:
  assumes "ok tx" "Commit sha I tx d now est cap = Inr (ans, tx')" "an_Result ans = ''stored''"
  obtains e where "e \<in> entries tx'" "ie_Origin e = dl_From d" "ie_OpID e = dl_OpID d" "ie_Mid e = dl_Mid d"
    "ie_ContentSHA256 e = dl_ContentSHA256 d" "ie_MessageID e = an_MessageID ans"
    "ContentSHA256 sha (dl_Mid d) (dl_To d) (dl_ContentType d) (dl_MidExpiresAt d) (dl_Body d) = Inr (dl_ContentSHA256 d)"
  using assms(1,2)
proof (cases rule: Commit_cases)
  case (refused reason)
  then show thesis using assms(3) by (simp add: refusedAnswer_def)
next
  case (again e)
  then show thesis using that[of e] by (simp add: storedAnswer_def)
next
  case (new e e0 tx1 kn)
  then show thesis using that[of e] by (simp add: entry_of_def)
qed

text \<open>A committed operation delivered again is acknowledged again, whatever the time, and changes nothing.\<close>

lemma Commit_repeat:
  assumes "ok tx" "one_message (entries tx)" "e \<in> entries tx" "ie_Origin e = dl_From d" "ie_OpID e = dl_OpID d" "ie_Mid e = dl_Mid d"
    "ie_ContentSHA256 e = dl_ContentSHA256 d" "ValidV7 (dl_OpID d)" "ValidV7 (dl_Mid d)" "dl_ExpiresAt d \<le> dl_MidExpiresAt d"
    "ContentSHA256 sha (dl_Mid d) (dl_To d) (dl_ContentType d) (dl_MidExpiresAt d) (dl_Body d) = Inr (dl_ContentSHA256 d)"
    "tx_ByOp I tx (dl_From d) (dl_OpID d) = Inr r"
  shows "Commit sha I tx d now est cap = Inr (storedAnswer False False False (ie_MessageID e), tx)"
proof -
  have "r = Some e" using ByOp[OF assms(1,12)] assms(2-5) unfolding one_message_def by (auto split: option.splits)
  then show ?thesis using assms by (simp add: Commit_def)
qed

end

subsection \<open>The tables meet the contract\<close>

definition inbox_key :: "InboxEntry \<Rightarrow> string \<times> string" where
  "inbox_key e = (ie_Origin e, ie_OpID e)"

definition sql_ok :: "HubDB \<Rightarrow> bool" where
  "sql_ok db \<longleftrightarrow> distinct (map inbox_key (db_inbox db))"

lemma sql_ByOp_None: "sql_ByOp db origin i = None \<longleftrightarrow> (\<forall>e\<in>set (db_inbox db). inbox_key e \<noteq> (origin, i))"
  by (auto simp: sql_ByOp_def find_None_iff inbox_key_def)

lemma sql_ByMid_cases:
  "case sql_ByMid db orig m of None \<Rightarrow> \<forall>e\<in>set (db_inbox db). \<not> (ie_Origin e = orig \<and> ie_Mid e = m)
     | Some e \<Rightarrow> e \<in> set (db_inbox db) \<and> ie_Origin e = orig \<and> ie_Mid e = m"
proof -
  define rows where "rows = sort_key ie_CommittedAt (filter (\<lambda>e. ie_Origin e = orig \<and> ie_Mid e = m) (db_inbox db))"
  have s: "set rows = {e \<in> set (db_inbox db). ie_Origin e = orig \<and> ie_Mid e = m}" by (simp add: rows_def)
  have r: "sql_ByMid db orig m = (case rows of [] \<Rightarrow> None | e # _ \<Rightarrow> Some e)" by (simp add: sql_ByMid_def rows_def)
  show ?thesis
  proof (cases rows)
    case Nil
    then show ?thesis using s r by auto
  next
    case (Cons a list)
    then have "a \<in> set rows" by simp
    then show ?thesis using s r Cons by auto
  qed
qed

lemma sql_Insert_entries:
  assumes "sql_ok db" "sql_Insert n db e store body = Inr (e', db')"
  shows "sql_ok db'" "set (db_inbox db') = insert e' (set (db_inbox db))"
    "\<exists>i. e' = e\<lparr>ie_MessageID := i\<rparr> \<and> (\<not> store \<longrightarrow> i = ie_MessageID e)"
proof -
  define e1 where "e1 = (if store then e\<lparr>ie_MessageID := db_seq db + 1\<rparr> else e)"
  from assms(2) have "e' = e1" "db_inbox db' = db_inbox db @ [e1]" "sql_ByOp db (ie_Origin e) (ie_OpID e) = None"
    by (simp_all add: sql_Insert_def e1_def Let_def split: if_splits) auto
  moreover have "inbox_key e1 = (ie_Origin e, ie_OpID e)" by (simp add: e1_def inbox_key_def)
  ultimately show "sql_ok db'" "set (db_inbox db') = insert e' (set (db_inbox db))"
    using assms(1) by (auto simp: sql_ok_def sql_ByOp_None)
  show "\<exists>i. e' = e\<lparr>ie_MessageID := i\<rparr> \<and> (\<not> store \<longrightarrow> i = ie_MessageID e)"
    using \<open>e' = e1\<close> by (cases store) (auto simp: e1_def intro: exI[of _ "ie_MessageID e"])
qed

interpretation sql: inbox_tx "hubInboxTx n" "\<lambda>db. set (db_inbox db)" sql_ok for n
proof
  fix tx :: HubDB and orig i m r k k' nowMs e store body e' tx'
  assume ok: "sql_ok tx"
  show "case r of None \<Rightarrow> \<forall>e\<in>set (db_inbox tx). \<not> (ie_Origin e = orig \<and> ie_OpID e = i)
      | Some e \<Rightarrow> e \<in> set (db_inbox tx) \<and> ie_Origin e = orig \<and> ie_OpID e = i" if "tx_ByOp (hubInboxTx n) tx orig i = Inr r"
    using that by (auto simp: hubInboxTx_def sql_ByOp_def find_None_iff find_Some_iff split: option.splits)
  show "case r of None \<Rightarrow> \<forall>e\<in>set (db_inbox tx). \<not> (ie_Origin e = orig \<and> ie_Mid e = m)
      | Some e \<Rightarrow> e \<in> set (db_inbox tx) \<and> ie_Origin e = orig \<and> ie_Mid e = m" if "tx_ByMid (hubInboxTx n) tx orig m = Inr r"
    using that sql_ByMid_cases[of tx orig m] by (simp add: hubInboxTx_def)
  show "finite (set (db_inbox tx)) \<and> k = int (card (set (db_inbox tx)))" if "tx_Count (hubInboxTx n) tx = Inr k"
    using that ok by (auto simp: hubInboxTx_def sql_ok_def distinct_card distinct_map)
  show "sql_ok tx' \<and> set (db_inbox tx') = {e \<in> set (db_inbox tx). retained nowMs e}" if "tx_PruneBefore (hubInboxTx n) tx nowMs = Inr (k, tx')"
    using that ok by (auto simp: hubInboxTx_def pruneHubInbox_def Let_def sql_ok_def retained_def distinct_map_filter not_less)
  show "sql_ok tx' \<and> set (db_inbox tx') = insert e' (set (db_inbox tx)) \<and> (\<exists>i. e' = e\<lparr>ie_MessageID := i\<rparr> \<and> (\<not> store \<longrightarrow> i = ie_MessageID e))"
    if "tx_Insert (hubInboxTx n) tx e store body = Inr (e', tx')"
    using that sql_Insert_entries[OF ok, of n e store body e' tx'] by (simp add: hubInboxTx_def)
qed

section \<open>Histories of the inbox\<close>

text \<open>One step with the clock reading it uses: a payload on \<open>msg/in\<close>, the hourly pruning, a pass of the hand-off worker, and the
  rest of the bridge, which stores messages of other transports, purges old ones and lists work.\<close>

inductive inbox_step ::
    "(bytes \<Rightarrow> bytes) \<Rightarrow> (bytes \<Rightarrow> Delivery option) \<Rightarrow> HubReceiver \<Rightarrow> instant \<Rightarrow> HubDB \<Rightarrow> hub_effect list \<Rightarrow> HubDB \<Rightarrow> bool"
  for sha256 json r where
  delivered: "HandleIn sha256 json r ok now est payload db = (es, db') \<Longrightarrow> inbox_step sha256 json r now db es db'"
| pruned: "snd (PruneHubInbox ok now db) = db' \<Longrightarrow> inbox_step sha256 json r now db [] db'"
| handed: "HandOff r fn mark now db = (es, db') \<Longrightarrow> inbox_step sha256 json r now db es db'"
| other_stored: "mr_ID m = db_seq db + 1 \<Longrightarrow>
    inbox_step sha256 json r now db [] (db\<lparr>db_messages := db_messages db @ [m], db_seq := db_seq db + 1\<rparr>)"
| purged: "inbox_step sha256 json r now db [] (db\<lparr>db_messages := filter P (db_messages db)\<rparr>)"
| listed: "inbox_step sha256 json r now db [] (db\<lparr>db_work := work\<rparr>)"

text \<open>Any number of steps whose clock readings satisfy \<open>T\<close>.\<close>

inductive inbox_steps ::
    "(bytes \<Rightarrow> bytes) \<Rightarrow> (bytes \<Rightarrow> Delivery option) \<Rightarrow> HubReceiver \<Rightarrow> (instant \<Rightarrow> bool) \<Rightarrow> HubDB \<Rightarrow> hub_effect list \<Rightarrow> HubDB \<Rightarrow> bool"
  for sha256 json r T where
  none: "inbox_steps sha256 json r T db [] db"
| more: "inbox_steps sha256 json r T db es db' \<Longrightarrow> inbox_step sha256 json r now db' es' db'' \<Longrightarrow> T now
    \<Longrightarrow> inbox_steps sha256 json r T db (es @ es') db''"

definition inbox_start :: "HubDB \<Rightarrow> bool" where
  "inbox_start db \<longleftrightarrow> db_inbox db = [] \<and> db_handoff db = [] \<and> distinct (map mr_ID (db_messages db)) \<and>
     (\<forall>m\<in>set (db_messages db). mr_ID m \<le> db_seq db)"

text \<open>JSON decoding fills an \<open>int64\<close>.\<close>

definition json_int64 :: "(bytes \<Rightarrow> Delivery option) \<Rightarrow> bool" where
  "json_int64 json \<longleftrightarrow> (\<forall>p d. json p = Some d \<longrightarrow> dl_MidExpiresAt d < 2 ^ 63)"

text \<open>A stored message row and an entry that names it: the origin, and a text whose digest is the entry's.\<close>

definition row_matches :: "(bytes \<Rightarrow> bytes) \<Rightarrow> InboxEntry \<Rightarrow> MessageRow \<Rightarrow> bool" where
  "row_matches sha256 e m \<longleftrightarrow> mr_FromNode m = ie_Origin e \<and>
     (\<exists>ct x. x < 2 ^ 63 \<and> ContentSHA256 sha256 (ie_Mid e) (mr_ToNode m) ct x (mr_DecodedText m) = Inr (ie_ContentSHA256 e))"

definition inbox_inv :: "(bytes \<Rightarrow> bytes) \<Rightarrow> int \<Rightarrow> HubDB \<Rightarrow> bool" where
  "inbox_inv sha256 cap db \<longleftrightarrow> sql_ok db \<and> one_message (set (db_inbox db)) \<and>
     int (length (db_inbox db)) \<le> (if cap \<le> 0 then Capacity else cap) \<and>
     distinct (map mr_ID (db_messages db)) \<and> (\<forall>m\<in>set (db_messages db). mr_ID m \<le> db_seq db) \<and>
     distinct (map hr_MessageID (db_handoff db)) \<and> (\<forall>h\<in>set (db_handoff db). hr_MessageID h \<le> db_seq db) \<and>
     (\<forall>e\<in>set (db_inbox db). (\<exists>h\<in>set (db_handoff db). hr_MessageID h = ie_MessageID e) \<and>
        (\<forall>m\<in>set (db_messages db). mr_ID m = ie_MessageID e \<longrightarrow> row_matches sha256 e m))"

lemma sql_ok_length: "sql_ok db \<Longrightarrow> length (db_inbox db) = card (set (db_inbox db))"
  by (simp add: sql_ok_def distinct_map distinct_card)

lemma inv_subset:
  assumes "inbox_inv sha cap db"
  shows "inbox_inv sha cap (db\<lparr>db_inbox := filter P (db_inbox db)\<rparr>)"
proof -
  define c where "c = (if cap \<le> 0 then Capacity else cap)"
  have "int (length (filter P (db_inbox db))) \<le> int (length (db_inbox db))" by simp
  also have "\<dots> \<le> c" using assms unfolding inbox_inv_def c_def by blast
  finally show ?thesis using assms unfolding inbox_inv_def c_def[symmetric] sql_ok_def one_message_def
    by (simp add: distinct_map_filter)
qed

lemma inv_purge: "inbox_inv sha cap db \<Longrightarrow> inbox_inv sha cap (db\<lparr>db_messages := filter P (db_messages db)\<rparr>)"
  unfolding inbox_inv_def sql_ok_def by (simp add: distinct_map_filter)

lemma inv_work: "inbox_inv sha cap db \<Longrightarrow> inbox_inv sha cap (db\<lparr>db_work := w\<rparr>)"
  unfolding inbox_inv_def sql_ok_def by simp

lemma inv_store_other:
  assumes "inbox_inv sha cap db" "mr_ID m = db_seq db + 1"
  shows "inbox_inv sha cap (db\<lparr>db_messages := db_messages db @ [m], db_seq := db_seq db + 1\<rparr>)"
proof -
  have "ie_MessageID e \<noteq> db_seq db + 1" if "e \<in> set (db_inbox db)" for e
    using assms(1) that unfolding inbox_inv_def by fastforce
  then show ?thesis using assms unfolding inbox_inv_def sql_ok_def by (simp, fastforce)
qed

lemma inv_prune: "inbox_inv sha cap db \<Longrightarrow> inbox_inv sha cap (snd (pruneHubInbox db n))"
  using inv_subset by (simp add: pruneHubInbox_def Let_def)

lemma sql_Insert_parts:
  assumes "sql_Insert n db e0 store body = Inr (e, db')"
  shows "\<not> store \<Longrightarrow> e = e0 \<and> db' = db\<lparr>db_inbox := db_inbox db @ [e]\<rparr>"
    and "store \<Longrightarrow> e = e0\<lparr>ie_MessageID := db_seq db + 1\<rparr> \<and>
      db' = db\<lparr>db_messages := db_messages db @ [message_row (db_seq db + 1) e0 body], db_seq := db_seq db + 1,
               db_handoff := db_handoff db @ [handoff_row (db_seq db + 1) n], db_inbox := db_inbox db @ [e]\<rparr>"
  using assms by (auto simp: sql_Insert_def Let_def split: if_splits)

lemma row_matches_same:
  "row_matches sha k m \<Longrightarrow> ie_Origin e = ie_Origin k \<Longrightarrow> ie_Mid e = ie_Mid k \<Longrightarrow> ie_ContentSHA256 e = ie_ContentSHA256 k
   \<Longrightarrow> row_matches sha e m"
  by (simp add: row_matches_def)

text \<open>The clause of the invariant on one entry.\<close>

definition entry_backed :: "(bytes \<Rightarrow> bytes) \<Rightarrow> HubDB \<Rightarrow> InboxEntry \<Rightarrow> bool" where
  "entry_backed sha256 db e \<longleftrightarrow> (\<exists>h\<in>set (db_handoff db). hr_MessageID h = ie_MessageID e) \<and>
     (\<forall>m\<in>set (db_messages db). mr_ID m = ie_MessageID e \<longrightarrow> row_matches sha256 e m)"

lemma inv_insert_known:
  assumes inv: "inbox_inv sha cap db" and k: "entry_backed sha db k" and ins: "sql_Insert n db e0 False body = Inr (e, db')"
    and e: "ie_Origin e = ie_Origin k" "ie_Mid e = ie_Mid k" "ie_ContentSHA256 e = ie_ContentSHA256 k" "ie_MessageID e = ie_MessageID k"
    and one: "sql_ok db'" "one_message (set (db_inbox db'))" "int (length (db_inbox db')) \<le> (if cap \<le> 0 then Capacity else cap)"
  shows "inbox_inv sha cap db'"
proof -
  have db': "db' = db\<lparr>db_inbox := db_inbox db @ [e]\<rparr>" using sql_Insert_parts(1)[OF ins] by simp
  have "entry_backed sha db' e" using k e row_matches_same[OF _ e(1-3)] by (auto simp: entry_backed_def db')
  then show ?thesis using inv one unfolding inbox_inv_def entry_backed_def[symmetric]
    by (auto simp: db' entry_backed_def)
qed

lemma inv_insert_stored:
  assumes inv: "inbox_inv sha cap db" and ins: "sql_Insert n db e0 True body = Inr (e, db')"
    and x: "x < 2 ^ 63" "ContentSHA256 sha (ie_Mid e0) (ie_Recipient e0) ct x body = Inr (ie_ContentSHA256 e0)"
    and one: "sql_ok db'" "one_message (set (db_inbox db'))" "int (length (db_inbox db')) \<le> (if cap \<le> 0 then Capacity else cap)"
  shows "inbox_inv sha cap db'"
proof -
  define i where "i = db_seq db + 1"
  define row where "row = message_row i e0 body"
  define h where "h = handoff_row i n"
  have row: "mr_ID row = i" "mr_FromNode row = ie_Origin e0" "mr_ToNode row = ie_Recipient e0" "mr_DecodedText row = body" and h: "hr_MessageID h = i"
    by (simp_all add: row_def h_def message_row_def handoff_row_def)
  have e: "e = e0\<lparr>ie_MessageID := i\<rparr>"
    and db': "db' = db\<lparr>db_messages := db_messages db @ [row], db_seq := i, db_handoff := db_handoff db @ [h], db_inbox := db_inbox db @ [e]\<rparr>"
    using sql_Insert_parts(2)[OF ins] by (simp_all add: i_def row_def h_def)
  have m: "mr_ID m < i" if "m \<in> set (db_messages db)" for m using inv that unfolding inbox_inv_def i_def by fastforce
  have hh: "hr_MessageID k < i" if "k \<in> set (db_handoff db)" for k using inv that unfolding inbox_inv_def i_def by fastforce
  have "row_matches sha e row" unfolding row_matches_def e using row x by auto
  then have new: "entry_backed sha db' e" using m row(1) h by (force simp: entry_backed_def db' e)
  have old: "entry_backed sha db' k" if "k \<in> set (db_inbox db)" for k
  proof -
    from inv that have k: "entry_backed sha db k" unfolding inbox_inv_def entry_backed_def[symmetric] by blast
    then have "ie_MessageID k < i" using hh by (force simp: entry_backed_def)
    then show ?thesis using k row(1) by (auto simp: entry_backed_def db')
  qed
  have "distinct (map mr_ID (db_messages db'))" "\<forall>m\<in>set (db_messages db'). mr_ID m \<le> db_seq db'"
    "distinct (map hr_MessageID (db_handoff db'))" "\<forall>h\<in>set (db_handoff db'). hr_MessageID h \<le> db_seq db'"
    using inv m hh row(1) h unfolding inbox_inv_def db' by (fastforce)+
  moreover have "\<forall>k\<in>set (db_inbox db'). entry_backed sha db' k" using new old by (simp add: db')
  ultimately show ?thesis using one unfolding inbox_inv_def entry_backed_def[symmetric] by blast
qed

lemma inv_Commit:
  assumes inv: "inbox_inv sha cap db" and C: "Commit sha (hubInboxTx n) db d now est cap = Inr (ans, db')" and x: "dl_MidExpiresAt d < 2 ^ 63"
  shows "inbox_inv sha cap db'"
proof -
  define c where "c = (if cap \<le> 0 then Capacity else cap)"
  have ok: "sql_ok db" "one_message (set (db_inbox db))" "int (length (db_inbox db)) \<le> c" using inv by (simp_all add: inbox_inv_def c_def)
  note one = sql.Commit_one_message[OF ok(1,2) C]
  have "int (card (set (db_inbox db'))) \<le> c"
    using sql.Commit_capacity[OF ok(1) C, of c] ok(3) sql_ok_length[OF ok(1)] by (simp add: c_def)
  then have len: "int (length (db_inbox db')) \<le> (if cap \<le> 0 then Capacity else cap)" using sql_ok_length[OF one(1)] by (simp add: c_def)
  have prune: "inbox_inv sha cap tx1" "db_handoff tx1 = db_handoff db" "db_messages tx1 = db_messages db"
    if "tx1 = db \<or> (\<exists>k. tx_PruneBefore (hubInboxTx n) db (UnixMilli now) = Inr (k, tx1))" for tx1
    using that inv inv_prune[OF inv, of "UnixMilli now"] by (auto simp: hubInboxTx_def pruneHubInbox_def Let_def)
  from ok(1) C show ?thesis
  proof (cases rule: sql.Commit_cases)
    case (refused reason)
    then show ?thesis using prune by blast
  next
    case (again e)
    then show ?thesis using inv by simp
  next
    case (new e e0 tx1 kn)
    note p = prune[OF new(2)]
    have e: "ie_Origin e = dl_From d" "ie_Mid e = dl_Mid d" "ie_ContentSHA256 e = dl_ContentSHA256 d" using new(6) by (simp_all add: entry_of_def)
    show ?thesis
    proof (cases kn)
      case None
      then have "sql_Insert n tx1 e0 True (dl_Body d) = Inr (e, db')" using new(4) by (simp add: hubInboxTx_def)
      then show ?thesis by (rule inv_insert_stored[OF p(1) _ x _ one len, where ct = "dl_ContentType d"]) (use new(7) in \<open>simp add: entry_of_def\<close>)
    next
      case (Some k)
      then have ins: "sql_Insert n tx1 e0 False (dl_Body d) = Inr (e, db')" using new(4) by (simp add: hubInboxTx_def)
      have k: "k \<in> set (db_inbox db)" "ie_Origin e = ie_Origin k" "ie_Mid e = ie_Mid k" "ie_ContentSHA256 e = ie_ContentSHA256 k"
        "ie_MessageID e = ie_MessageID k" using new(12) Some e by simp_all
      have "entry_backed sha tx1 k" using inv k(1) p(2,3) unfolding inbox_inv_def entry_backed_def by simp
      then show ?thesis by (rule inv_insert_known[OF p(1) _ ins k(2-5) one len])
    qed
  qed
qed

subsection \<open>Steps keep the invariant and every retained entry\<close>

lemma CommitHubDelivery_cases:
  assumes "CommitHubDelivery sha ok d now est cap db = (res, db')"
  obtains (failed) err where "res = Inl err" "db' = db"
  | (committed) ans where "ok" "res = Inr ans" "Commit sha (hubInboxTx (UnixMilli now)) db d now est cap = Inr (ans, db')"
  using assms unfolding CommitHubDelivery_def withTx_def by (auto split: if_splits sum.splits)

text \<open>What \<open>HandleIn\<close> does with a payload: nothing, or one commit and its answer.\<close>

lemma HandleIn_cases:
  assumes "HandleIn sha json r ok now est payload db = (es, db')"
  obtains (ignored) "es = []" "db' = db"
  | (answered) d ans where "json payload = Some d" "ok" "dl_V d = 1" "dl_To d = hv_Principal r" "BridgeOf (dl_From d) \<noteq> []"
      "Commit sha (hubInboxTx (UnixMilli now)) db d now est (hv_Capacity r) = Inr (ans, db')"
      "es = PublishAck \<lparr>ak_V = 1, ak_OpID = dl_OpID d, ak_Mid = dl_Mid d, ak_From = dl_From d, ak_Result = an_Result ans,
                        ak_Reason = an_Reason ans\<rparr>
            # (if an_StoredNow ans then (if hv_stored r then [StoredNotify (dl_From d) (dl_Body d)] else []) @ [Wake] else [])"
proof (cases "json payload")
  case None
  then show thesis using assms ignored by (simp add: HandleIn_def)
next
  case (Some d)
  obtain res db1 where c: "CommitHubDelivery sha ok d now est (hv_Capacity r) db = (res, db1)" by force
  show thesis
  proof (cases "dl_V d = 1 \<and> dl_To d = hv_Principal r \<and> BridgeOf (dl_From d) \<noteq> []")
    case False
    then show thesis using assms Some ignored by (auto simp: HandleIn_def split: if_splits)
  next
    case True
    from c show thesis
    proof (cases rule: CommitHubDelivery_cases)
      case (failed err)
      then show thesis using assms Some True c ignored by (simp add: HandleIn_def)
    next
      case (committed ans)
      then show thesis using assms Some True c answered[OF Some] by (simp add: HandleIn_def)
    qed
  qed
qed

lemma PruneHubInbox_cases: "snd (PruneHubInbox ok now db) = db \<or> snd (PruneHubInbox ok now db) = snd (pruneHubInbox db (UnixMilli now))"
  by (simp add: PruneHubInbox_def withTx_def split: prod.splits)

text \<open>A hand-off pass changes only states of hand-off rows and the list of work.\<close>

lemma MarkHubHandoffDone_parts:
  "db_inbox (snd (MarkHubHandoffDone ok i t db)) = db_inbox db" "db_messages (snd (MarkHubHandoffDone ok i t db)) = db_messages db"
  "db_seq (snd (MarkHubHandoffDone ok i t db)) = db_seq db"
  "map hr_MessageID (db_handoff (snd (MarkHubHandoffDone ok i t db))) = map hr_MessageID (db_handoff db)"
  by (auto simp: MarkHubHandoffDone_def withTx_def)

lemma handoff_loop_parts:
  "handoff_loop fn mark now hs db = (es, db') \<Longrightarrow> db_inbox db' = db_inbox db \<and> db_messages db' = db_messages db \<and> db_seq db' = db_seq db \<and>
     map hr_MessageID (db_handoff db') = map hr_MessageID (db_handoff db)"
proof (induction hs arbitrary: db es)
  case (Cons h hs)
  obtain ok work where fn: "fn h (db_work db) = (ok, work)" by force
  define db2 where "db2 = (if ok then snd (MarkHubHandoffDone (mark (hh_MessageID h)) (hh_MessageID h) now (db\<lparr>db_work := work\<rparr>)) else db\<lparr>db_work := work\<rparr>)"
  have p: "db_inbox db2 = db_inbox db" "db_messages db2 = db_messages db" "db_seq db2 = db_seq db"
    "map hr_MessageID (db_handoff db2) = map hr_MessageID (db_handoff db)"
    by (simp_all add: db2_def MarkHubHandoffDone_parts)
  obtain es1 where "handoff_loop fn mark now hs db2 = (es1, db')"
    using Cons.prems fn by (auto simp: db2_def[symmetric] Let_def split: prod.splits)
  from Cons.IH[OF this] show ?case using p by simp
qed simp

lemma inv_handoff:
  assumes "inbox_inv sha cap db" "db_inbox db' = db_inbox db" "db_messages db' = db_messages db" "db_seq db' = db_seq db"
    "map hr_MessageID (db_handoff db') = map hr_MessageID (db_handoff db)"
  shows "inbox_inv sha cap db'"
proof -
  have "hr_MessageID ` set (db_handoff db') = hr_MessageID ` set (db_handoff db)" using arg_cong[OF assms(5), of set] by simp
  then have H: "(\<exists>h\<in>set (db_handoff db'). Q (hr_MessageID h)) \<longleftrightarrow> (\<exists>h\<in>set (db_handoff db). Q (hr_MessageID h))"
    "(\<forall>h\<in>set (db_handoff db'). Q (hr_MessageID h)) \<longleftrightarrow> (\<forall>h\<in>set (db_handoff db). Q (hr_MessageID h))" for Q
    by (metis (mono_tags) image_iff)+
  show ?thesis using assms(1) unfolding inbox_inv_def sql_ok_def assms(2-5)
    by (simp add: H(1)[of "\<lambda>i. i = _"] H(2)[of "\<lambda>i. i \<le> _"])
qed

lemma HandOff_parts:
  assumes "HandOff r fn mark now db = (es, db')"
  shows "db_inbox db' = db_inbox db" "db_messages db' = db_messages db" "db_seq db' = db_seq db"
    "map hr_MessageID (db_handoff db') = map hr_MessageID (db_handoff db)"
  using assms handoff_loop_parts[of fn mark now "PendingHubHandoffs db 50" db es db'] by (auto simp: HandOff_def split: if_splits)

lemma inv_step:
  assumes "inbox_step sha json r t db es db'" "json_int64 json" "inbox_inv sha (hv_Capacity r) db"
  shows "inbox_inv sha (hv_Capacity r) db'"
  using assms
proof (induction rule: inbox_step.induct)
  case (delivered ok now est payload db es db')
  from delivered(1) show ?case
  proof (cases rule: HandleIn_cases)
    case (answered d ans)
    then have "dl_MidExpiresAt d < 2 ^ 63" using delivered(2) by (auto simp: json_int64_def)
    then show ?thesis using inv_Commit[OF delivered(3) answered(6)] by simp
  qed (use delivered in simp)
next
  case (pruned ok now db db')
  then show ?case using PruneHubInbox_cases[of ok now db] inv_prune by metis
next
  case (handed fn mark now db es db')
  then show ?case using inv_handoff[OF handed(3) HandOff_parts[OF handed(1)]] by simp
qed (simp_all add: inv_store_other inv_purge inv_work)

lemma inv_steps:
  assumes "inbox_steps sha json r T db es db'" "json_int64 json" "inbox_inv sha (hv_Capacity r) db"
  shows "inbox_inv sha (hv_Capacity r) db'"
  using assms by (induction rule: inbox_steps.induct) (auto dest: inv_step)

lemma inv_start: "inbox_start db \<Longrightarrow> inbox_inv sha cap db"
  by (simp add: inbox_start_def inbox_inv_def sql_ok_def one_message_def Capacity_def)

lemma step_keeps:
  assumes "inbox_step sha json r t db es db'" "sql_ok db" "e \<in> set (db_inbox db)" "retained (UnixMilli t) e"
  shows "e \<in> set (db_inbox db')"
  using assms
proof (induction rule: inbox_step.induct)
  case (delivered ok now est payload db es db')
  from delivered(1) show ?case
    by (cases rule: HandleIn_cases) (use delivered sql.Commit_keeps in auto)
next
  case (pruned ok now db db')
  then show ?case using PruneHubInbox_cases[of ok now db] by (auto simp: pruneHubInbox_def retained_def Let_def not_less)
next
  case (handed fn mark now db es db')
  then show ?case using HandOff_parts by simp
qed simp_all

lemma steps_keep:
  assumes "inbox_steps sha json r (\<lambda>t. retained (UnixMilli t) e) db es db'" "json_int64 json" "inbox_inv sha (hv_Capacity r) db"
    "e \<in> set (db_inbox db)"
  shows "e \<in> set (db_inbox db')"
  using assms
proof (induction rule: inbox_steps.induct)
  case (more db es db' now es' db'')
  have "sql_ok db'" using inv_steps[OF more(1,5,6)] by (simp add: inbox_inv_def)
  then show ?case using step_keeps[OF more(2)] more by blast
qed simp

section \<open>Stored once, acknowledged again\<close>

lemma hashHex_inj: "hashHex x = hashHex y \<Longrightarrow> x = y"
  by (metis hexDecode_hashHex sum.inject(2))

lemma ContentSHA256_inj:
  assumes "collision_free sha" "ContentSHA256 sha m r c e b = Inr h" "ContentSHA256 sha m' r' c' e' b' = Inr h" "e < 2 ^ 63" "e' < 2 ^ 63"
  shows "m = m'" "r = r'" "c = c'" "e = e'" "b = b'"
proof -
  from assms(2) obtain p where p: "ContentPreimage m r c e b = Inr p" "h = go_string (hashHex (sha p))"
    by (auto simp: ContentSHA256_def split: sum.splits)
  from assms(3) obtain p' where p': "ContentPreimage m' r' c' e' b' = Inr p'" "h = go_string (hashHex (sha p'))"
    by (auto simp: ContentSHA256_def split: sum.splits)
  have "hashHex (sha p) = hashHex (sha p')" using p(2) p'(2) by (metis go_bytes_go_string)
  then have eq: "p = p'" using assms(1) p(1) p'(1) hashHex_inj unfolding collision_free_def by blast
  from ContentPreimage_inj[OF p(1) p'(1)[folded eq] assms(4,5)] show "m = m'" "r = r'" "c = c'" "e = e'" "b = b'" by simp_all
qed

lemma later_delivery:
  assumes inv: "inbox_inv sha cap db" and e: "e \<in> set (db_inbox db)" "ie_Origin e = dl_From d" "ie_Mid e = dl_Mid d"
    and C: "Commit sha (hubInboxTx n) db d t est cap' = Inr (ans, db')"
  shows "\<not> an_StoredNow ans" "db_messages db' = db_messages db"
    "an_Result ans = ''stored'' \<Longrightarrow> dl_ContentSHA256 d = ie_ContentSHA256 e \<and>
       ContentSHA256 sha (dl_Mid d) (dl_To d) (dl_ContentType d) (dl_MidExpiresAt d) (dl_Body d) = Inr (dl_ContentSHA256 d)"
proof -
  have ok: "sql_ok db" "one_message (set (db_inbox db))" using inv by (simp_all add: inbox_inv_def)
  have same: "ie_ContentSHA256 k = ie_ContentSHA256 e" if "k \<in> set (db_inbox db)" "ie_Origin k = dl_From d" "ie_Mid k = dl_Mid d" for k
    using ok(2)[unfolded one_message_def, rule_format, of k e] that e by simp
  have prune: "db_messages tx1 = db_messages db" if "tx1 = db \<or> (\<exists>k. tx_PruneBefore (hubInboxTx n) db (UnixMilli t) = Inr (k, tx1))" for tx1
    using that by (auto simp: hubInboxTx_def pruneHubInbox_def Let_def)
  from ok(1) C have "\<not> an_StoredNow ans \<and> db_messages db' = db_messages db \<and> (an_Result ans = ''stored'' \<longrightarrow>
     dl_ContentSHA256 d = ie_ContentSHA256 e \<and>
       ContentSHA256 sha (dl_Mid d) (dl_To d) (dl_ContentType d) (dl_MidExpiresAt d) (dl_Body d) = Inr (dl_ContentSHA256 d))"
  proof (cases rule: sql.Commit_cases)
    case (refused reason)
    show ?thesis using prune[OF refused(3)] refused(1) by (simp add: refusedAnswer_def)
  next
    case (again e')
    show ?thesis using same[OF again(1,2,4)] again(5-8) by (simp add: storedAnswer_def)
  next
    case (new e' e0 tx1 kn)
    have "kn \<noteq> None" using new(12) e by (cases kn) fastforce+
    then obtain k where kn: "kn = Some k" by blast
    then have k: "k \<in> set (db_inbox db)" "ie_Origin k = dl_From d" "ie_Mid k = dl_Mid d" "ie_ContentSHA256 k = dl_ContentSHA256 d"
      using new(12) by simp_all
    have "sql_Insert n tx1 e0 False (dl_Body d) = Inr (e', db')" using new(4) kn by (simp add: hubInboxTx_def)
    then have "db_messages db' = db_messages tx1" using sql_Insert_parts(1) by fastforce
    then show ?thesis using new(6,9) kn same[OF k(1-3)] k(4) prune[OF new(2)] by (simp add: entry_of_def)
  qed
  then show "\<not> an_StoredNow ans" "db_messages db' = db_messages db"
    "an_Result ans = ''stored'' \<Longrightarrow> dl_ContentSHA256 d = ie_ContentSHA256 e \<and>
       ContentSHA256 sha (dl_Mid d) (dl_To d) (dl_ContentType d) (dl_MidExpiresAt d) (dl_Body d) = Inr (dl_ContentSHA256 d)" by simp_all
qed

lemma ByOp_entry:
  assumes "inbox_inv sha cap db" "e \<in> set (db_inbox db)"
  shows "sql_ByOp db (ie_Origin e) (ie_OpID e) = Some e"
proof -
  obtain e' where e': "sql_ByOp db (ie_Origin e) (ie_OpID e) = Some e'"
    using sql_ByOp_None[of db "ie_Origin e" "ie_OpID e"] assms(2) by (cases "sql_ByOp db (ie_Origin e) (ie_OpID e)") (auto simp: inbox_key_def)
  then have "e' \<in> set (db_inbox db)" "ie_Origin e' = ie_Origin e" "ie_OpID e' = ie_OpID e"
    by (auto simp: sql_ByOp_def find_Some_iff)
  moreover have "one_message (set (db_inbox db))" using assms(1) by (simp add: inbox_inv_def)
  ultimately have "e' = e" using assms(2) unfolding one_message_def by blast
  with e' show ?thesis by simp
qed

text \<open>What a committed delivery satisfied: its ids and its deadline.\<close>

lemma Commit_stored_guards:
  assumes "Commit sha I tx d now est cap = Inr (ans, tx')" "an_Result ans = ''stored''"
  shows "ValidV7 (dl_OpID d)" "ValidV7 (dl_Mid d)" "dl_ExpiresAt d \<le> dl_MidExpiresAt d"
proof -
  have ne: "refusedAnswer x \<noteq> ans" for x using assms(2) by (auto simp: refusedAnswer_def)
  show "ValidV7 (dl_OpID d)" "ValidV7 (dl_Mid d)" "dl_ExpiresAt d \<le> dl_MidExpiresAt d"
    using assms(1) ne unfolding Commit_def Let_def by (simp_all split: if_split_asm)
qed

text \<open>The same delivery, while its entry is there: acknowledged, and nothing changes.\<close>

lemma HandleIn_repeat:
  assumes inv: "inbox_inv sha cap db" and e: "e \<in> set (db_inbox db)" "ie_Origin e = dl_From d" "ie_OpID e = dl_OpID d" "ie_Mid e = dl_Mid d"
    "ie_ContentSHA256 e = dl_ContentSHA256 d"
    and d: "ValidV7 (dl_OpID d)" "ValidV7 (dl_Mid d)" "dl_ExpiresAt d \<le> dl_MidExpiresAt d"
      "ContentSHA256 sha (dl_Mid d) (dl_To d) (dl_ContentType d) (dl_MidExpiresAt d) (dl_Body d) = Inr (dl_ContentSHA256 d)"
    and p: "json p = Some d" "dl_V d = 1" "dl_To d = hv_Principal r" "BridgeOf (dl_From d) \<noteq> []"
  shows "HandleIn sha json r True t est p db = ([PublishAck \<lparr>ak_V = 1, ak_OpID = dl_OpID d, ak_Mid = dl_Mid d, ak_From = dl_From d,
     ak_Result = ''stored'', ak_Reason = []\<rparr>], db)"
proof -
  have "Commit sha (hubInboxTx (UnixMilli t)) db d t est (hv_Capacity r) = Inr (storedAnswer False False False (ie_MessageID e), db)"
    using inv e d by (intro sql.Commit_repeat[where r = "sql_ByOp db (dl_From d) (dl_OpID d)"]) (simp_all add: inbox_inv_def hubInboxTx_def)
  then show ?thesis using p by (simp add: HandleIn_def CommitHubDelivery_def withTx_def storedAnswer_def)
qed

text \<open>The entry behind an acknowledgement.\<close>

definition acked_by :: "(bytes \<Rightarrow> bytes) \<Rightarrow> HubReceiver \<Rightarrow> Delivery \<Rightarrow> InboxEntry \<Rightarrow> bool" where
  "acked_by sha256 r d e \<longleftrightarrow> ie_Origin e = dl_From d \<and> ie_OpID e = dl_OpID d \<and> ie_Mid e = dl_Mid d \<and> ie_ContentSHA256 e = dl_ContentSHA256 d \<and>
     ContentSHA256 sha256 (dl_Mid d) (dl_To d) (dl_ContentType d) (dl_MidExpiresAt d) (dl_Body d) = Inr (dl_ContentSHA256 d) \<and>
     ValidV7 (dl_OpID d) \<and> ValidV7 (dl_Mid d) \<and> dl_ExpiresAt d \<le> dl_MidExpiresAt d \<and>
     dl_V d = 1 \<and> dl_To d = hv_Principal r \<and> BridgeOf (dl_From d) \<noteq> []"

lemma acked_byD:
  assumes "acked_by sha r d e"
  shows "ie_Origin e = dl_From d" "ie_OpID e = dl_OpID d" "ie_Mid e = dl_Mid d" "ie_ContentSHA256 e = dl_ContentSHA256 d"
    "ValidV7 (dl_OpID d)" "ValidV7 (dl_Mid d)" "dl_ExpiresAt d \<le> dl_MidExpiresAt d"
    "ContentSHA256 sha (dl_Mid d) (dl_To d) (dl_ContentType d) (dl_MidExpiresAt d) (dl_Body d) = Inr (dl_ContentSHA256 d)"
    "dl_V d = 1" "dl_To d = hv_Principal r" "BridgeOf (dl_From d) \<noteq> []"
  using assms unfolding acked_by_def by blast+

lemma first_delivery:
  assumes inv: "inbox_inv sha (hv_Capacity r) db" and j: "json_int64 json" "json p = Some d"
    and H: "HandleIn sha json r ok t est p db = (es, db')" "PublishAck a \<in> set es" "ak_Result a = ''stored''"
  obtains e where "inbox_inv sha (hv_Capacity r) db'" "e \<in> set (db_inbox db')" "acked_by sha r d e" "Wake \<in> set es \<longrightarrow> ie_ExpiresAt e = dl_ExpiresAt d"
  using H(1)
proof (cases rule: HandleIn_cases)
  case ignored
  then show thesis using H(2) by simp
next
  case (answered d0 ans)
  then have d0: "d0 = d" using j(2) by simp
  note C = answered(6)[unfolded d0]
  have st: "an_Result ans = ''stored''" using H(2,3) answered(7) by (auto split: if_splits)
  have x: "dl_MidExpiresAt d < 2 ^ 63" using j by (auto simp: json_int64_def)
  have ok: "sql_ok db" "one_message (set (db_inbox db))" using inv by (simp_all add: inbox_inv_def)
  note inv' = inv_Commit[OF inv C x]
  have wake: "Wake \<in> set es \<longrightarrow> an_StoredNow ans" using answered(7) by auto
  note g = Commit_stored_guards[OF C st] answered(3-5)[unfolded d0]
  from ok(1) C show thesis
  proof (cases rule: sql.Commit_cases)
    case (refused reason)
    then show thesis using st by (simp add: refusedAnswer_def)
  next
    case (again e)
    have "acked_by sha r d e" unfolding acked_by_def using again(2-5,8) g by simp
    moreover have "\<not> an_StoredNow ans" using again(6) by (simp add: storedAnswer_def)
    ultimately show thesis using that[OF inv', of e] again(1,7) wake by simp
  next
    case (new e e0 tx1 kn)
    have "acked_by sha r d e" unfolding acked_by_def using new(6) g by (simp add: entry_of_def)
    moreover have "ie_ExpiresAt e = dl_ExpiresAt d" using new(6) by (simp add: entry_of_def)
    moreover have "e \<in> set (db_inbox db')" using new(5) by simp
    ultimately show thesis using that[OF inv', of e] by simp
  qed
qed

lemma second_delivery:
  assumes cf: "collision_free sha" and inv: "inbox_inv sha cap db" and e: "e \<in> set (db_inbox db)" "acked_by sha r d e"
    and x: "dl_MidExpiresAt d < 2 ^ 63" "dl_MidExpiresAt d' < 2 ^ 63"
    and H: "json p = Some d'" "HandleIn sha json r ok t est p db = (es, db')" and d': "dl_From d' = dl_From d" "dl_Mid d' = dl_Mid d"
  shows "\<forall>x y. StoredNotify x y \<notin> set es" "db_messages db' = db_messages db"
    "PublishAck a \<in> set es \<Longrightarrow> ak_Result a = ''stored'' \<Longrightarrow> dl_To d' = dl_To d \<and>
       dl_ContentType d' = dl_ContentType d \<and> dl_MidExpiresAt d' = dl_MidExpiresAt d \<and> dl_Body d' = dl_Body d"
proof -
  have eo: "ie_Origin e = dl_From d'" "ie_Mid e = dl_Mid d'" and dg: "ie_ContentSHA256 e = dl_ContentSHA256 d"
    "ContentSHA256 sha (dl_Mid d) (dl_To d) (dl_ContentType d) (dl_MidExpiresAt d) (dl_Body d) = Inr (dl_ContentSHA256 d)"
    using acked_byD(1,3)[OF e(2)] d' acked_byD(4,8)[OF e(2)] by simp_all
  from H(2) have "(\<forall>x y. StoredNotify x y \<notin> set es) \<and> db_messages db' = db_messages db \<and>
    (PublishAck a \<in> set es \<longrightarrow> ak_Result a = ''stored'' \<longrightarrow> dl_To d' = dl_To d \<and>
       dl_ContentType d' = dl_ContentType d \<and> dl_MidExpiresAt d' = dl_MidExpiresAt d \<and> dl_Body d' = dl_Body d)"
  proof (cases rule: HandleIn_cases)
    case ignored
    then show ?thesis by simp
  next
    case (answered d0 ans)
    then have d0: "d0 = d'" using H(1) by simp
    note L = later_delivery[OF inv e(1) eo answered(6)[unfolded d0]]
    have es: "es = [PublishAck \<lparr>ak_V = 1, ak_OpID = dl_OpID d', ak_Mid = dl_Mid d', ak_From = dl_From d', ak_Result = an_Result ans,
                        ak_Reason = an_Reason ans\<rparr>]" using answered(7) L(1) d0 by simp
    have "dl_To d' = dl_To d \<and> dl_ContentType d' = dl_ContentType d \<and> dl_MidExpiresAt d' = dl_MidExpiresAt d \<and> dl_Body d' = dl_Body d"
      if "an_Result ans = ''stored''"
    proof -
      have "ContentSHA256 sha (dl_Mid d') (dl_To d') (dl_ContentType d') (dl_MidExpiresAt d') (dl_Body d') = Inr (dl_ContentSHA256 d)"
        using L(3)[OF that] dg(1) by simp
      from ContentSHA256_inj[OF cf this dg(2) x(2,1)] show ?thesis by simp
    qed
    then show ?thesis using es L(2) by auto
  qed
  then show "\<forall>x y. StoredNotify x y \<notin> set es" "db_messages db' = db_messages db"
    "PublishAck a \<in> set es \<Longrightarrow> ak_Result a = ''stored'' \<Longrightarrow> dl_To d' = dl_To d \<and>
       dl_ContentType d' = dl_ContentType d \<and> dl_MidExpiresAt d' = dl_MidExpiresAt d \<and> dl_Body d' = dl_Body d" by simp_all
qed

text \<open>C4. The inbox stores a message once and answers every repeat. After any history from an empty inbox, let a delivery be
  acknowledged as stored. Its operation then has an entry, and whatever happens next, for as long as no clock
  reading passes the entry's deadline plus skew plus a day: no further delivery with the same origin and message id stores a message or
  notifies of one; if such a delivery is acknowledged, its recipient, content type, deadline and body are the
  first one's; and the same delivery again is acknowledged again, at any time and with any clock, and
  changes nothing.\<close>

theorem hub_inbox_exactly_once:
  assumes "collision_free sha" and "json_int64 json" and "inbox_start db0" and "inbox_steps sha json r (\<lambda>_. True) db0 es0 db1"
    and "json p = Some d" and "HandleIn sha json r ok t est p db1 = (es, db2)"
    and "PublishAck a \<in> set es" and "ak_Result a = ''stored''"
  shows "\<exists>e. sql_ByOp db2 (dl_From d) (dl_OpID d) = Some e \<and> (Wake \<in> set es \<longrightarrow> ie_ExpiresAt e = dl_ExpiresAt d) \<and>
    (\<forall>es2 db3 p' d' ok' t' est' es3 db4. inbox_steps sha json r (\<lambda>t. retained (UnixMilli t) e) db2 es2 db3 \<longrightarrow>
       json p' = Some d' \<longrightarrow> HandleIn sha json r ok' t' est' p' db3 = (es3, db4) \<longrightarrow>
       dl_From d' = dl_From d \<longrightarrow> dl_Mid d' = dl_Mid d \<longrightarrow>
       (\<forall>x y. StoredNotify x y \<notin> set es3) \<and> db_messages db4 = db_messages db3 \<and>
       (\<forall>a'. PublishAck a' \<in> set es3 \<longrightarrow> ak_Result a' = ''stored'' \<longrightarrow> dl_To d' = dl_To d \<and>
          dl_ContentType d' = dl_ContentType d \<and> dl_MidExpiresAt d' = dl_MidExpiresAt d \<and> dl_Body d' = dl_Body d) \<and>
       (d' = d \<and> ok' \<longrightarrow> es3 = [PublishAck \<lparr>ak_V = 1, ak_OpID = dl_OpID d, ak_Mid = dl_Mid d, ak_From = dl_From d,
          ak_Result = ''stored'', ak_Reason = []\<rparr>] \<and> db4 = db3))"
proof -
  note inv1 = inv_steps[OF assms(4,2) inv_start[OF assms(3)]]
  obtain e where e: "inbox_inv sha (hv_Capacity r) db2" "e \<in> set (db_inbox db2)" "acked_by sha r d e" "Wake \<in> set es \<longrightarrow> ie_ExpiresAt e = dl_ExpiresAt d"
    by (rule first_delivery[OF inv1 assms(2,5-8)])
  note k = acked_byD[OF e(3)]
  have by_op: "sql_ByOp db2 (dl_From d) (dl_OpID d) = Some e" using ByOp_entry[OF e(1,2)] k(1,2) by simp
  have later: "(\<forall>x y. StoredNotify x y \<notin> set es3) \<and> db_messages db4 = db_messages db3 \<and>
       (\<forall>a'. PublishAck a' \<in> set es3 \<longrightarrow> ak_Result a' = ''stored'' \<longrightarrow> dl_To d' = dl_To d \<and>
          dl_ContentType d' = dl_ContentType d \<and> dl_MidExpiresAt d' = dl_MidExpiresAt d \<and> dl_Body d' = dl_Body d) \<and>
       (d' = d \<and> ok' \<longrightarrow> es3 = [PublishAck \<lparr>ak_V = 1, ak_OpID = dl_OpID d, ak_Mid = dl_Mid d, ak_From = dl_From d,
          ak_Result = ''stored'', ak_Reason = []\<rparr>] \<and> db4 = db3)"
    if s: "inbox_steps sha json r (\<lambda>t. retained (UnixMilli t) e) db2 es2 db3" "json p' = Some d'"
      "HandleIn sha json r ok' t' est' p' db3 = (es3, db4)" "dl_From d' = dl_From d" "dl_Mid d' = dl_Mid d"
    for es2 db3 p' d' ok' t' est' es3 db4
  proof -
    note inv3 = inv_steps[OF s(1) assms(2) e(1)] and e3 = steps_keep[OF s(1) assms(2) e(1,2)]
    have x: "dl_MidExpiresAt d < 2 ^ 63" "dl_MidExpiresAt d' < 2 ^ 63" using assms(2,5) s(2) by (auto simp: json_int64_def)
    note L = second_delivery[OF assms(1) inv3 e3 e(3) x s(2,3,4,5)]
    have "es3 = [PublishAck \<lparr>ak_V = 1, ak_OpID = dl_OpID d, ak_Mid = dl_Mid d, ak_From = dl_From d,
          ak_Result = ''stored'', ak_Reason = []\<rparr>] \<and> db4 = db3" if "d' = d" "ok'"
      using HandleIn_repeat[OF inv3 e3 k(1-8) _ k(9-11), of json p' t' est'] s(2,3) that by simp
    then show ?thesis using L by blast
  qed
  show ?thesis by (rule exI[of _ e], rule conjI[OF by_op conjI[OF e(4)]], intro allI impI) (erule (4) later)
qed

subsection \<open>A fresh delivery\<close>

definition delivery_ok :: "(bytes \<Rightarrow> bytes) \<Rightarrow> Delivery \<Rightarrow> bool" where
  "delivery_ok sha256 d \<longleftrightarrow> ValidV7 (dl_OpID d) \<and> ValidV7 (dl_Mid d) \<and> dl_ExpiresAt d \<le> dl_MidExpiresAt d \<and>
     ContentSHA256 sha256 (dl_Mid d) (dl_To d) (dl_ContentType d) (dl_MidExpiresAt d) (dl_Body d) = Inr (dl_ContentSHA256 d)"

definition stored_db :: "HubDB \<Rightarrow> Delivery \<Rightarrow> int \<Rightarrow> HubDB" where
  "stored_db db d nowMs = (let i = db_seq db + 1; e = new_entry d nowMs in
     db\<lparr>db_messages := db_messages db @ [message_row i e (dl_Body d)], db_seq := i,
        db_handoff := db_handoff db @ [handoff_row i nowMs], db_inbox := db_inbox db @ [e\<lparr>ie_MessageID := i\<rparr>]\<rparr>)"

lemma i64_id: "- (2 ^ 63) \<le> x \<Longrightarrow> x < 2 ^ 63 \<Longrightarrow> i64 x = x"
  unfolding i64_def by (rule signed_take_bit_int_eq_self) simp_all

lemma Commit_fresh:
  assumes d: "delivery_ok sha d" and t: "UnixMilli t \<le> dl_ExpiresAt d" "0 \<le> UnixMilli t" "dl_ExpiresAt d + SkewMs < 2 ^ 63"
    and db: "sql_ByOp db (dl_From d) (dl_OpID d) = None" "sql_ByMid db (dl_From d) (dl_Mid d) = None"
      "int (length (db_inbox db)) < (if cap \<le> 0 then Capacity else cap)" "db_seq db + 1 \<notin> hr_MessageID ` set (db_handoff db)"
  shows "Commit sha (hubInboxTx (UnixMilli t)) db d t True cap =
     Inr (storedAnswer True False False (db_seq db + 1), stored_db db d (UnixMilli t))"
proof -
  define c where "c = (if cap \<le> 0 then Capacity else cap)"
  have "i64 (dl_ExpiresAt d + SkewMs) = dl_ExpiresAt d + SkewMs" using t by (intro i64_id) (simp_all add: SkewMs_def)
  then have late: "\<not> UnixMilli t > i64 (dl_ExpiresAt d + SkewMs)" using t by (simp add: SkewMs_def)
  have ins: "sql_Insert (UnixMilli t) db (new_entry d (UnixMilli t)) True (dl_Body d) =
      Inr (new_entry d (UnixMilli t)\<lparr>ie_MessageID := db_seq db + 1\<rparr>, stored_db db d (UnixMilli t))"
    using db(1,4) by (simp add: sql_Insert_def stored_db_def Let_def new_entry_def)
  have "commit_deadline (hubInboxTx (UnixMilli t)) db c d (UnixMilli t) True None =
      Inr (storedAnswer True False False (db_seq db + 1), stored_db db d (UnixMilli t))"
    using late t(1) db(3) ins
    by (simp add: commit_deadline_def commit_room_def commit_insert_def hubInboxTx_def c_def[symmetric] Let_def new_entry_def)
  then show ?thesis using d db(1,2) unfolding Commit_def Let_def c_def[symmetric] delivery_ok_def
    by (simp add: hubInboxTx_def)
qed

lemma CommitHubDelivery_fresh:
  assumes "delivery_ok sha d" "UnixMilli t \<le> dl_ExpiresAt d" "0 \<le> UnixMilli t" "dl_ExpiresAt d + SkewMs < 2 ^ 63"
    "sql_ByOp db (dl_From d) (dl_OpID d) = None" "sql_ByMid db (dl_From d) (dl_Mid d) = None"
    "int (length (db_inbox db)) < (if cap \<le> 0 then Capacity else cap)" "db_seq db + 1 \<notin> hr_MessageID ` set (db_handoff db)"
  shows "CommitHubDelivery sha True d t True cap db = (Inr (storedAnswer True False False (db_seq db + 1)), stored_db db d (UnixMilli t))"
  using Commit_fresh[OF assms] by (simp add: CommitHubDelivery_def withTx_def)

lemma stored_db_parts:
  "db_seq (stored_db db d n) = db_seq db + 1"
  "db_messages (stored_db db d n) = db_messages db @ [message_row (db_seq db + 1) (new_entry d n) (dl_Body d)]"
  "db_handoff (stored_db db d n) = db_handoff db @ [handoff_row (db_seq db + 1) n]"
  "db_inbox (stored_db db d n) = db_inbox db @ [new_entry d n\<lparr>ie_MessageID := db_seq db + 1\<rparr>]"
  "db_work (stored_db db d n) = db_work db"
  by (simp_all add: stored_db_def Let_def)

text \<open>Two deliveries of one message: the same origin and content under two operations.\<close>

definition same_message :: "Delivery \<Rightarrow> Delivery \<Rightarrow> bool" where
  "same_message d d' \<longleftrightarrow> dl_From d' = dl_From d \<and> dl_Mid d' = dl_Mid d \<and> dl_To d' = dl_To d \<and> dl_ContentType d' = dl_ContentType d \<and>
     dl_MidExpiresAt d' = dl_MidExpiresAt d \<and> dl_Body d' = dl_Body d \<and> dl_ContentSHA256 d' = dl_ContentSHA256 d"

text \<open>C38. The message of one \<open>(origin, mid)\<close> is stored a second time once the entry of its first operation is pruned. An entry is
  kept for a day after its own operation's deadline, which is at most the message's deadline but may be much
  earlier: a second operation of the same message, published within the message's deadline but after that day, is
  stored and handed to the access rules as a new message.\<close>

theorem hub_message_stored_twice:
  assumes "inbox_start db" and "delivery_ok sha d" and "delivery_ok sha d'" and "same_message d d'" and "0 \<le> UnixMilli t"
    and "UnixMilli t \<le> dl_ExpiresAt d" and "dl_ExpiresAt d + (SkewMs + RetentionAfterExpiryMs) < UnixMilli t'"
    and "UnixMilli t' \<le> dl_ExpiresAt d'" and "dl_ExpiresAt d' + SkewMs < 2 ^ 63"
  shows "\<exists>db1 db2 db3 i. CommitHubDelivery sha True d t True 0 db = (Inr (storedAnswer True False False i), db1) \<and>
      PruneHubInbox True t' db1 = (Inr 1, db2) \<and>
      CommitHubDelivery sha True d' t' True 0 db2 = (Inr (storedAnswer True False False (i + 1)), db3) \<and>
      length (filter (\<lambda>m. mr_FromNode m = dl_From d \<and> mr_DecodedText m = dl_Body d) (db_messages db3)) \<ge> 2 \<and>
      map hr_MessageID (filter (\<lambda>h. hr_State h = ''pending'') (db_handoff db3)) = [i, i + 1]"
proof -
  have st: "db_inbox db = []" "db_handoff db = []" using assms(1) by (simp_all add: inbox_start_def)
  have sm: "dl_From d' = dl_From d" "dl_Body d' = dl_Body d" using assms(4) by (simp_all add: same_message_def)
  define db1 where "db1 = stored_db db d (UnixMilli t)"
  define db2 where "db2 = db1\<lparr>db_inbox := []\<rparr>"
  have c1: "CommitHubDelivery sha True d t True 0 db = (Inr (storedAnswer True False False (db_seq db + 1)), db1)"
    unfolding db1_def using assms st
    by (intro CommitHubDelivery_fresh) (simp_all add: sql_ByOp_def sql_ByMid_def Capacity_def SkewMs_def RetentionAfterExpiryMs_def)
  have p: "PruneHubInbox True t' db1 = (Inr 1, db2)"
    using assms(7) st(1)
    by (simp add: PruneHubInbox_def withTx_def pruneHubInbox_def db2_def db1_def stored_db_parts new_entry_def Let_def)
  have seq: "db_seq db2 = db_seq db + 1" "db_inbox db2 = []" "db_handoff db2 = [handoff_row (db_seq db + 1) (UnixMilli t)]"
    "db_messages db2 = db_messages db @ [message_row (db_seq db + 1) (new_entry d (UnixMilli t)) (dl_Body d)]"
    by (simp_all add: db2_def db1_def stored_db_parts st)
  have pos: "0 \<le> UnixMilli t'" using assms(5-7) by (simp add: SkewMs_def RetentionAfterExpiryMs_def)
  have c2: "CommitHubDelivery sha True d' t' True 0 db2 =
      (Inr (storedAnswer True False False (db_seq db + 1 + 1)), stored_db db2 d' (UnixMilli t'))"
    using CommitHubDelivery_fresh[OF assms(3,8) pos assms(9), of db2 0] seq
    by (simp add: sql_ByOp_def sql_ByMid_def Capacity_def handoff_row_def)
  have two: "length (filter (\<lambda>m. mr_FromNode m = dl_From d \<and> mr_DecodedText m = dl_Body d) (db_messages (stored_db db2 d' (UnixMilli t')))) \<ge> 2"
    using sm by (simp add: stored_db_parts seq message_row_def new_entry_def)
  have pend: "map hr_MessageID (filter (\<lambda>h. hr_State h = ''pending'') (db_handoff (stored_db db2 d' (UnixMilli t')))) =
      [db_seq db + 1, db_seq db + 1 + 1]"
    by (simp add: stored_db_parts seq handoff_row_def)
  show ?thesis by (intro exI conjI) (rule c1, rule p, rule c2, rule two, rule pend)
qed

text \<open>A message of the demonstration: ids of version 7, delivered to the bridge \<open>kit\<close>.\<close>

definition demo_id :: "byte \<Rightarrow> string" where
  "demo_id x = format_uuid (v7_bytes (replicate 10 x) 0)"

definition demo_hub_delivery :: "byte \<Rightarrow> int \<Rightarrow> Delivery" where
  "demo_hub_delivery op x = \<lparr>dl_V = 1, dl_OpID = demo_id op, dl_Mid = demo_id 7, dl_From = ''bridge:a'', dl_To = ''bridge:kit'',
     dl_ContentType = ContentTypeText, dl_MidExpiresAt = 1000000000, dl_ExpiresAt = x,
     dl_ContentSHA256 = (case ContentSHA256 id (demo_id 7) ''bridge:kit'' ContentTypeText 1000000000 ''hello'' of Inl _ \<Rightarrow> [] | Inr h \<Rightarrow> h),
     dl_Body = ''hello''\<rparr>"

definition demo_hub_db :: HubDB where
  "demo_hub_db = \<lparr>db_messages = [], db_seq = 0, db_inbox = [], db_handoff = [], db_work = []\<rparr>"

lemma demo_id_valid: "ValidV7 (demo_id x)"
  unfolding demo_id_def by (rule ValidV7_v7) simp

lemma demo_id_parse: "parseCanonical (demo_id x) = Some (v7_bytes (replicate 10 x) 0)"
  unfolding demo_id_def by (rule parse_format, rule v7_bytes_parts(1)) simp

lemma demo_digest: "\<exists>h. ContentSHA256 id (demo_id 7) ''bridge:kit'' ContentTypeText 1000000000 ''hello'' = Inr h"
  using v7_bytes_parts(1)[of "replicate 10 7" 0]
  by (simp add: ContentSHA256_def ContentPreimage_def demo_id_parse ContentTag_def ContentTypeText_def)

lemma demo_delivery_ok: "x \<le> 1000000000 \<Longrightarrow> delivery_ok id (demo_hub_delivery op x)"
  using demo_digest by (auto simp: delivery_ok_def demo_hub_delivery_def demo_id_valid)

lemma demo_hub_start: "inbox_start demo_hub_db"
  by (simp add: inbox_start_def demo_hub_db_def)

theorem hub_message_stored_twice_witness:
  "\<exists>db1 db2 db3 i. CommitHubDelivery id True (demo_hub_delivery 1 5000) 4000000000 True 0 demo_hub_db =
        (Inr (storedAnswer True False False i), db1) \<and>
      PruneHubInbox True 100000000000000 db1 = (Inr 1, db2) \<and>
      CommitHubDelivery id True (demo_hub_delivery 2 900000000) 100000000000000 True 0 db2 =
        (Inr (storedAnswer True False False (i + 1)), db3) \<and>
      length (filter (\<lambda>m. mr_FromNode m = ''bridge:a'' \<and> mr_DecodedText m = ''hello'') (db_messages db3)) \<ge> 2"
proof -
  have "same_message (demo_hub_delivery 1 5000) (demo_hub_delivery 2 900000000)" by (simp add: same_message_def demo_hub_delivery_def)
  from hub_message_stored_twice[OF demo_hub_start demo_delivery_ok demo_delivery_ok this, of 4000000000 100000000000000]
  show ?thesis by (simp add: UnixMilli_def SkewMs_def RetentionAfterExpiryMs_def demo_hub_delivery_def) blast
qed

definition demo_hub_receiver :: HubReceiver where
  "demo_hub_receiver = \<lparr>hv_Principal = ''bridge:kit'', hv_Capacity = 0, hv_handoff = True, hv_stored = True\<rparr>"

definition demo_hub_json :: "bytes \<Rightarrow> Delivery option" where
  "demo_hub_json p = (if p = [1] then Some (demo_hub_delivery 1 5000) else if p = [2] then Some (demo_hub_delivery 2 6000) else None)"

lemma demo_json_int64: "json_int64 demo_hub_json"
  by (simp add: json_int64_def demo_hub_json_def demo_hub_delivery_def)

lemma collision_free_id: "collision_free id"
  by (simp add: collision_free_def)

lemma HandleIn_fresh:
  assumes "json p = Some d" "dl_V d = 1" "dl_To d = hv_Principal r" "BridgeOf (dl_From d) \<noteq> []" and d: "delivery_ok sha d"
    "UnixMilli t \<le> dl_ExpiresAt d" "0 \<le> UnixMilli t" "dl_ExpiresAt d + SkewMs < 2 ^ 63"
    "sql_ByOp db (dl_From d) (dl_OpID d) = None" "sql_ByMid db (dl_From d) (dl_Mid d) = None"
    "int (length (db_inbox db)) < (if hv_Capacity r \<le> 0 then Capacity else hv_Capacity r)" "db_seq db + 1 \<notin> hr_MessageID ` set (db_handoff db)"
  shows "HandleIn sha json r True t True p db =
     (PublishAck \<lparr>ak_V = 1, ak_OpID = dl_OpID d, ak_Mid = dl_Mid d, ak_From = dl_From d, ak_Result = ''stored'', ak_Reason = []\<rparr>
      # (if hv_stored r then [StoredNotify (dl_From d) (dl_Body d)] else []) @ [Wake], stored_db db d (UnixMilli t))"
  using CommitHubDelivery_fresh[OF d] assms(1-4) by (simp add: HandleIn_def storedAnswer_def)

lemma demo_first:
  "HandleIn id demo_hub_json demo_hub_receiver True 4000000000 True [1] demo_hub_db =
     ([PublishAck \<lparr>ak_V = 1, ak_OpID = demo_id 1, ak_Mid = demo_id 7, ak_From = ''bridge:a'', ak_Result = ''stored'', ak_Reason = []\<rparr>,
       StoredNotify ''bridge:a'' ''hello'', Wake], stored_db demo_hub_db (demo_hub_delivery 1 5000) 4000)"
proof -
  have "HandleIn id demo_hub_json demo_hub_receiver True 4000000000 True [1] demo_hub_db = (PublishAck \<lparr>ak_V = 1,
      ak_OpID = dl_OpID (demo_hub_delivery 1 5000), ak_Mid = dl_Mid (demo_hub_delivery 1 5000), ak_From = dl_From (demo_hub_delivery 1 5000),
      ak_Result = ''stored'', ak_Reason = []\<rparr> # (if hv_stored demo_hub_receiver then [StoredNotify (dl_From (demo_hub_delivery 1 5000))
      (dl_Body (demo_hub_delivery 1 5000))] else []) @ [Wake], stored_db demo_hub_db (demo_hub_delivery 1 5000) (UnixMilli 4000000000))"
    by (rule HandleIn_fresh[OF _ _ _ _ demo_delivery_ok])
      (simp_all add: demo_hub_json_def demo_hub_delivery_def demo_hub_receiver_def BridgeOf_def UnixMilli_def SkewMs_def demo_hub_db_def
        sql_ByOp_def sql_ByMid_def Capacity_def)
  then show ?thesis by (simp add: demo_hub_delivery_def demo_hub_receiver_def UnixMilli_def)
qed

theorem hub_inbox_exactly_once_witness:
  "\<exists>es db2. HandleIn id demo_hub_json demo_hub_receiver True 4000000000 True [1] demo_hub_db = (es, db2) \<and> Wake \<in> set es \<and>
     (\<forall>es3 db4. HandleIn id demo_hub_json demo_hub_receiver True 9000000000 False [1] db2 = (es3, db4) \<longrightarrow> length es3 = 1 \<and> db4 = db2) \<and>
     (\<forall>es3 db4. HandleIn id demo_hub_json demo_hub_receiver True 9000000000 False [2] db2 = (es3, db4) \<longrightarrow> db_messages db4 = db_messages db2)"
proof -
  define db2 where "db2 = stored_db demo_hub_db (demo_hub_delivery 1 5000) 4000"
  have j: "demo_hub_json [1] = Some (demo_hub_delivery 1 5000)" "demo_hub_json [2] = Some (demo_hub_delivery 2 6000)"
    by (simp_all add: demo_hub_json_def)
  have same: "dl_From (demo_hub_delivery 2 6000) = dl_From (demo_hub_delivery 1 5000)" "dl_Mid (demo_hub_delivery 2 6000) = dl_Mid (demo_hub_delivery 1 5000)"
    by (simp_all add: demo_hub_delivery_def)
  have st: "ak_Result \<lparr>ak_V = 1, ak_OpID = demo_id 1, ak_Mid = demo_id 7, ak_From = ''bridge:a'', ak_Result = ''stored'', ak_Reason = []\<rparr> = ''stored''"
    by simp
  note W = hub_inbox_exactly_once[OF collision_free_id demo_json_int64 demo_hub_start inbox_steps.none j(1) demo_first[folded db2_def]
    list.set_intros(1) st]
  from W obtain e where "\<forall>es2 db3 p' d' ok' t' est' es3 db4. inbox_steps id demo_hub_json demo_hub_receiver (\<lambda>t. retained (UnixMilli t) e) db2 es2 db3 \<longrightarrow>
       demo_hub_json p' = Some d' \<longrightarrow> HandleIn id demo_hub_json demo_hub_receiver ok' t' est' p' db3 = (es3, db4) \<longrightarrow>
       dl_From d' = dl_From (demo_hub_delivery 1 5000) \<longrightarrow> dl_Mid d' = dl_Mid (demo_hub_delivery 1 5000) \<longrightarrow>
       (\<forall>x y. StoredNotify x y \<notin> set es3) \<and> db_messages db4 = db_messages db3 \<and>
       (\<forall>a'. PublishAck a' \<in> set es3 \<longrightarrow> ak_Result a' = ''stored'' \<longrightarrow> dl_To d' = dl_To (demo_hub_delivery 1 5000) \<and>
          dl_ContentType d' = dl_ContentType (demo_hub_delivery 1 5000) \<and> dl_MidExpiresAt d' = dl_MidExpiresAt (demo_hub_delivery 1 5000) \<and>
          dl_Body d' = dl_Body (demo_hub_delivery 1 5000)) \<and>
       (d' = demo_hub_delivery 1 5000 \<and> ok' \<longrightarrow> es3 = [PublishAck \<lparr>ak_V = 1, ak_OpID = dl_OpID (demo_hub_delivery 1 5000),
          ak_Mid = dl_Mid (demo_hub_delivery 1 5000), ak_From = dl_From (demo_hub_delivery 1 5000), ak_Result = ''stored'', ak_Reason = []\<rparr>] \<and> db4 = db3)"
    by (elim exE conjE)
  note e = this[rule_format]
  have "length es3 = 1 \<and> db4 = db2" if "HandleIn id demo_hub_json demo_hub_receiver True 9000000000 False [1] db2 = (es3, db4)" for es3 db4
    using e[OF inbox_steps.none j(1) that] by simp
  moreover have "db_messages db4 = db_messages db2" if "HandleIn id demo_hub_json demo_hub_receiver True 9000000000 False [2] db2 = (es3, db4)" for es3 db4
    using e[OF inbox_steps.none j(2) that same] by simp
  ultimately show ?thesis
    by (intro exI conjI allI impI) (rule demo_first[folded db2_def], simp, blast+)
qed

section \<open>From a submission to the access rules\<close>

text \<open>What the Hub makes of a submission: its fields and the principal it came from (the contract's \<open>Delivery\<close>).\<close>

definition delivery_of :: "string \<Rightarrow> Submission \<Rightarrow> Delivery" where
  "delivery_of from s = \<lparr>dl_V = sb_V s, dl_OpID = sb_OpID s, dl_Mid = sb_Mid s, dl_From = from, dl_To = sb_To s,
     dl_ContentType = sb_ContentType s, dl_MidExpiresAt = sb_MidExpiresAt s, dl_ExpiresAt = sb_ExpiresAt s,
     dl_ContentSHA256 = sb_ContentSHA256 s, dl_Body = sb_Body s\<rparr>"

lemma NewSubmission_delivery:
  assumes "NewSubmission sha op mid to body midx x = Inr s" "ValidV7 op" "ValidV7 mid" "x \<le> midx"
  shows "delivery_ok sha (delivery_of orig s)" "sb_V s = 1" "sb_OpID s = op" "sb_Mid s = mid" "sb_To s = to" "sb_ExpiresAt s = x"
    "sb_MidExpiresAt s = midx" "sb_Body s = body"
  using assms by (auto simp: NewSubmission_def delivery_of_def delivery_ok_def split: sum.splits)

lemma distinct_map_filter_one:
  "distinct (map f xs) \<Longrightarrow> x \<in> set xs \<Longrightarrow> f x = y \<Longrightarrow> length (filter (\<lambda>z. f z = y) xs) = 1"
proof (induction xs)
  case (Cons a xs)
  show ?case
  proof (cases "f a = y")
    case True
    then have "z \<in> set xs \<Longrightarrow> f z \<noteq> y" for z using Cons.prems(1) by (metis distinct.simps(2) image_eqI list.simps(9) set_map)
    then have "filter (\<lambda>z. f z = y) xs = []" by (simp add: filter_empty_conv)
    then show ?thesis using True by simp
  next
    case False
    then show ?thesis using Cons by auto
  qed
qed simp

text \<open>The rows of the hand-off listing.\<close>

definition rows_for :: "MessageRow list \<Rightarrow> HandoffRow \<Rightarrow> HubHandoff list" where
  "rows_for msgs h = map (\<lambda>m. \<lparr>hh_MessageID = hr_MessageID h, hh_From = mr_FromNode m, hh_To = mr_ToNode m, hh_Text = mr_DecodedText m\<rparr>)
     (filter (\<lambda>m. mr_ID m = hr_MessageID h) msgs)"

definition pending_rows :: "HubDB \<Rightarrow> HubHandoff list" where
  "pending_rows db = concat (map (rows_for (db_messages db)) (filter (\<lambda>h. hr_State h = ''pending'') (db_handoff db)))"

lemma PendingHubHandoffs_set:
  assumes "length (pending_rows db) \<le> 50"
  shows "set (PendingHubHandoffs db 50) = set (pending_rows db)"
proof -
  have "PendingHubHandoffs db 50 = take 50 (sort_key hh_MessageID (pending_rows db))"
    by (simp add: PendingHubHandoffs_def pending_rows_def rows_for_def[abs_def] Let_def)
  also have "\<dots> = sort_key hh_MessageID (pending_rows db)" using assms by simp
  finally show ?thesis by simp
qed

text \<open>A pass in which every callback succeeds and every marking is carried out.\<close>

lemma handoff_loop_step:
  assumes "\<And>h w. fst (fn h w)" "\<And>i. mark i"
  obtains db2 where "handoff_loop fn mark now (x # hs) db = (HandedOff x True # fst (handoff_loop fn mark now hs db2), snd (handoff_loop fn mark now hs db2))"
    "\<forall>k. k \<in> set (db_handoff db2) \<longrightarrow> hr_State k = ''pending'' \<longrightarrow> k \<in> set (db_handoff db) \<and> hr_MessageID k \<noteq> hh_MessageID x"
proof -
  obtain w where fn: "fn x (db_work db) = (True, w)" using assms(1)[of x "db_work db"] by (cases "fn x (db_work db)") auto
  define db2 where "db2 = snd (MarkHubHandoffDone True (hh_MessageID x) now (db\<lparr>db_work := w\<rparr>))"
  have "handoff_loop fn mark now (x # hs) db = (HandedOff x True # fst (handoff_loop fn mark now hs db2), snd (handoff_loop fn mark now hs db2))"
    using fn assms(2) by (simp add: db2_def[symmetric] split: prod.splits)
  then show thesis by (rule that) (auto simp: db2_def MarkHubHandoffDone_def withTx_def split: if_splits)
qed

lemma handoff_loop_all:
  assumes "\<And>h w. fst (fn h w)" "\<And>i. mark i"
  shows "fst (handoff_loop fn mark now hs db) = map (\<lambda>h. HandedOff h True) hs"
proof (induction hs arbitrary: db)
  case (Cons x hs)
  obtain db2 where "handoff_loop fn mark now (x # hs) db = (HandedOff x True # fst (handoff_loop fn mark now hs db2), snd (handoff_loop fn mark now hs db2))"
    by (rule handoff_loop_step[OF assms])
  then show ?case by (simp only: fst_conv Cons.IH list.map)
qed simp

lemma handoff_loop_pending:
  assumes "\<And>h w. fst (fn h w)" "\<And>i. mark i" "h \<in> set (db_handoff (snd (handoff_loop fn mark now hs db)))" "hr_State h = ''pending''"
  shows "h \<in> set (db_handoff db) \<and> hr_MessageID h \<notin> hh_MessageID ` set hs"
  using assms(3)
proof (induction hs arbitrary: db)
  case (Cons x hs)
  obtain db2 where L: "handoff_loop fn mark now (x # hs) db = (HandedOff x True # fst (handoff_loop fn mark now hs db2), snd (handoff_loop fn mark now hs db2))"
    and m: "\<forall>k. k \<in> set (db_handoff db2) \<longrightarrow> hr_State k = ''pending'' \<longrightarrow> k \<in> set (db_handoff db) \<and> hr_MessageID k \<noteq> hh_MessageID x"
    by (rule handoff_loop_step[OF assms(1,2)])
  have "h \<in> set (db_handoff db2) \<and> hr_MessageID h \<notin> hh_MessageID ` set hs"
    using Cons.prems by (intro Cons.IH) (simp only: L snd_conv)
  then show ?case using m assms(4) by simp
qed simp

lemma HandOff_drains:
  assumes "hv_handoff r" "length (pending_rows db) \<le> 50" "\<And>h w. fst (fn h w)" "\<And>i. mark i"
  obtains es db' where "HandOff r fn mark now db = (es, db')" "set es = (\<lambda>h. HandedOff h True) ` set (pending_rows db)" "pending_rows db' = []"
proof -
  define hs where "hs = PendingHubHandoffs db 50"
  obtain es db' where H: "handoff_loop fn mark now hs db = (es, db')" by force
  have hs: "set hs = set (pending_rows db)" using PendingHubHandoffs_set[OF assms(2)] by (simp add: hs_def)
  have es: "es = map (\<lambda>h. HandedOff h True) hs" using handoff_loop_all[of fn mark now hs db, OF assms(3,4)] H by simp
  have msgs: "db_messages db' = db_messages db" using handoff_loop_parts[OF H] by simp
  have "filter (\<lambda>m. mr_ID m = hr_MessageID h) (db_messages db') = []" if h: "h \<in> set (db_handoff db')" "hr_State h = ''pending''" for h
  proof (rule ccontr)
    assume "\<not> ?thesis"
    then obtain m where m: "m \<in> set (db_messages db)" "mr_ID m = hr_MessageID h" by (auto simp: filter_empty_conv msgs)
    have k: "h \<in> set (db_handoff db)" "hr_MessageID h \<notin> hh_MessageID ` set hs"
      using handoff_loop_pending[of fn mark h now hs db, OF assms(3,4)] H h by simp_all
    have "\<lparr>hh_MessageID = hr_MessageID h, hh_From = mr_FromNode m, hh_To = mr_ToNode m, hh_Text = mr_DecodedText m\<rparr> \<in> set (pending_rows db)"
      using m k(1) h(2) by (auto simp: pending_rows_def rows_for_def)
    then show False using k(2) unfolding hs by force
  qed
  then have "pending_rows db' = []" unfolding pending_rows_def by (simp add: rows_for_def)
  then show thesis using that[of es db'] H assms(1) es hs by (simp add: HandOff_def hs_def)
qed


definition demo_submission :: "digest_error + Submission" where
  "demo_submission = NewSubmission id (demo_id 1) (demo_id 7) ''bridge:kit'' ''hello'' 1000000000 5000"


text \<open>C36. The inbox tables are consistent in every reachable state. One row per \<open>(origin, op_id)\<close>; the operations of one
  \<open>(origin, mid)\<close> have one content digest and one stored message; there are never more rows than the capacity; every row's message has
  exactly one hand-off record; and the message itself, as long as it has not been purged, is from the row's origin and its text
  is one whose digest the row holds.\<close>

theorem hub_inbox_consistent:
  assumes "json_int64 json" and "inbox_start db0" and "inbox_steps sha json r (\<lambda>_. True) db0 es db"
  shows "distinct (map (\<lambda>e. (ie_Origin e, ie_OpID e)) (db_inbox db)) \<and>
    int (length (db_inbox db)) \<le> (if hv_Capacity r \<le> 0 then Capacity else hv_Capacity r) \<and>
    (\<forall>e\<in>set (db_inbox db). length (filter (\<lambda>h. hr_MessageID h = ie_MessageID e) (db_handoff db)) = 1 \<and>
       (\<forall>e'\<in>set (db_inbox db). ie_Origin e' = ie_Origin e \<and> ie_Mid e' = ie_Mid e \<longrightarrow>
          ie_ContentSHA256 e' = ie_ContentSHA256 e \<and> ie_MessageID e' = ie_MessageID e) \<and>
       (\<forall>m\<in>set (db_messages db). mr_ID m = ie_MessageID e \<longrightarrow> row_matches sha e m))"
proof -
  have inv: "inbox_inv sha (hv_Capacity r) db" by (rule inv_steps[OF assms(3,1) inv_start[OF assms(2)]])
  have hnd: "\<forall>e\<in>set (db_inbox db). (\<exists>h\<in>set (db_handoff db). hr_MessageID h = ie_MessageID e) \<and>
      (\<forall>m\<in>set (db_messages db). mr_ID m = ie_MessageID e \<longrightarrow> row_matches sha e m)"
    using inv unfolding inbox_inv_def by (elim conjE)
  have one: "length (filter (\<lambda>h. hr_MessageID h = ie_MessageID e) (db_handoff db)) = 1" if ei: "e \<in> set (db_inbox db)" for e
  proof -
    obtain h where h: "h \<in> set (db_handoff db)" "hr_MessageID h = ie_MessageID e" using bspec[OF hnd ei] by blast
    have "distinct (map hr_MessageID (db_handoff db))" using inv by (simp add: inbox_inv_def)
    then show ?thesis using h by (rule distinct_map_filter_one)
  qed
  have key: "distinct (map (\<lambda>e. (ie_Origin e, ie_OpID e)) (db_inbox db))"
    using inv unfolding inbox_inv_def sql_ok_def inbox_key_def[abs_def] by (elim conjE)
  have om: "one_message (set (db_inbox db))" using inv unfolding inbox_inv_def by (elim conjE)
  have same: "ie_ContentSHA256 e' = ie_ContentSHA256 e" "ie_MessageID e' = ie_MessageID e"
    if "e \<in> set (db_inbox db)" "e' \<in> set (db_inbox db)" "ie_Origin e' = ie_Origin e \<and> ie_Mid e' = ie_Mid e" for e e'
    using bspec[OF bspec[OF om[unfolded one_message_def] that(2)] that(1)] that(3) by simp_all
  have cap: "int (length (db_inbox db)) \<le> (if hv_Capacity r \<le> 0 then Capacity else hv_Capacity r)"
    using inv unfolding inbox_inv_def by (elim conjE)
  have row: "row_matches sha e m" if "e \<in> set (db_inbox db)" "m \<in> set (db_messages db)" "mr_ID m = ie_MessageID e" for e m
    using bspec[OF hnd that(1)] that(2,3) by blast
  show ?thesis by (intro conjI ballI impI key cap) (erule one, (erule (2) same)+, erule (2) row)
qed

theorem hub_inbox_consistent_witness:
  "\<exists>db. inbox_steps id demo_hub_json demo_hub_receiver (\<lambda>_. True) demo_hub_db
      [PublishAck \<lparr>ak_V = 1, ak_OpID = demo_id 1, ak_Mid = demo_id 7, ak_From = ''bridge:a'', ak_Result = ''stored'', ak_Reason = []\<rparr>,
       StoredNotify ''bridge:a'' ''hello'', Wake] db \<and>
    (\<forall>e\<in>set (db_inbox db). length (filter (\<lambda>h. hr_MessageID h = ie_MessageID e) (db_handoff db)) = 1)"
proof -
  note run = inbox_steps.more[OF inbox_steps.none inbox_step.delivered[OF demo_first] TrueI, simplified]
  show ?thesis by (rule exI, rule conjI[OF run], rule ballI)
    (rule hub_inbox_consistent[OF demo_json_int64 demo_hub_start run, THEN conjunct2, THEN conjunct2, rule_format, THEN conjunct1])
qed

end
