(* ===== verification/HubReduce.thy ===== *)
theory HubReduce
  imports HubIds "HOL-Library.Char_ord" "HOL-Library.List_Lexorder"
begin

section \<open>The reducer of an operation's evidence\<close>

text \<open>
  \<open>internal/hubmsg/reducer.go\<close>: what a sender knows of an operation is the set of valid events reported about it, and its
  state the strongest class among them. The maps of \<open>Reduce\<close> are association lists; what is ranged over them is sorted
  before it is returned, with the order of \<open>sort.Strings\<close> (bytes, then length). \<open>projection\<close> is the declarative reading over
  the set of events: \<open>Reduce\<close> equals it whenever an event id stands for one class and reason, so neither order nor
  repetition matters; without that it does.
\<close>

record Event =
  ev_V :: int
  ev_Source :: string
  ev_OpID :: string
  ev_Mid :: string
  ev_Recipient :: string
  ev_EventID :: string
  ev_Rev :: int
  ev_Class :: string
  ev_Kind :: string
  ev_Reason :: string
  ev_Authority :: string
  ev_Scope :: string
  ev_Detail :: string
  ev_At :: string

record Operation =
  op_OpID :: string
  op_Mid :: string
  op_Recipient :: string

record Projection =
  pj_State :: string
  pj_Conflict :: bool
  pj_FailedReasons :: "string list"
  pj_Evidence :: "string list"
  pj_Rejected :: "string list"

definition allowedKinds :: "(string \<times> string \<times> string) list" where
  "allowedKinds =
     [(''hub_broker_puback'', ''accepted'', ''local''),
      (''hub_forwarded'', ''forwarded'', ''hub''),
      (''recipient_app_stored'', ''completed'', ''recipient''),
      (''recipient_refused'', ''failed'', ''recipient''),
      (''recipient_refused'', ''expired'', ''recipient''),
      (''hub_refused'', ''failed'', ''hub''),
      (''hub_expired'', ''expired'', ''hub''),
      (''hub_unknown'', ''unknown'', ''hub''),
      (''recipient_busy'', ''unknown'', ''recipient'')]"

definition SourceOf :: "(string, string) table" where
  "SourceOf = [(''local'', ''local''), (''hub'', ''status_topic''), (''recipient'', ''status_topic'')]"

definition ProjectionOrder :: "string list" where
  "ProjectionOrder = [''completed'', ''failed'', ''expired'', ''forwarded'', ''unknown'', ''accepted'', ''pending'']"

text \<open>Reading a missing key of a Go map gives the zero value, the empty string.\<close>

definition source_of :: "string \<Rightarrow> string" where
  "source_of a = case_option [] id (map_of SourceOf a)"

definition Valid :: "Operation \<Rightarrow> Event \<Rightarrow> bool" where
  "Valid op e \<longleftrightarrow> ev_OpID e = op_OpID op \<and> ev_Mid e = op_Mid op \<and> ev_Recipient e = op_Recipient op \<and>
     (ev_Kind e, ev_Class e, ev_Authority e) \<in> set allowedKinds \<and> source_of (ev_Authority e) \<noteq> [] \<and>
     source_of (ev_Authority e) = ev_Source e \<and> ValidV7 (ev_EventID e)"

fun reduce_collect :: "Operation \<Rightarrow> Event list \<Rightarrow> (string, Event) table \<times> string list \<Rightarrow> (string, Event) table \<times> string list" where
  "reduce_collect op [] hr = hr"
| "reduce_collect op (e # es) (held, rejected) =
     reduce_collect op es
       (if Valid op e then
          (if map_of held (ev_EventID e) = None then (AList.update (ev_EventID e) e held, rejected) else (held, rejected))
        else (held, List.insert (ev_EventID e) rejected))"

definition failed_reason :: "Event \<Rightarrow> bool" where
  "failed_reason e \<longleftrightarrow> (ev_Class e = ''failed'' \<or> ev_Class e = ''expired'') \<and> ev_Reason e \<noteq> []"

definition Reduce :: "Operation \<Rightarrow> Event list \<Rightarrow> Projection" where
  "Reduce op events =
     (let (held, rejected) = reduce_collect op events ([], []);
          classes = map (ev_Class \<circ> snd) held;
          reasons = remdups (map (ev_Reason \<circ> snd) (filter (failed_reason \<circ> snd) held)) in
      \<lparr>pj_State = (case List.find (\<lambda>c. c \<in> set classes) ProjectionOrder of None \<Rightarrow> ''pending'' | Some c \<Rightarrow> c),
       pj_Conflict = (''completed'' \<in> set classes \<and> ''failed'' \<in> set classes),
       pj_FailedReasons = sort reasons,
       pj_Evidence = sort (map fst held),
       pj_Rejected = sort (filter (\<lambda>i. map_of held i = None) rejected)\<rparr>)"

section \<open>The declarative reading\<close>

definition strongest :: "string set \<Rightarrow> string" where
  "strongest cs = (case List.find (\<lambda>c. c \<in> cs) ProjectionOrder of None \<Rightarrow> ''pending'' | Some c \<Rightarrow> c)"

definition projection :: "Operation \<Rightarrow> Event set \<Rightarrow> Projection" where
  "projection op S =
     (let E = {e \<in> S. Valid op e} in
      \<lparr>pj_State = strongest (ev_Class ` E),
       pj_Conflict = (''completed'' \<in> ev_Class ` E \<and> ''failed'' \<in> ev_Class ` E),
       pj_FailedReasons = sorted_list_of_set (ev_Reason ` {e \<in> E. failed_reason e}),
       pj_Evidence = sorted_list_of_set (ev_EventID ` E),
       pj_Rejected = sorted_list_of_set (ev_EventID ` {e \<in> S. \<not> Valid op e} - ev_EventID ` E)\<rparr>)"

text \<open>An event id stands for one class and reason.\<close>

definition ids_agree :: "Operation \<Rightarrow> Event set \<Rightarrow> bool" where
  "ids_agree op S \<longleftrightarrow> (\<forall>e\<in>S. \<forall>e'\<in>S. Valid op e \<longrightarrow> Valid op e' \<longrightarrow> ev_EventID e = ev_EventID e' \<longrightarrow>
     ev_Class e = ev_Class e' \<and> ev_Reason e = ev_Reason e')"

text \<open>What the first loop holds: for every id of a valid event one such event, and the ids of the invalid ones.\<close>

definition collected :: "Operation \<Rightarrow> Event set \<Rightarrow> (string, Event) table \<Rightarrow> string list \<Rightarrow> bool" where
  "collected op S held rejected \<longleftrightarrow> table_ok held \<and> distinct rejected \<and>
     (\<forall>(i, e)\<in>set held. e \<in> S \<and> Valid op e \<and> ev_EventID e = i) \<and>
     fst ` set held = ev_EventID ` {e \<in> S. Valid op e} \<and>
     set rejected = ev_EventID ` {e \<in> S. \<not> Valid op e}"

lemma update_new: "map_of t k = None \<Longrightarrow> AList.update k v t = t @ [(k, v)]"
  by (induction t) (auto split: if_splits)

lemma collected_step:
  assumes "collected op S held rejected"
  shows "Valid op e \<Longrightarrow> map_of held (ev_EventID e) = None \<Longrightarrow> collected op (insert e S) (AList.update (ev_EventID e) e held) rejected"
    and "Valid op e \<Longrightarrow> map_of held (ev_EventID e) \<noteq> None \<Longrightarrow> collected op (insert e S) held rejected"
    and "\<not> Valid op e \<Longrightarrow> collected op (insert e S) held (List.insert (ev_EventID e) rejected)"
proof -
  note c = assms[unfolded collected_def]
  have ins: "{x \<in> insert e S. Valid op x} = (if Valid op e then insert e {x \<in> S. Valid op x} else {x \<in> S. Valid op x})"
    "{x \<in> insert e S. \<not> Valid op x} = (if Valid op e then {x \<in> S. \<not> Valid op x} else insert e {x \<in> S. \<not> Valid op x})" by auto
  show "collected op (insert e S) (AList.update (ev_EventID e) e held) rejected" if "Valid op e" "map_of held (ev_EventID e) = None"
  proof -
    have u: "AList.update (ev_EventID e) e held = held @ [(ev_EventID e, e)]" by (rule update_new[OF that(2)])
    have t: "table_ok (AList.update (ev_EventID e) e held)" using c by simp
    show ?thesis unfolding collected_def ins using c that(1) t by (auto simp: u)
  qed
  show "collected op (insert e S) held rejected" if "Valid op e" "map_of held (ev_EventID e) \<noteq> None"
  proof -
    have "ev_EventID e \<in> fst ` set held" using that(2) by (simp add: map_of_eq_None_iff)
    then show ?thesis unfolding collected_def ins using c that(1) by auto
  qed
  show "collected op (insert e S) held (List.insert (ev_EventID e) rejected)" if "\<not> Valid op e"
    unfolding collected_def ins using c that by (auto simp: distinct_insert)
qed

lemma reduce_collect_collected:
  "collected op S held rejected \<Longrightarrow> reduce_collect op es (held, rejected) = (held', rejected') \<Longrightarrow> collected op (S \<union> set es) held' rejected'"
proof (induction es arbitrary: S held rejected)
  case (Cons e es)
  have S: "S \<union> set (e # es) = insert e S \<union> set es" by simp
  consider "Valid op e" "map_of held (ev_EventID e) = None" | "Valid op e" "map_of held (ev_EventID e) \<noteq> None" | "\<not> Valid op e" by blast
  then show ?case
  proof cases
    case 1
    then have "reduce_collect op es (AList.update (ev_EventID e) e held, rejected) = (held', rejected')" using Cons.prems(2) by simp
    then show ?thesis unfolding S by (rule Cons.IH[OF collected_step(1)[OF Cons.prems(1) 1]])
  next
    case 2
    then have "reduce_collect op es (held, rejected) = (held', rejected')" using Cons.prems(2) by (simp only: reduce_collect.simps if_True if_False)
    then show ?thesis unfolding S by (rule Cons.IH[OF collected_step(2)[OF Cons.prems(1) 2]])
  next
    case 3
    then have "reduce_collect op es (held, List.insert (ev_EventID e) rejected) = (held', rejected')" using Cons.prems(2) by simp
    then show ?thesis unfolding S by (rule Cons.IH[OF collected_step(3)[OF Cons.prems(1) 3]])
  qed
qed simp

lemma sort_distinct_set: "distinct xs \<Longrightarrow> sort xs = sorted_list_of_set (set xs)"
  by (simp add: sorted_list_of_set_sort_remdups distinct_remdups_id)

lemma class_image:
  assumes "collected op S held rejected" "ids_agree op S"
  shows "(ev_Class \<circ> snd) ` set held = ev_Class ` {e \<in> S. Valid op e}"
    "(ev_Reason \<circ> snd) ` {p \<in> set held. failed_reason (snd p)} = ev_Reason ` {e \<in> {e \<in> S. Valid op e}. failed_reason e}"
proof -
  note c = assms(1)[unfolded collected_def]
  have sub: "e \<in> S" "Valid op e" "ev_EventID e = i" if "(i, e) \<in> set held" for i e using c that by auto
  have rep: "\<exists>e'. (ev_EventID e, e') \<in> set held \<and> ev_Class e' = ev_Class e \<and> ev_Reason e' = ev_Reason e" if "e \<in> S" "Valid op e" for e
  proof -
    have "ev_EventID e \<in> fst ` set held" using c that by blast
    then obtain e' where h: "(ev_EventID e, e') \<in> set held" by auto
    then have "ev_Class e' = ev_Class e \<and> ev_Reason e' = ev_Reason e"
      using sub[OF h] that assms(2) unfolding ids_agree_def by blast
    with h show ?thesis by blast
  qed
  show "(ev_Class \<circ> snd) ` set held = ev_Class ` {e \<in> S. Valid op e}"
  proof (intro equalityI subsetI)
    fix x assume "x \<in> ev_Class ` {e \<in> S. Valid op e}"
    then obtain e where "e \<in> S" "Valid op e" "x = ev_Class e" by blast
    with rep[of e] show "x \<in> (ev_Class \<circ> snd) ` set held" by force
  qed (use sub in force)
  show "(ev_Reason \<circ> snd) ` {p \<in> set held. failed_reason (snd p)} = ev_Reason ` {e \<in> {e \<in> S. Valid op e}. failed_reason e}"
  proof (intro equalityI subsetI)
    fix x assume "x \<in> ev_Reason ` {e \<in> {e \<in> S. Valid op e}. failed_reason e}"
    then obtain e where e: "e \<in> S" "Valid op e" "failed_reason e" "x = ev_Reason e" by blast
    from rep[OF e(1,2)] obtain e' where e': "(ev_EventID e, e') \<in> set held" "ev_Class e' = ev_Class e" "ev_Reason e' = ev_Reason e" by blast
    then have "failed_reason e'" using e(3) by (simp add: failed_reason_def)
    with e' e(4) show "x \<in> (ev_Reason \<circ> snd) ` {p \<in> set held. failed_reason (snd p)}" by force
  qed (use sub in force)
qed

lemma Reduce_projection:
  assumes "ids_agree op (set events)"
  shows "Reduce op events = projection op (set events)"
proof -
  obtain held rejected where R: "reduce_collect op events ([], []) = (held, rejected)" by force
  have "collected op {} [] []" by (simp add: collected_def)
  from reduce_collect_collected[OF this R] have C: "collected op (set events) held rejected" by simp
  note c = C[unfolded collected_def] and im = class_image[OF C assms]
  have ev: "sort (map fst held) = sorted_list_of_set (ev_EventID ` {e \<in> set events. Valid op e})"
    using c by (simp add: sort_distinct_set table_ok_def)
  have "set (filter (\<lambda>i. map_of held i = None) rejected) = ev_EventID ` {e \<in> set events. \<not> Valid op e} - ev_EventID ` {e \<in> set events. Valid op e}"
    using c by (auto simp: map_of_eq_None_iff)
  then have rj: "sort (filter (\<lambda>i. map_of held i = None) rejected) =
      sorted_list_of_set (ev_EventID ` {e \<in> set events. \<not> Valid op e} - ev_EventID ` {e \<in> set events. Valid op e})"
    using c by (simp add: sort_distinct_set)
  have "set (remdups (map (ev_Reason \<circ> snd) (filter (failed_reason \<circ> snd) held))) =
      ev_Reason ` {e \<in> {e \<in> set events. Valid op e}. failed_reason e}"
    using im(2) by simp
  then have rs: "sort (remdups (map (ev_Reason \<circ> snd) (filter (failed_reason \<circ> snd) held))) =
      sorted_list_of_set (ev_Reason ` {e \<in> {e \<in> set events. Valid op e}. failed_reason e})"
    by (simp only: sort_distinct_set distinct_remdups)
  have cl: "set (map (ev_Class \<circ> snd) held) = ev_Class ` {e \<in> set events. Valid op e}" using im(1) by simp
  show ?thesis unfolding Reduce_def projection_def R Let_def prod.case ev rj rs cl strongest_def ..
qed

text \<open>C39. The reducer computes the declarative projection of the set of events. If every event id stands for one class and reason,
  the result is the strongest class of the valid events, the conflict of completed and failed, and the sorted reasons, evidence
  and rejected ids, as functions of the set alone: any order and any duplicates of the same events reduce alike.\<close>

theorem reduce_is_projection:
  assumes "ids_agree op (set events)"
  shows "Reduce op events = projection op (set events)"
  by (rule Reduce_projection[OF assms])

definition sample_event :: "byte \<Rightarrow> string \<Rightarrow> string \<Rightarrow> string \<Rightarrow> Event" where
  "sample_event x kind cls auth = \<lparr>ev_V = 1, ev_Source = ''status_topic'', ev_OpID = ''op'', ev_Mid = ''mid'', ev_Recipient = ''bridge:kit'',
     ev_EventID = format_uuid (v7_bytes (replicate 10 x) 0), ev_Rev = 1, ev_Class = cls, ev_Kind = kind, ev_Reason = [], ev_Authority = auth,
     ev_Scope = [], ev_Detail = [], ev_At = []\<rparr>"

definition sample_op :: Operation where
  "sample_op = \<lparr>op_OpID = ''op'', op_Mid = ''mid'', op_Recipient = ''bridge:kit''\<rparr>"

lemma sample_valid:
  "Valid sample_op (sample_event x ''hub_forwarded'' ''forwarded'' ''hub'')"
  "Valid sample_op (sample_event x ''recipient_app_stored'' ''completed'' ''recipient'')"
  using ValidV7_v7[of "replicate 10 x" 0]
  by (simp_all add: Valid_def sample_op_def sample_event_def allowedKinds_def source_of_def SourceOf_def)

lemma sample_ids: "format_uuid (v7_bytes (replicate 10 1) 0) \<noteq> format_uuid (v7_bytes (replicate 10 2) 0)"
proof
  assume "format_uuid (v7_bytes (replicate 10 1) 0) = format_uuid (v7_bytes (replicate 10 2) 0)"
  then have "parseCanonical (format_uuid (v7_bytes (replicate 10 1) 0)) = parseCanonical (format_uuid (v7_bytes (replicate 10 2) 0))" by simp
  then have "v7_bytes (replicate 10 1) 0 = v7_bytes (replicate 10 2) 0"
    using parse_format[OF v7_bytes_parts(1)[of "replicate 10 1" 0]] parse_format[OF v7_bytes_parts(1)[of "replicate 10 2" 0]] by simp
  then have "v7_bytes (replicate 10 1) 0 ! 15 = v7_bytes (replicate 10 2) 0 ! 15" by simp
  then show False by (simp add: v7_bytes_def set_version_def UnixMilli_def nth_append)
qed

theorem reduce_is_projection_witness:
  "pj_State (Reduce sample_op [sample_event 1 ''hub_forwarded'' ''forwarded'' ''hub'', sample_event 2 ''recipient_app_stored'' ''completed'' ''recipient'',
     sample_event 1 ''hub_forwarded'' ''forwarded'' ''hub'']) = ''completed''"
proof -
  define a where "a = sample_event 1 ''hub_forwarded'' ''forwarded'' ''hub''"
  define b where "b = sample_event 2 ''recipient_app_stored'' ''completed'' ''recipient''"
  have v: "Valid sample_op a" "Valid sample_op b" by (simp_all add: a_def b_def sample_valid)
  have ids: "ev_EventID a \<noteq> ev_EventID b" using sample_ids by (simp add: a_def b_def sample_event_def)
  have "ids_agree sample_op (set [a, b, a])" using ids by (auto simp: ids_agree_def)
  from reduce_is_projection[OF this]
  have "pj_State (Reduce sample_op [a, b, a]) = strongest (ev_Class ` {e \<in> {a, b}. Valid sample_op e})"
    by (simp add: projection_def Let_def insert_commute)
  also have "{e \<in> {a, b}. Valid sample_op e} = {a, b}" using v by blast
  finally show ?thesis by (simp add: strongest_def ProjectionOrder_def a_def b_def sample_event_def)
qed

lemma valid_class: "Valid op e \<Longrightarrow> ev_Class e \<in> set ProjectionOrder"
  by (auto simp: Valid_def allowedKinds_def ProjectionOrder_def)

lemma reduce_collect_copies:
  assumes "\<forall>x\<in>set es. ev_EventID x = ev_EventID e \<and> Valid op x"
  shows "reduce_collect op es ([(ev_EventID e, e)], []) = ([(ev_EventID e, e)], [])"
  using assms by (induction es) auto

lemma strongest_single: "c \<in> set ProjectionOrder \<Longrightarrow> strongest {c} = c"
  by (auto simp: strongest_def ProjectionOrder_def)

lemma reduce_copies:
  assumes "Valid op e" "\<forall>x\<in>set es. ev_EventID x = ev_EventID e \<and> Valid op x"
  shows "pj_State (Reduce op (e # es)) = ev_Class e"
  using strongest_single[OF valid_class[OF assms(1)]] reduce_collect_copies[OF assms(2)] assms(1)
  by (simp add: Reduce_def strongest_def)

text \<open>C40. When one event id comes with two classes, the order of arrival decides the state for good: the first valid event under an id
  is held and every later one is dropped, so a completion that reuses the id of an earlier, weaker event never counts, although it does
  when it comes first.\<close>

theorem reduce_first_copy_decides:
  assumes "Valid op e" and "Valid op e'" and "ev_EventID e = ev_EventID e'" and "set es \<subseteq> {e, e'}"
  shows "pj_State (Reduce op (e # es)) = ev_Class e \<and> pj_State (Reduce op (e' # es)) = ev_Class e'"
  using assms by (auto intro!: reduce_copies)

theorem reduce_first_copy_decides_witness:
  "pj_State (Reduce sample_op [sample_event 1 ''hub_forwarded'' ''forwarded'' ''hub'', sample_event 1 ''recipient_app_stored'' ''completed'' ''recipient'']) =
     ''forwarded'' \<and>
   pj_State (Reduce sample_op [sample_event 1 ''recipient_app_stored'' ''completed'' ''recipient'', sample_event 1 ''recipient_app_stored'' ''completed'' ''recipient'']) =
     ''completed''"
  using reduce_first_copy_decides[OF sample_valid(1)[of 1] sample_valid(2)[of 1],
    of "[sample_event 1 ''recipient_app_stored'' ''completed'' ''recipient'']"]
  by (simp add: sample_event_def)

end
