(* ===== verification/Spec2Isabelle.thy ===== *)
theory Spec2Isabelle
  imports Framing Packet Ifac Replay Tokens Seen Announces Relay Access Resource HubInbox HubReduce
begin

text \<open>
  A verification library for the MeshSat bridge, a Go program that carries messages between radio, satellite,
  cellular and Internet links and speaks the Reticulum protocol on all of them.

  \<^bold>\<open>The program and its parts.\<close> Bytes arrive from a link through a framing layer (\<open>internal/kiss\<close>,
  \<open>internal/reticulum/hdlc.go\<close>, \<open>internal/routing/imt_framing.go\<close>), optionally behind an interface access
  code (\<open>ifac.go\<close>). A frame is a Reticulum packet (\<open>packet.go\<close>); the processor
  (\<open>internal/engine/processor.go\<close>) dispatches it by type and context: announces go to the announce relay and the
  destination table (\<open>internal/routing\<close>), data packets to path discovery and the resource transfer manager. Messages of the
  bridge itself pass duplicate detection (\<open>internal/dedup\<close>), the access rules (\<open>internal/rules\<close>) and rate
  limits (\<open>internal/ratelimit\<close>).

  \<^bold>\<open>The theories.\<close>
  \<^item> \<open>Prelude\<close>: types, slices, little- and big-endian integers, association-list tables, and the locales \<open>finite_table\<close>,
    \<open>codec\<close> and \<open>strict_codec\<close> that the components interpret.
  \<^item> \<open>Framing\<close>: KISS and HDLC framing (\<open>kiss.go\<close>, \<open>hdlc.go\<close>). The locale \<open>byte_stuffing\<close> is the contract
    both escapings meet; streams cut at any points are delivered exactly, and buffers stay bounded.
  \<^item> \<open>Packet\<close>: headers, packet hashes, transport rewriting, path requests and responses (\<open>packet.go\<close>, \<open>packethash.go\<close>,
    \<open>path.go\<close>). The codecs are bijections; the hash does not change on the way.
  \<^item> \<open>Ifac\<close>: access codes (\<open>ifac.go\<close>, \<open>hkdf.go\<close>): unwrapping accepts exactly what wrapping produces.
  \<^item> \<open>Replay\<close>: the anti-replay window of out-of-band frames (\<open>internal/oob/replay.go\<close>), a refinement of the set of
    accepted counters.
  \<^item> \<open>Tokens\<close>: the two token buckets (\<open>limiter.go\<close>, \<open>bandwidth.go\<close>) as interpretations of \<open>token_bucket\<close>, with
    the bound on what is admitted in any schedule of calls.
  \<^item> \<open>Seen\<close>: the two duplicate caches (\<open>dedup.go\<close>, \<open>imt_framing.go\<close>) as interpretations of \<open>seen_cache\<close>.
  \<^item> \<open>Announces\<close>: identities, announces and delivery proofs (\<open>identity.go\<close>, \<open>announce.go\<close>, \<open>proof.go\<close>). \<open>relay_hop\<close> and
    \<open>transported\<close> are the inductive relations of what other nodes do to a packet.
  \<^item> \<open>Relay\<close>: the announce relay, the destination table and its database rows (\<open>relay.go\<close>, \<open>table.go\<close>,
    \<open>routing_queries.go\<close>). \<open>relay_run\<close> is the inductive relation of the histories of a relay.
  \<^item> \<open>Access\<close>: access rules (\<open>access.go\<close>), with the evaluation loop shown equal to its declarative reading.
  \<^item> \<open>Galois\<close>, \<open>Rlnc\<close>: network coding (\<open>rlnc.go\<close>, \<open>rlnc_resource.go\<close>). The tables make the bytes an instance of the class
    \<open>field\<close>; elimination on the flat matrix decides rank and returns the one solution.
  \<^item> \<open>Resource\<close>: resource transfer on both sides (\<open>internal/reticulum/resource.go\<close>, \<open>internal/routing/resource.go\<close>) and its
    dispatch in the processor. The bitmap interprets \<open>outstanding\<close>, a set of segments still to come; \<open>transfer_run\<close> is the
    inductive relation of histories with arbitrary peers.
  \<^item> \<open>HubIds\<close>, \<open>HubInbox\<close>: the Hub route (\<open>internal/hubmsg\<close>, \<open>internal/hubroute/route.go\<close>,
    \<open>internal/database/hubmsg.go\<close>). Ids and digests; the receiver's commit decision over the interface \<open>InboxTx\<close>, whose
    contract is the locale \<open>inbox_tx\<close>, interpreted on the tables; \<open>inbox_step\<close> is the relation of what may happen to them.
    A message is stored once, every repeat is answered, and what is stored reaches the access rules.
  \<^item> \<open>HubReduce\<close>: the reducer of evidence (\<open>internal/hubmsg/reducer.go\<close>). It computes a declarative projection of the set of
    valid events as long as an event id has one content, and depends on the order when it has two.

  \<^bold>\<open>How the code is modelled.\<close> A Go struct is a record with prefixed fields, a map is an association list whose
  order stands for the unspecified iteration order, an error is \<open>Inl\<close> of an error datatype, and a panic
  is an error value of its own, so that panics are visible in the statements. Fixed-width integers are words where
  the code can wrap and naturals where a bound has been checked. Floating-point budgets are rationals.
  The clock, random bytes, cryptographic functions, JSON decoding and the success of a send are arguments; what is used of
  a cryptographic function is a named hypothesis (\<open>sha_ok\<close>: 32 bytes; \<open>sig_ok\<close>: what is signed verifies). Loops are
  structural recursions or folds over index ranges, so every model function is total and no fuel is needed; the
  exceptions are named in their theories. Mutexes make the handlers atomic, and goroutines that wake up later are
  steps of the history relations.

  \<^bold>\<open>What the properties show.\<close> The composition results are about several components at once: a resource offered on one node is
  delivered on the other through header codec, bitmap, segments and hash; with coding, through field, elimination
  and trimming as well; an announce survives relaying because hash, codec and signature agree; a delivery proof made for the
  packet as it arrived validates against the packet as it was sent. Where the code does not do what it means to,
  a property states what it does instead.

  \<^bold>\<open>Not modelled.\<close> Device drivers and modems (\<open>internal/transport\<close>, \<open>internal/cell\<close>, \<open>internal/rnode\<close>,
  \<open>internal/hf10m\<close>, \<open>internal/tetra\<close>): serial, Bluetooth and USB I/O. Gateways and the hub session
  (\<open>internal/gateway\<close>, \<open>internal/hubreporter\<close>, \<open>internal/smpp\<close>): network I/O around external services.
  The REST API and web pages (\<open>internal/api\<close>, \<open>web\<close>). The SQL layer other than the rows named above
  (\<open>internal/database\<close>). The dispatcher and delivery workers (\<open>internal/engine/dispatcher.go\<close> and its neighbours): goroutines around the
  database and the gateways. Program start (\<open>cmd/meshsat\<close>). Spectrum analysis (\<open>internal/spectrum\<close>): floating-point signal
  processing.
\<close>

end
